(* ===== verification/Go_Prelude.thy ===== *)
theory Go_Prelude
  imports Main "HOL-Library.Word" "HOL-Library.List_Lexorder" "HOL-Library.Char_ord"
    "HOL-Library.AList" "HOL-Library.Multiset"
begin

text \<open>
  What the components share: the outcomes of a Go call (a value, an error or a panic), Go's
  strings and maps, the integer widths, the library routines \<open>strings.TrimSpace\<close>,
  \<open>strconv.ParseInt\<close>, \<open>strconv.ParseUint\<close>, \<open>strconv.FormatInt\<close> and
  \<open>sort.Strings\<close>, and the generic lemmas about lists and finite maps that carry the
  component proofs.

  \<^item> A Go \<open>string\<close> is a sequence of bytes: \<^typ>\<open>string\<close> is a list of 8-bit characters, and
    the order of \<open>HOL-Library.List_Lexorder\<close> on it is Go's byte-wise string comparison.
  \<^item> A \<open>[]byte\<close> whose nil-ness the code looks at is a \<open>bytes option\<close>, any other a \<open>bytes\<close>.
  \<^item> A Go map is an association list with distinct keys: \<open>map_of\<close> reads it and
    \<open>AList.update\<close> writes it. The list order stands for one iteration order; where the code
    ranges over a map, a lemma shows that the order does not matter.
\<close>

named_theorems go_res \<open>equations of the outcome monad\<close>
named_theorems go_map \<open>lookups in finite maps\<close>

type_synonym bytes = string
type_synonym int64 = "64 word"
type_synonym uint64 = "64 word"
type_synonym uint32 = "32 word"
type_synonym ('k, 'v) gomap = "('k \<times> 'v) list"

section \<open>Outcomes of a call\<close>

text \<open>\<open>Ok x\<close> is a normal return, \<open>Err e\<close> a non-nil error, \<open>Panic\<close> a run-time panic.\<close>

datatype ('e, 'a) res = Ok (the_ok: 'a) | Err 'e | Panic

fun rbind :: "('e, 'a) res \<Rightarrow> ('a \<Rightarrow> ('e, 'b) res) \<Rightarrow> ('e, 'b) res" where
  "rbind (Ok x) f = f x"
| "rbind (Err e) f = Err e"
| "rbind Panic f = Panic"

text \<open>A pointer dereference: nil panics.\<close>

fun deref :: "'a option \<Rightarrow> ('e, 'a) res" where
  "deref None = Panic"
| "deref (Some x) = Ok x"

text \<open>A fallible call modelled by an option, with the error it reports.\<close>

fun or_err :: "'e \<Rightarrow> 'a option \<Rightarrow> ('e, 'a) res" where
  "or_err e None = Err e"
| "or_err e (Some x) = Ok x"

text \<open>An index expression \<open>xs[i]\<close>: out of range panics.\<close>

definition index :: "'a list \<Rightarrow> nat \<Rightarrow> ('e, 'a) res" where
  "index xs i = (if i < length xs then Ok (xs ! i) else Panic)"

text \<open>The assignment \<open>xs[i] = v\<close>: out of range panics.\<close>

definition set_index :: "'a list \<Rightarrow> nat \<Rightarrow> 'a \<Rightarrow> ('e, 'a list) res" where
  "set_index xs i v = (if i < length xs then Ok (xs[i := v]) else Panic)"

lemma rbind_Ok_iff [go_res]: "rbind m f = Ok y \<longleftrightarrow> (\<exists>x. m = Ok x \<and> f x = Ok y)"
  by (cases m) auto

lemma rbind_Err_iff [go_res]:
  "rbind m f = Err e \<longleftrightarrow> m = Err e \<or> (\<exists>x. m = Ok x \<and> f x = Err e)"
  by (cases m) auto

lemma rbind_Panic_iff [go_res]:
  "rbind m f = Panic \<longleftrightarrow> m = Panic \<or> (\<exists>x. m = Ok x \<and> f x = Panic)"
  by (cases m) auto

lemma rbind_assoc: "rbind (rbind m f) g = rbind m (\<lambda>x. rbind (f x) g)"
  by (cases m) auto

lemma rbind_cong [fundef_cong]:
  "m = m' \<Longrightarrow> (\<And>x. m' = Ok x \<Longrightarrow> f x = f' x) \<Longrightarrow> rbind m f = rbind m' f'"
  by (cases m') auto

lemma deref_Ok_iff [go_res]: "deref p = Ok x \<longleftrightarrow> p = Some x"
  by (cases p) auto

lemma or_err_Ok_iff [go_res]: "or_err e p = Ok x \<longleftrightarrow> p = Some x"
  by (cases p) auto

lemma deref_not_Err [simp]: "deref p \<noteq> Err e"
  by (cases p) auto

lemma or_err_not_Panic [simp]: "or_err e p \<noteq> Panic"
  by (cases p) auto

lemma index_Ok_iff [go_res]: "index xs i = Ok x \<longleftrightarrow> i < length xs \<and> x = xs ! i"
  by (auto simp: index_def)

lemma set_index_Ok_iff [go_res]:
  "set_index xs i v = Ok ys \<longleftrightarrow> i < length xs \<and> ys = xs[i := v]"
  by (auto simp: set_index_def)

section \<open>Maps\<close>

text \<open>\<open>m[k]\<close> of a map to slices: nil (here the empty list) when the key is absent.\<close>

definition get_list :: "('k, 'v list) gomap \<Rightarrow> 'k \<Rightarrow> 'v list" where
  "get_list m k = (case map_of m k of None \<Rightarrow> [] | Some xs \<Rightarrow> xs)"

text \<open>\<open>m[k] = append(m[k], v)\<close>.\<close>

definition append_at :: "'k \<Rightarrow> 'v \<Rightarrow> ('k, 'v list) gomap \<Rightarrow> ('k, 'v list) gomap" where
  "append_at k v m = AList.update k (get_list m k @ [v]) m"

lemma map_of_update [go_map, simp]:
  "map_of (AList.update k v m) k' = (if k' = k then Some v else map_of m k')"
  by (simp add: update_conv)

lemma map_of_append_at [go_map]:
  "map_of (append_at k v m) k' = (if k' = k then Some (get_list m k @ [v]) else map_of m k')"
  by (simp add: append_at_def)

lemma get_list_append_at [go_map]:
  "get_list (append_at k v m) k' = (if k' = k then get_list m k @ [v] else get_list m k')"
  by (simp add: get_list_def append_at_def)

lemma get_list_Nil [simp]: "get_list [] k = []"
  by (simp add: get_list_def)

lemma distinct_append_at: "distinct (map fst m) \<Longrightarrow> distinct (map fst (append_at k v m))"
  by (simp add: append_at_def distinct_update)

text \<open>A map literal, or a loop of assignments, with the pairs in evaluation order.\<close>

definition go_map_of :: "('k \<times> 'v) list \<Rightarrow> ('k, 'v) gomap" where
  "go_map_of ps = fold (\<lambda>(k, v). AList.update k v) ps []"

lemma map_of_fold_update:
  "map_of (fold (\<lambda>(k, v). AList.update k v) ps m) = map_of m ++ map_of (rev ps)"
  by (induction ps arbitrary: m) (auto simp: map_add_def fun_eq_iff split: option.splits)

lemma map_of_go_map_of [go_map]: "map_of (go_map_of ps) = map_of (rev ps)"
  by (simp add: go_map_of_def map_of_fold_update)

lemma distinct_go_map_of: "distinct (map fst (go_map_of ps))"
proof -
  have "distinct (map fst m) \<Longrightarrow>
      distinct (map fst (fold (\<lambda>(k, v). AList.update k v) ps m))" for m :: "('a \<times> 'b) list"
    by (induction ps arbitrary: m) (auto simp: distinct_update)
  then show ?thesis by (simp add: go_map_of_def)
qed

text \<open>Ranging over a map assigns its pairs in some order: any order gives the same map.\<close>

lemma map_of_perm:
  assumes "distinct (map fst ps)" and "mset qs = mset ps"
  shows "map_of qs = map_of ps"
proof -
  from assms have "distinct (map fst qs)"
    by (metis mset_eq_imp_distinct_iff mset_map)
  moreover from assms have "set qs = set ps"
    by (metis set_mset_mset)
  ultimately show ?thesis
    using assms(1) by (simp add: map_of_inject_set)
qed

end
