(* ===== verification/Version.thy ===== *)
theory Version
  imports Go_Strings
begin

text \<open>
  Heights and their byte encodings: \<open>version/version.go\<close>, the order-preserving encoding of
  \<open>common/ledger/util/util.go\<close>, and the varint routines of the vendored protobuf runtime that it
  calls. The lemmas show that the encodings can be read back from the front of a longer text, that
  byte order on encodings is numeric order, and that \<open>Compare\<close> is the lexicographic comparison for
  numbers below \<open>2 ^ 63\<close>.
\<close>

unbundle bit_operations_syntax

section \<open>Varints\<close>

function EncodeVarint :: "uint64 \<Rightarrow> bytes" where
  "EncodeVarint x =
     (if x > 127 then char_of (unat (0x80 OR (x AND 0x7F))) # EncodeVarint (drop_bit 7 x)
      else [char_of (unat x)])"
  by pat_completeness auto
termination
  by (relation "measure unat")
    (auto simp: drop_bit_eq_div unat_div word_less_nat_alt intro!: div_less_dividend)

declare EncodeVarint.simps [simp del]

text \<open>The loop of \<open>DecodeVarint\<close>: the unread bytes, the shift and the values of \<open>x\<close> and \<open>n\<close>.\<close>

function decode_varint_loop :: "bytes \<Rightarrow> nat \<Rightarrow> uint64 \<Rightarrow> nat \<Rightarrow> uint64 \<times> nat" where
  "decode_varint_loop buf shift x n =
     (if \<not> shift < 64 then (0, 0)
      else
        (case buf of
           [] \<Rightarrow> (0, 0)
         | c # rest \<Rightarrow>
             let b = (of_nat (of_char c) :: uint64);
                 x = x OR push_bit shift (b AND 0x7F)
             in if b AND 0x80 = 0 then (x, Suc n) else decode_varint_loop rest (shift + 7) x (Suc n)))"
  by pat_completeness auto
termination by (relation "measure (\<lambda>(buf, shift, x, n). length buf)") auto

declare decode_varint_loop.simps [simp del]

definition DecodeVarint :: "bytes \<Rightarrow> uint64 \<times> nat" where
  "DecodeVarint buf = decode_varint_loop buf 0 0 0"

section \<open>The order-preserving encoding\<close>

text \<open>The last \<open>k\<close> base-256 digits of a number, and the number of a list of digits.\<close>

fun be_bytes :: "nat \<Rightarrow> nat \<Rightarrow> bytes" where
  "be_bytes 0 n = []"
| "be_bytes (Suc k) n = be_bytes k (n div 256) @ [char_of (n mod 256)]"

definition be_val :: "bytes \<Rightarrow> nat" where
  "be_val bs = foldl (\<lambda>a b. 256 * a + of_char b) 0 bs"

definition PutUint64 :: "uint64 \<Rightarrow> bytes" where
  "PutUint64 w = be_bytes 8 (unat w)"

definition Uint64 :: "bytes \<Rightarrow> uint64" where
  "Uint64 bs = of_nat (be_val bs)"

text \<open>The search for the first non-zero byte: its index and the number of bytes from it on.\<close>

fun first_nonzero :: "nat \<Rightarrow> bytes \<Rightarrow> nat \<times> nat" where
  "first_nonzero i [] = (0, 0)"
| "first_nonzero i (b # bs) = (if b \<noteq> CHR 0x00 then (i, 8 - i) else first_nonzero (Suc i) bs)"

text \<open>
  The source panics when the varint of the size takes more than one byte; \<open>size_bytes_one\<close> shows
  that the branch is dead, so the encoder is a plain function.
\<close>

definition EncodeOrderPreservingVarUint64 :: "uint64 \<Rightarrow> bytes" where
  "EncodeOrderPreservingVarUint64 number =
     (let bytes = PutUint64 number;
          (startingIndex, size) = first_nonzero 0 bytes;
          sizeBytes = EncodeVarint (of_nat size)
      in hd sizeBytes # take size (drop startingIndex bytes))"

text \<open>
  The decoder panics when the slice expressions are out of range: a size over 8, or fewer bytes
  than the size announces. The slices it gets are taken as having no spare capacity.
\<close>

definition DecodeOrderPreservingVarUint64 :: "bytes \<Rightarrow> (string, uint64 \<times> nat) res" where
  "DecodeOrderPreservingVarUint64 bytes =
     (let (s, _) = DecodeVarint bytes;
          size = unat s
      in if size > 8 \<or> size + 1 > length bytes then Panic
         else
           let decodedBytes = replicate (8 - size) CHR 0x00 @ take size (drop 1 bytes)
           in Ok (Uint64 decodedBytes, size + 1))"

section \<open>Heights\<close>

datatype Height = Height (BlockNum: uint64) (TxNum: uint64)

definition NewHeight :: "uint64 \<Rightarrow> uint64 \<Rightarrow> Height" where
  "NewHeight blockNum txNum = Height blockNum txNum"

definition NewHeightFromBytes :: "bytes \<Rightarrow> (string, Height \<times> nat) res" where
  "NewHeightFromBytes b =
     rbind (DecodeOrderPreservingVarUint64 b) (\<lambda>(blockNum, n1).
     rbind (DecodeOrderPreservingVarUint64 (drop n1 b)) (\<lambda>(txNum, n2).
     Ok (NewHeight blockNum txNum, n1 + n2)))"

definition ToBytes :: "Height \<Rightarrow> bytes" where
  "ToBytes h =
     EncodeOrderPreservingVarUint64 (BlockNum h) @ EncodeOrderPreservingVarUint64 (TxNum h)"

text \<open>\<open>int(a - b)\<close> on unsigned words: the wrapped difference read as a signed number.\<close>

definition Compare :: "Height \<Rightarrow> Height \<Rightarrow> int" where
  "Compare h h1 =
     (if BlockNum h \<noteq> BlockNum h1 then
        (let res = sint (BlockNum h - BlockNum h1) in if res > 0 then 1 else -1)
      else if TxNum h \<noteq> TxNum h1 then
        (let res = sint (TxNum h - TxNum h1) in if res > 0 then 1 else -1)
      else 0)"

definition AreSame :: "Height option \<Rightarrow> Height option \<Rightarrow> bool" where
  "AreSame h1 h2 =
     (case h1 of
        None \<Rightarrow> h2 = None
      | Some a \<Rightarrow> (case h2 of None \<Rightarrow> False | Some b \<Rightarrow> Compare a b = 0))"

instantiation Height :: linorder
begin

definition less_eq_Height :: "Height \<Rightarrow> Height \<Rightarrow> bool" where
  "less_eq_Height a b \<longleftrightarrow> BlockNum a < BlockNum b \<or> BlockNum a = BlockNum b \<and> TxNum a \<le> TxNum b"

definition less_Height :: "Height \<Rightarrow> Height \<Rightarrow> bool" where
  "less_Height a b \<longleftrightarrow> BlockNum a < BlockNum b \<or> BlockNum a = BlockNum b \<and> TxNum a < TxNum b"

instance
  by standard (auto simp: less_eq_Height_def less_Height_def intro: Height.expand)

end

section \<open>Digits\<close>

lemma be_val_Nil [simp]: "be_val [] = 0"
  by (simp add: be_val_def)

lemma be_val_snoc [simp]: "be_val (bs @ [c]) = 256 * be_val bs + of_char c"
  by (simp add: be_val_def)

lemma be_val_Cons: "be_val (b # bs) = of_char b * 256 ^ length bs + be_val bs"
proof (induction bs rule: rev_induct)
  case Nil
  then show ?case by (simp add: be_val_def)
next
  case (snoc c bs)
  then show ?case by (simp add: algebra_simps flip: append_Cons)
qed

lemma of_char_byte [simp]: "of_char c < (256 :: nat)"
  using of_char_mod_256 [of c, where ?'a = nat] by (metis mod_less_divisor zero_less_numeral)

lemma be_val_less: "be_val bs < 256 ^ length bs"
proof (induction bs rule: rev_induct)
  case (snoc c bs)
  with of_char_byte [of c] show ?case by (simp del: of_char_byte)
qed simp

lemma length_be_bytes [simp]: "length (be_bytes k n) = k"
  by (induction k arbitrary: n) simp_all

lemma be_val_be_bytes: "n < 256 ^ k \<Longrightarrow> be_val (be_bytes k n) = n"
proof (induction k arbitrary: n)
  case (Suc k)
  then have "n div 256 < 256 ^ k" by (simp add: div_less_iff_less_mult mult.commute)
  with Suc show ?case by simp
qed simp

lemma be_val_zeros [simp]: "be_val (replicate m CHR 0x00 @ bs) = be_val bs"
  by (induction m) (simp_all add: be_val_Cons)

lemma be_val_dropWhile: "be_val (dropWhile (\<lambda>b. b = CHR 0x00) bs) = be_val bs"
  by (induction bs) (simp_all add: be_val_Cons)

text \<open>Byte order on digit lists of one length is numeric order.\<close>

lemma be_val_order:
  "length xs = length ys \<Longrightarrow> be_val xs < be_val ys \<longleftrightarrow> xs < ys"
proof (induction xs ys rule: list_induct2)
  case (Cons x xs y ys)
  let ?m = "(256 :: nat) ^ length xs"
  have less: "be_val xs < ?m" "be_val ys < ?m"
    using be_val_less [of xs] be_val_less [of ys] Cons.hyps by simp_all
  have aux: "a * ?m + u < b * ?m + v" if "a < b" "u < ?m" for a b u v :: nat
  proof -
    have "a * ?m + u < Suc a * ?m" using that by simp
    also have "\<dots> \<le> b * ?m" using that by (intro mult_le_mono1) simp
    finally show ?thesis by simp
  qed
  consider "of_char x < (of_char y :: nat)" | "x = y" | "of_char y < (of_char x :: nat)"
    using linorder_less_linear [of "of_char x :: nat" "of_char y"] by auto
  then show ?case
  proof cases
    case 1
    then show ?thesis
      using aux [OF 1 less(1), of "be_val ys"] Cons.hyps by (simp add: be_val_Cons less_char_def)
  next
    case 2
    then show ?thesis using Cons by (simp add: be_val_Cons)
  next
    case 3
    then show ?thesis
      using aux [OF 3 less(2), of "be_val xs"] Cons.hyps by (auto simp: be_val_Cons less_char_def)
  qed
qed simp

section \<open>Reading encodings back\<close>

lemma first_nonzero_eq:
  "first_nonzero i bs = (s, n) \<Longrightarrow> length bs + i = 8 \<Longrightarrow>
     n = length (dropWhile (\<lambda>b. b = CHR 0x00) bs) \<and>
     take n (drop s (replicate i CHR 0x00 @ bs)) = dropWhile (\<lambda>b. b = CHR 0x00) bs"
proof (induction i bs rule: first_nonzero.induct)
  case (2 i b bs)
  show ?case
  proof (cases "b = CHR 0x00")
    case True
    have eq: "replicate i CHR 0x00 @ b # bs = replicate (Suc i) CHR 0x00 @ bs"
      using True by (simp add: replicate_app_Cons_same)
    from True 2 show ?thesis unfolding eq by auto
  next
    case False
    with 2 show ?thesis by auto
  qed
qed simp

lemma unat_size: "n \<le> 8 \<Longrightarrow> unat (of_nat n :: uint64) = n"
  by (simp add: unat_of_nat)

definition digits64 :: "uint64 \<Rightarrow> bytes" where
  "digits64 w = dropWhile (\<lambda>b. b = CHR 0x00) (PutUint64 w)"

lemma length_digits64: "length (digits64 w) \<le> 8"
  unfolding digits64_def PutUint64_def by (rule order_trans [OF length_dropWhile_le]) simp

lemma be_val_digits64: "be_val (digits64 w) = unat w"
proof -
  have "unat w < 256 ^ 8" using unsigned_less [of w] by simp
  then show ?thesis by (simp add: digits64_def be_val_dropWhile PutUint64_def be_val_be_bytes)
qed

lemma size_bytes_one: "n \<le> 8 \<Longrightarrow> EncodeVarint (of_nat n) = [char_of n]"
proof -
  assume "n \<le> 8"
  then have "unat (of_nat n :: uint64) = n" by (rule unat_size)
  with \<open>n \<le> 8\<close> show ?thesis
    by (simp add: EncodeVarint.simps [of "of_nat n"] word_less_nat_alt)
qed

lemma EncodeOrderPreserving_eq:
  "EncodeOrderPreservingVarUint64 w = char_of (length (digits64 w)) # digits64 w"
proof -
  obtain s n where sn: "first_nonzero 0 (PutUint64 w) = (s, n)" by fastforce
  have "length (PutUint64 w) + 0 = 8" by (simp add: PutUint64_def)
  from first_nonzero_eq [OF sn this]
  have "n = length (digits64 w)" "take n (drop s (PutUint64 w)) = digits64 w"
    unfolding digits64_def by auto
  with sn length_digits64 [of w] show ?thesis
    by (simp add: EncodeOrderPreservingVarUint64_def size_bytes_one)
qed

lemma DecodeVarint_size:
  assumes "n \<le> 8"
  shows "DecodeVarint (char_of n # bs) = (of_nat n, 1)"
proof -
  have "n \<in> {0, 1, 2, 3, 4, 5, 6, 7, 8}" using assms by auto
  then show ?thesis
    by (auto simp: DecodeVarint_def decode_varint_loop.simps [of "_ # _"])
qed

lemma DecodeOrderPreserving_Encode:
  "DecodeOrderPreservingVarUint64 (EncodeOrderPreservingVarUint64 w @ r) =
     Ok (w, length (EncodeOrderPreservingVarUint64 w))"
proof -
  let ?n = "length (digits64 w)"
  have n: "?n \<le> 8" by (rule length_digits64)
  then have "unat (of_nat ?n :: uint64) = ?n" by (rule unat_size)
  moreover have "Uint64 (replicate (8 - ?n) CHR 0x00 @ digits64 w) = w"
    by (simp add: Uint64_def be_val_digits64)
  ultimately show ?thesis
    using n by (simp add: DecodeOrderPreservingVarUint64_def EncodeOrderPreserving_eq DecodeVarint_size)
qed

lemma NewHeightFromBytes_ToBytes:
  "NewHeightFromBytes (ToBytes h @ r) = Ok (h, length (ToBytes h))"
  by (simp add: NewHeightFromBytes_def ToBytes_def DecodeOrderPreserving_Encode NewHeight_def)

lemma ToBytes_inj: "ToBytes h = ToBytes h' \<longleftrightarrow> h = h'"
  by (metis NewHeightFromBytes_ToBytes prod.inject res.inject(1))

section \<open>Order\<close>

lemma digits64_head: "digits64 w = b # bs \<Longrightarrow> b \<noteq> CHR 0x00"
  using hd_dropWhile [of "\<lambda>b. b = CHR 0x00" "PutUint64 w"] by (auto simp: digits64_def)

lemma digits64_lower:
  assumes "digits64 w \<noteq> []"
  shows "256 ^ (length (digits64 w) - 1) \<le> unat w"
proof -
  from assms obtain b bs where bs: "digits64 w = b # bs" by (cases "digits64 w") auto
  then have "of_char b \<noteq> (of_char CHR 0x00 :: nat)"
    using digits64_head [OF bs] by (metis of_char_eq_iff)
  then have "1 \<le> (of_char b :: nat)" by simp
  then have "1 * 256 ^ length bs \<le> of_char b * (256 ^ length bs :: nat)" by (rule mult_le_mono1)
  then have "256 ^ length bs \<le> be_val (digits64 w)" unfolding bs be_val_Cons by linarith
  then show ?thesis using be_val_digits64 [of w] by (simp add: bs)
qed

lemma digits64_longer:
  assumes "length (digits64 v) < length (digits64 w)"
  shows "unat v < unat w"
proof -
  have "unat v < 256 ^ length (digits64 v)"
    using be_val_less [of "digits64 v"] by (simp add: be_val_digits64)
  also have "\<dots> \<le> 256 ^ (length (digits64 w) - 1)"
    using assms by (intro power_increasing) auto
  also have "\<dots> \<le> unat w" using assms by (intro digits64_lower) auto
  finally show ?thesis .
qed

lemma char_of_size_less:
  "m \<le> 8 \<Longrightarrow> n \<le> 8 \<Longrightarrow> char_of m < (char_of n :: char) \<longleftrightarrow> m < (n :: nat)"
  by (simp add: less_char_def)

lemma Encode_order:
  "EncodeOrderPreservingVarUint64 v < EncodeOrderPreservingVarUint64 w \<longleftrightarrow> v < w"
proof -
  let ?v = "digits64 v" and ?w = "digits64 w"
  have len: "length ?v \<le> 8" "length ?w \<le> 8" by (simp_all add: length_digits64)
  consider "length ?v < length ?w" | "length ?v = length ?w" | "length ?w < length ?v" by linarith
  then show ?thesis
  proof cases
    case 1
    with len digits64_longer [OF 1] show ?thesis
      by (simp add: EncodeOrderPreserving_eq char_of_size_less word_less_nat_alt)
  next
    case 2
    with be_val_order [OF 2] show ?thesis
      by (simp add: EncodeOrderPreserving_eq be_val_digits64 word_less_nat_alt)
  next
    case 3
    with len digits64_longer [OF 3] have "\<not> v < w" by (simp add: word_less_nat_alt)
    moreover have "char_of (length ?w) < (char_of (length ?v) :: char)"
      using 3 len by (simp add: char_of_size_less)
    then have "\<not> char_of (length ?v) < (char_of (length ?w) :: char)"
      "char_of (length ?v) \<noteq> (char_of (length ?w) :: char)" by (metis less_asym less_irrefl)+
    ultimately show ?thesis
      by (simp only: EncodeOrderPreserving_eq Cons_less_Cons) simp
  qed
qed

lemma Encode_inj: "EncodeOrderPreservingVarUint64 v = EncodeOrderPreservingVarUint64 w \<longleftrightarrow> v = w"
  by (metis DecodeOrderPreserving_Encode prod.inject res.inject(1))

text \<open>The encodings form a prefix code, so a common tail does not disturb the order.\<close>

lemma Encode_append_order:
  "EncodeOrderPreservingVarUint64 v @ s < EncodeOrderPreservingVarUint64 w @ t \<longleftrightarrow>
     v < w \<or> v = w \<and> s < t"
proof (cases "v = w")
  case True
  have "u @ s < u @ t \<longleftrightarrow> s < t" for u :: string by (induction u) simp_all
  with True show ?thesis by simp
next
  case False
  let ?v = "EncodeOrderPreservingVarUint64 v" and ?w = "EncodeOrderPreservingVarUint64 w"
  have split: "xs @ s < ys @ t \<longleftrightarrow> xs < ys" if "length xs = length ys" "xs \<noteq> ys" for xs ys :: string
    using that by (induction xs ys rule: list_induct2) auto
  show ?thesis
  proof (cases "length ?v = length ?w")
    case True
    with False split [OF True] show ?thesis by (simp add: Encode_inj Encode_order)
  next
    case len: False
    then have "length (digits64 v) \<noteq> length (digits64 w)" by (simp add: EncodeOrderPreserving_eq)
    moreover have "length (digits64 v) \<le> 8" "length (digits64 w) \<le> 8" by (simp_all add: length_digits64)
    ultimately have "char_of (length (digits64 v)) \<noteq> (char_of (length (digits64 w)) :: char)"
      using char_of_size_less by (metis less_irrefl linorder_neqE_nat)
    then have "?v @ s < ?w @ t \<longleftrightarrow> ?v < ?w"
      by (simp only: EncodeOrderPreserving_eq append_Cons Cons_less_Cons) simp
    with False show ?thesis by (simp add: Encode_order)
  qed
qed

lemma Compare_zero: "Compare a b = 0 \<longleftrightarrow> a = b"
  by (cases a; cases b) (simp add: Compare_def Let_def)

lemma sint_diff_sign:
  assumes "v < 2 ^ 63" and "w < 2 ^ 63"
  shows "0 < sint (v - w :: uint64) \<longleftrightarrow> w < v"
proof -
  have "uint v < 2 ^ 63" "uint w < 2 ^ 63"
    using assms by (simp_all add: word_less_def)
  moreover have "0 \<le> uint v" "0 \<le> uint w" by simp_all
  ultimately have "- (2 ^ 63) \<le> uint v - uint w" "uint v - uint w < 2 ^ 63" by linarith+
  then have "signed_take_bit 63 (uint v - uint w) = uint v - uint w"
    by (rule signed_take_bit_int_eq_self)
  moreover have "sint (v - w) = signed_take_bit 63 (uint v - uint w)"
  proof -
    have "uint (v - w) = take_bit 64 (uint v - uint w)"
      by (simp add: uint_word_ariths take_bit_eq_mod)
    then show ?thesis by (simp add: sint_uint signed_take_bit_take_bit)
  qed
  ultimately show ?thesis by (simp add: word_less_def)
qed

lemma Compare_order:
  assumes "BlockNum a < 2 ^ 63" "TxNum a < 2 ^ 63" "BlockNum b < 2 ^ 63" "TxNum b < 2 ^ 63"
  shows "Compare a b = (if a < b then -1 else if a = b then 0 else 1)"
proof (cases "BlockNum a = BlockNum b")
  case True
  with sint_diff_sign [OF assms(2,4)] show ?thesis
    by (cases a; cases b) (auto simp: Compare_def less_Height_def Let_def)
next
  case False
  with sint_diff_sign [OF assms(1,3)] show ?thesis
    by (cases a; cases b) (auto simp: Compare_def less_Height_def Let_def)
qed

section \<open>Properties\<close>

text \<open>C21: The byte encoding of heights reads back from the front of any text, consumes exactly its
  own bytes, and its byte order is the order of heights, whatever follows the encodings.\<close>

theorem height_encoding_faithful:
  "NewHeightFromBytes (ToBytes h @ r) = Ok (h, length (ToBytes h)) \<and>
   (ToBytes h < ToBytes h' \<longleftrightarrow> h < h')"
proof -
  have "ToBytes h < ToBytes h' \<longleftrightarrow> h < h'"
    using Encode_append_order [of "TxNum h" "[]" "TxNum h'" "[]"]
    by (simp add: ToBytes_def Encode_append_order Encode_order less_Height_def)
  with NewHeightFromBytes_ToBytes show ?thesis by simp
qed

text \<open>\<open>Compare\<close> orders heights by block number and then transaction number as long as the
  numbers stay below \<open>2 ^ 63\<close>.\<close>

theorem Compare_is_lexicographic:
  assumes "BlockNum a < 2 ^ 63" "TxNum a < 2 ^ 63" "BlockNum b < 2 ^ 63" "TxNum b < 2 ^ 63"
  shows "Compare a b = (if a < b then -1 else if a = b then 0 else 1)"
  using assms by (rule Compare_order)

theorem Compare_is_lexicographic_witness:
  "Compare (Height 3 9) (Height 4 0) = -1"
  using Compare_is_lexicographic [of "Height 3 9" "Height 4 0"] by (simp add: less_Height_def)

text \<open>Beyond that range \<open>Compare\<close> calls a larger block number the smaller one, because the
  wrapped difference is read as a signed number; equality is decided correctly for all heights.\<close>

theorem Compare_wraps:
  "Compare (Height (2 ^ 63) 0) (Height 0 0) = -1 \<and> (AreSame (Some a) (Some b) \<longleftrightarrow> a = b)"
  by (simp add: Compare_zero AreSame_def) (simp add: Compare_def)

end
