(* ===== verification/State_DB.thy ===== *)
theory State_DB
  imports Version
begin

text \<open>
  The versioned state database: the update batch and its iterator (\<open>statedb/statedb.go\<close>), the value
  encoding (\<open>statedb/util.go\<close>), the LevelDB wrapper (\<open>leveldbhelper\<close>) and the LevelDB
  implementation of \<open>VersionedDB\<close> (\<open>stateleveldb.go\<close>).

  goleveldb is a vendored library: its \<open>Get\<close>, \<open>Write\<close> and \<open>NewIterator\<close> are the fields of a
  \<open>leveldb\<close> record over an abstract store type, and what the code relies on is \<open>ldb_laws\<close>. A
  version pointer in a stored value is never nil, so it is a plain height.
\<close>

section \<open>Data\<close>

record VersionedValue =
  vv_Value :: "bytes option"
  vv_Version :: Height

record VersionedKV =
  vkv_Namespace :: string
  vkv_Key :: string
  vkv_Value :: "bytes option"
  vkv_Version :: Height

type_synonym nsUpdates = "(string, VersionedValue) gomap"
type_synonym UpdateBatch = "(string, nsUpdates) gomap"

text \<open>\<open>VersionedDB.GetState\<close>, as the clients of the interface call it.\<close>

type_synonym db_reader = "string \<Rightarrow> string \<Rightarrow> (string, VersionedValue option) res"

section \<open>The update batch\<close>

definition NewUpdateBatch :: UpdateBatch where
  "NewUpdateBatch = []"

definition UpdateBatch_Get :: "UpdateBatch \<Rightarrow> string \<Rightarrow> string \<Rightarrow> VersionedValue option" where
  "UpdateBatch_Get batch ns key =
     (case map_of batch ns of None \<Rightarrow> None | Some nsUpdates \<Rightarrow> map_of nsUpdates key)"

definition getOrCreateNsUpdates :: "UpdateBatch \<Rightarrow> string \<Rightarrow> nsUpdates" where
  "getOrCreateNsUpdates batch ns = (case map_of batch ns of None \<Rightarrow> [] | Some u \<Rightarrow> u)"

text \<open>\<open>nsUpdates.m[key] = vv\<close> on the namespace's updates, created when missing.\<close>

definition set_update :: "string \<Rightarrow> string \<Rightarrow> VersionedValue \<Rightarrow> UpdateBatch \<Rightarrow> UpdateBatch" where
  "set_update ns key vv batch =
     AList.update ns (AList.update key vv (getOrCreateNsUpdates batch ns)) batch"

definition UpdateBatch_Put ::
    "string \<Rightarrow> string \<Rightarrow> bytes option \<Rightarrow> Height \<Rightarrow> UpdateBatch \<Rightarrow> (string, UpdateBatch) res" where
  "UpdateBatch_Put ns key value ver batch =
     (if value = None then Panic
      else Ok (set_update ns key \<lparr>vv_Value = value, vv_Version = ver\<rparr> batch))"

definition UpdateBatch_Delete :: "string \<Rightarrow> string \<Rightarrow> Height \<Rightarrow> UpdateBatch \<Rightarrow> UpdateBatch" where
  "UpdateBatch_Delete ns key ver batch =
     set_update ns key \<lparr>vv_Value = None, vv_Version = ver\<rparr> batch"

definition UpdateBatch_Exists :: "UpdateBatch \<Rightarrow> string \<Rightarrow> string \<Rightarrow> bool" where
  "UpdateBatch_Exists batch ns key =
     (case map_of batch ns of None \<Rightarrow> False | Some u \<Rightarrow> map_of u key \<noteq> None)"

definition GetUpdatedNamespaces :: "UpdateBatch \<Rightarrow> string list" where
  "GetUpdatedNamespaces batch = map fst batch"

definition GetUpdates :: "UpdateBatch \<Rightarrow> string \<Rightarrow> nsUpdates" where
  "GetUpdates batch ns = (case map_of batch ns of None \<Rightarrow> [] | Some u \<Rightarrow> u)"

text \<open>The batches that the operations build: distinct namespaces, distinct keys in each.\<close>

definition wf_batch :: "UpdateBatch \<Rightarrow> bool" where
  "wf_batch batch \<longleftrightarrow>
     distinct (map fst batch) \<and> (\<forall>(ns, u) \<in> set batch. distinct (map fst u))"

section \<open>The iterator over a batch\<close>

definition GetSortedKeys :: "(string, 'v) gomap \<Rightarrow> string list" where
  "GetSortedKeys m = sort_Strings (map fst m)"

text \<open>\<open>sort.SearchStrings\<close> on a sorted slice: the first index whose string is not below \<open>x\<close>.\<close>

definition SearchStrings :: "string list \<Rightarrow> string \<Rightarrow> nat" where
  "SearchStrings a x = length (takeWhile (\<lambda>s. s < x) a)"

record nsIterator =
  ni_ns :: string
  ni_nsUpdates :: nsUpdates
  ni_sortedKeys :: "string list"
  ni_nextIndex :: nat
  ni_lastIndex :: nat

definition newNsIterator :: "string \<Rightarrow> string \<Rightarrow> string \<Rightarrow> UpdateBatch \<Rightarrow> nsIterator" where
  "newNsIterator ns startKey endKey batch =
     (case map_of batch ns of
        None \<Rightarrow> \<lparr>ni_ns = [], ni_nsUpdates = [], ni_sortedKeys = [], ni_nextIndex = 0, ni_lastIndex = 0\<rparr>
      | Some u \<Rightarrow>
          (let sortedKeys = GetSortedKeys u;
               nextIndex = (if startKey = '''' then 0 else SearchStrings sortedKeys startKey);
               lastIndex = (if endKey = '''' then length sortedKeys else SearchStrings sortedKeys endKey)
           in \<lparr>ni_ns = ns, ni_nsUpdates = u, ni_sortedKeys = sortedKeys, ni_nextIndex = nextIndex,
               ni_lastIndex = lastIndex\<rparr>))"

definition GetRangeScanIterator :: "UpdateBatch \<Rightarrow> string \<Rightarrow> string \<Rightarrow> string \<Rightarrow> nsIterator" where
  "GetRangeScanIterator batch ns startKey endKey = newNsIterator ns startKey endKey batch"

definition nsIterator_Next :: "nsIterator \<Rightarrow> (string, VersionedKV option \<times> nsIterator) res" where
  "nsIterator_Next itr =
     (if ni_nextIndex itr \<ge> ni_lastIndex itr then Ok (None, itr)
      else
        rbind (index (ni_sortedKeys itr) (ni_nextIndex itr)) (\<lambda>key.
        rbind (deref (map_of (ni_nsUpdates itr) key)) (\<lambda>vv.
        Ok (Some \<lparr>vkv_Namespace = ni_ns itr, vkv_Key = key, vkv_Value = vv_Value vv,
                  vkv_Version = vv_Version vv\<rparr>,
            itr\<lparr>ni_nextIndex := ni_nextIndex itr + 1\<rparr>))))"

section \<open>Values with versions\<close>

definition EncodeValue :: "bytes option \<Rightarrow> Height \<Rightarrow> bytes" where
  "EncodeValue value version =
     ToBytes version @ (case value of None \<Rightarrow> [] | Some v \<Rightarrow> v)"

definition DecodeValue :: "bytes \<Rightarrow> (string, bytes \<times> Height) res" where
  "DecodeValue encodedValue =
     rbind (NewHeightFromBytes encodedValue) (\<lambda>(version, n).
     Ok (drop n encodedValue, version))"

section \<open>LevelDB\<close>

datatype ldb_error = ErrNotFound | ldb_failure string

text \<open>
  The library: \<open>Get\<close>, the atomic \<open>Write\<close> of a batch (in order, \<open>None\<close> deletes), and the entries
  that an iterator over the half-open range visits.
\<close>

record 'd leveldb =
  ldb_Get :: "'d \<Rightarrow> bytes \<Rightarrow> (ldb_error, bytes) res"
  ldb_Write :: "'d \<Rightarrow> (bytes \<times> bytes option) list \<Rightarrow> (string, 'd) res"
  ldb_NewIterator :: "'d \<Rightarrow> bytes \<Rightarrow> bytes \<Rightarrow> (bytes \<times> bytes) list"

definition ldb_laws :: "'d leveldb \<Rightarrow> bool" where
  "ldb_laws L \<longleftrightarrow>
     (\<forall>d k. ldb_Get L d k = Err ErrNotFound \<or> (\<exists>v. ldb_Get L d k = Ok v)) \<and>
     (\<forall>d ops. distinct (map fst ops) \<longrightarrow>
        (\<exists>d'. ldb_Write L d ops = Ok d' \<and>
           (\<forall>k. ldb_Get L d' k =
              (case map_of ops k of
                 None \<Rightarrow> ldb_Get L d k
               | Some None \<Rightarrow> Err ErrNotFound
               | Some (Some v) \<Rightarrow> Ok v)))) \<and>
     (\<forall>d s e. sorted (map fst (ldb_NewIterator L d s e)) \<and>
        distinct (map fst (ldb_NewIterator L d s e)) \<and>
        set (ldb_NewIterator L d s e) = {(k, v). s \<le> k \<and> k < e \<and> ldb_Get L d k = Ok v})"

definition DB_Get :: "'d leveldb \<Rightarrow> 'd \<Rightarrow> bytes \<Rightarrow> (string, bytes option) res" where
  "DB_Get L d key =
     (case ldb_Get L d key of
        Ok value \<Rightarrow> Ok (Some value)
      | Err ErrNotFound \<Rightarrow> Ok None
      | Err (ldb_failure e) \<Rightarrow> Err e
      | Panic \<Rightarrow> Panic)"

definition constructLevelKey :: "string \<Rightarrow> bytes \<Rightarrow> bytes" where
  "constructLevelKey dbName key = dbName @ [CHR 0x00] @ key"

text \<open>\<open>bytes.SplitN(s, \{0\}, 2)\<close>: the parts before and after the first zero byte.\<close>

definition split_zero :: "bytes \<Rightarrow> (string, bytes \<times> bytes) res" where
  "split_zero s =
     (let a = takeWhile (\<lambda>c. c \<noteq> CHR 0x00) s
      in if length a = length s then Panic else Ok (a, drop (length a + 1) s))"

definition retrieveAppKey :: "bytes \<Rightarrow> (string, bytes) res" where
  "retrieveAppKey levelKey = rbind (split_zero levelKey) (\<lambda>(_, k). Ok k)"

definition DBHandle_Get :: "'d leveldb \<Rightarrow> string \<Rightarrow> 'd \<Rightarrow> bytes \<Rightarrow> (string, bytes option) res" where
  "DBHandle_Get L dbName d key = DB_Get L d (constructLevelKey dbName key)"

definition DBHandle_WriteBatch ::
    "'d leveldb \<Rightarrow> string \<Rightarrow> 'd \<Rightarrow> (bytes, bytes option) gomap \<Rightarrow> (string, 'd) res" where
  "DBHandle_WriteBatch L dbName d kvs =
     ldb_Write L d (map (\<lambda>(k, v). (constructLevelKey dbName k, v)) kvs)"

text \<open>A nil end key replaces the separator at the end of the level key by the byte after it.\<close>

definition DBHandle_GetIterator ::
    "'d leveldb \<Rightarrow> string \<Rightarrow> 'd \<Rightarrow> bytes option \<Rightarrow> bytes option \<Rightarrow> (bytes \<times> bytes) list" where
  "DBHandle_GetIterator L dbName d startKey endKey =
     (let sKey = constructLevelKey dbName (case startKey of None \<Rightarrow> [] | Some k \<Rightarrow> k);
          eKey = (case endKey of
                    None \<Rightarrow> butlast (constructLevelKey dbName []) @ [CHR 0x01]
                  | Some k \<Rightarrow> constructLevelKey dbName k)
      in ldb_NewIterator L d sKey eKey)"

section \<open>The LevelDB state database\<close>

definition constructCompositeKey :: "string \<Rightarrow> string \<Rightarrow> bytes" where
  "constructCompositeKey ns key = ns @ [CHR 0x00] @ key"

definition splitCompositeKey :: "bytes \<Rightarrow> (string, string \<times> string) res" where
  "splitCompositeKey compositeKey = split_zero compositeKey"

definition savePointKey :: bytes where "savePointKey = [CHR 0x00]"

definition vdb_GetState ::
    "'d leveldb \<Rightarrow> string \<Rightarrow> 'd \<Rightarrow> string \<Rightarrow> string \<Rightarrow> (string, VersionedValue option) res" where
  "vdb_GetState L dbName d namespace key =
     rbind (DBHandle_Get L dbName d (constructCompositeKey namespace key)) (\<lambda>dbVal.
     case dbVal of
       None \<Rightarrow> Ok None
     | Some v \<Rightarrow>
         rbind (DecodeValue v) (\<lambda>(val, ver).
         Ok (Some \<lparr>vv_Value = Some val, vv_Version = ver\<rparr>)))"

fun vdb_GetStateMultipleKeys ::
    "'d leveldb \<Rightarrow> string \<Rightarrow> 'd \<Rightarrow> string \<Rightarrow> string list \<Rightarrow> (string, VersionedValue option list) res" where
  "vdb_GetStateMultipleKeys L dbName d namespace [] = Ok []"
| "vdb_GetStateMultipleKeys L dbName d namespace (key # keys) =
     rbind (vdb_GetState L dbName d namespace key) (\<lambda>val.
     rbind (vdb_GetStateMultipleKeys L dbName d namespace keys) (\<lambda>vals. Ok (val # vals)))"

record kvScanner =
  ks_namespace :: string
  ks_dbItr :: "(bytes \<times> bytes) list"

definition vdb_GetStateRangeScanIterator ::
    "'d leveldb \<Rightarrow> string \<Rightarrow> 'd \<Rightarrow> string \<Rightarrow> string \<Rightarrow> string \<Rightarrow> kvScanner" where
  "vdb_GetStateRangeScanIterator L dbName d namespace startKey endKey =
     (let compositeStartKey = constructCompositeKey namespace startKey;
          compositeEndKey = constructCompositeKey namespace endKey;
          compositeEndKey = (if endKey = '''' then butlast compositeEndKey @ [CHR 0x01] else compositeEndKey)
      in \<lparr>ks_namespace = namespace,
          ks_dbItr = DBHandle_GetIterator L dbName d (Some compositeStartKey) (Some compositeEndKey)\<rparr>)"

definition kvScanner_Next :: "kvScanner \<Rightarrow> (string, VersionedKV option \<times> kvScanner) res" where
  "kvScanner_Next scanner =
     (case ks_dbItr scanner of
        [] \<Rightarrow> Ok (None, scanner)
      | (levelKey, dbVal) # rest \<Rightarrow>
          rbind (retrieveAppKey levelKey) (\<lambda>dbKey.
          rbind (splitCompositeKey dbKey) (\<lambda>(_, key).
          rbind (DecodeValue dbVal) (\<lambda>(value, version).
          Ok (Some \<lparr>vkv_Namespace = ks_namespace scanner, vkv_Key = key, vkv_Value = Some value,
                    vkv_Version = version\<rparr>,
              scanner\<lparr>ks_dbItr := rest\<rparr>)))))"

text \<open>
  \<open>ApplyUpdates\<close> fills a LevelDB batch, keyed by the composite keys, adds the save point and writes
  it at once. A nil value is a deletion.
\<close>

definition enc_update :: "VersionedValue \<Rightarrow> bytes option" where
  "enc_update vv =
     (case vv_Value vv of None \<Rightarrow> None | Some v \<Rightarrow> Some (EncodeValue (Some v) (vv_Version vv)))"

definition level_updates :: "UpdateBatch \<Rightarrow> Height \<Rightarrow> (bytes, bytes option) gomap" where
  "level_updates batch height =
     (let kvs = fold (\<lambda>ns kvs.
            fold (\<lambda>(k, vv). AList.update (constructCompositeKey ns k) (enc_update vv))
              (GetUpdates batch ns) kvs)
          (GetUpdatedNamespaces batch) []
      in AList.update savePointKey (Some (ToBytes height)) kvs)"

definition vdb_ApplyUpdates ::
    "'d leveldb \<Rightarrow> string \<Rightarrow> 'd \<Rightarrow> UpdateBatch \<Rightarrow> Height \<Rightarrow> (string, 'd) res" where
  "vdb_ApplyUpdates L dbName d batch height =
     DBHandle_WriteBatch L dbName d (level_updates batch height)"

definition vdb_GetLatestSavePoint :: "'d leveldb \<Rightarrow> string \<Rightarrow> 'd \<Rightarrow> (string, Height option) res" where
  "vdb_GetLatestSavePoint L dbName d =
     rbind (DBHandle_Get L dbName d savePointKey) (\<lambda>versionBytes.
     case versionBytes of
       None \<Rightarrow> Ok None
     | Some b \<Rightarrow> rbind (NewHeightFromBytes b) (\<lambda>(version, _). Ok (Some version)))"

section \<open>The batch as a map\<close>

text \<open>
  What clients use of a store keyed by namespace and key: reading after a write.
\<close>

locale versioned_store =
  fixes get :: "'s \<Rightarrow> string \<Rightarrow> string \<Rightarrow> 'v option"
    and put :: "string \<Rightarrow> string \<Rightarrow> 'v \<Rightarrow> 's \<Rightarrow> 's"
    and empty :: 's
  assumes get_empty: "get empty ns k = None"
    and get_put: "get (put ns k v s) ns' k' = (if ns' = ns \<and> k' = k then Some v else get s ns' k')"
begin

text \<open>After a sequence of writes the last write to a key is read.\<close>

lemma get_writes:
  "get (fold (\<lambda>((ns, k), v). put ns k v) ws s) ns k =
     (case map_of (rev ws) (ns, k) of None \<Rightarrow> get s ns k | Some v \<Rightarrow> Some v)"
proof (induction ws arbitrary: s)
  case (Cons w ws)
  obtain ns' k' v where w: "w = ((ns', k'), v)" by (metis surj_pair)
  show ?case
    unfolding w by (simp add: Cons.IH get_put map_add_def split: option.split)
qed simp

lemma get_writes_other:
  "(ns, k) \<notin> fst ` set ws \<Longrightarrow> get (fold (\<lambda>((ns, k), v). put ns k v) ws s) ns k = get s ns k"
  unfolding get_writes by (simp add: map_of_eq_None_iff [THEN iffD2] image_iff)

text \<open>Writes to distinct keys commute.\<close>

lemma get_writes_perm:
  assumes "distinct (map fst ws)" and "mset ws' = mset ws"
  shows "get (fold (\<lambda>((ns, k), v). put ns k v) ws' s) = get (fold (\<lambda>((ns, k), v). put ns k v) ws s)"
proof -
  have "map_of (rev ws') = map_of (rev ws)"
    using assms by (intro map_of_perm) (simp_all add: rev_map [symmetric])
  then show ?thesis by (intro ext) (simp add: get_writes)
qed

end

interpretation batch: versioned_store UpdateBatch_Get set_update NewUpdateBatch
  by unfold_locales
    (auto simp: UpdateBatch_Get_def NewUpdateBatch_def set_update_def getOrCreateNsUpdates_def
      split: option.split)

lemma wf_batch_New: "wf_batch NewUpdateBatch"
  by (simp add: wf_batch_def NewUpdateBatch_def)

lemma wf_batch_set_update: "wf_batch batch \<Longrightarrow> wf_batch (set_update ns key vv batch)"
proof -
  assume wf: "wf_batch batch"
  then have "distinct (map fst (getOrCreateNsUpdates batch ns))"
    by (auto simp: wf_batch_def getOrCreateNsUpdates_def split: option.split dest!: map_of_SomeD)
  moreover from wf have "distinct (map fst (set_update ns key vv batch))"
    by (simp add: wf_batch_def set_update_def distinct_update)
  moreover have "u = AList.update key vv (getOrCreateNsUpdates batch ns) \<or> (m, u) \<in> set batch"
    if "(m, u) \<in> set (set_update ns key vv batch)" for m u
    using that calculation(2) map_of_is_SomeI [OF calculation(2) that]
    by (auto simp: set_update_def dest: map_of_SomeD split: if_splits)
  ultimately show ?thesis
    using wf by (fastforce simp: wf_batch_def distinct_update)
qed

lemma UpdateBatch_Put_Ok:
  "UpdateBatch_Put ns key (Some v) ver batch = Ok (set_update ns key \<lparr>vv_Value = Some v, vv_Version = ver\<rparr> batch)"
  by (simp add: UpdateBatch_Put_def)

lemma UpdateBatch_Exists_iff: "UpdateBatch_Exists batch ns key \<longleftrightarrow> UpdateBatch_Get batch ns key \<noteq> None"
  by (simp add: UpdateBatch_Exists_def UpdateBatch_Get_def split: option.split)

section \<open>Iterators\<close>

text \<open>
  The contract of \<open>ResultsIterator\<close>: an iterator stands for a list of results that \<open>Next\<close> hands out
  one at a time, then nil.
\<close>

fun yields :: "('i \<Rightarrow> (string, 'a option \<times> 'i) res) \<Rightarrow> 'i \<Rightarrow> 'a list \<Rightarrow> bool" where
  "yields nxt it [] = (case nxt it of Ok (None, it') \<Rightarrow> True | _ \<Rightarrow> False)"
| "yields nxt it (x # xs) = (case nxt it of Ok (Some y, it') \<Rightarrow> y = x \<and> yields nxt it' xs | _ \<Rightarrow> False)"

locale results_iterator =
  fixes nxt :: "'i \<Rightarrow> (string, 'a option \<times> 'i) res"
    and contents :: "'i \<Rightarrow> 'a list"
    and ready :: "'i \<Rightarrow> bool"
  assumes nxt_Nil: "ready it \<Longrightarrow> contents it = [] \<Longrightarrow>
      \<exists>it'. nxt it = Ok (None, it') \<and> ready it' \<and> contents it' = []"
    and nxt_Cons: "ready it \<Longrightarrow> contents it = x # xs \<Longrightarrow>
      \<exists>it'. nxt it = Ok (Some x, it') \<and> ready it' \<and> contents it' = xs"
begin

lemma yields_contents: "ready it \<Longrightarrow> contents it = xs \<Longrightarrow> yields nxt it xs"
proof (induction xs arbitrary: it)
  case Nil
  then show ?case using nxt_Nil by fastforce
next
  case (Cons x xs)
  then obtain it' where "nxt it = Ok (Some x, it')" "ready it'" "contents it' = xs"
    using nxt_Cons by blast
  with Cons.IH show ?case by simp
qed

lemma nxt_step:
  assumes "ready it"
  obtains x it' where "nxt it = Ok (x, it')" "ready it'"
    "contents it = (case x of None \<Rightarrow> [] | Some y \<Rightarrow> y # contents it')"
proof (cases "contents it")
  case Nil
  with nxt_Nil [OF assms] that show thesis by fastforce
next
  case (Cons y ys)
  with nxt_Cons [OF assms] that show thesis by fastforce
qed

end

definition ns_ready :: "nsIterator \<Rightarrow> bool" where
  "ns_ready itr \<longleftrightarrow>
     ni_lastIndex itr \<le> length (ni_sortedKeys itr) \<and>
     set (ni_sortedKeys itr) \<subseteq> fst ` set (ni_nsUpdates itr)"

definition ns_entry :: "string \<Rightarrow> nsUpdates \<Rightarrow> string \<Rightarrow> VersionedKV" where
  "ns_entry ns u key =
     \<lparr>vkv_Namespace = ns, vkv_Key = key, vkv_Value = vv_Value (the (map_of u key)),
      vkv_Version = vv_Version (the (map_of u key))\<rparr>"

definition ns_contents :: "nsIterator \<Rightarrow> VersionedKV list" where
  "ns_contents itr =
     map (ns_entry (ni_ns itr) (ni_nsUpdates itr))
       (drop (ni_nextIndex itr) (take (ni_lastIndex itr) (ni_sortedKeys itr)))"

interpretation ns_iter: results_iterator nsIterator_Next ns_contents ns_ready
proof unfold_locales
  fix it :: nsIterator
  assume "ready": "ns_ready it" "ns_contents it = []"
  then have "ni_lastIndex it \<le> ni_nextIndex it" by (auto simp: ns_ready_def ns_contents_def)
  with "ready" show "\<exists>it'. nsIterator_Next it = Ok (None, it') \<and> ns_ready it' \<and> ns_contents it' = []"
    by (simp add: nsIterator_Next_def)
next
  fix it :: nsIterator and x xs
  assume *: "ns_ready it" "ns_contents it = x # xs"
  let ?n = "ni_nextIndex it" and ?ks = "take (ni_lastIndex it) (ni_sortedKeys it)"
  from *(2) have "drop ?n ?ks \<noteq> []" by (auto simp: ns_contents_def)
  then have n: "?n < ni_lastIndex it" "?n < length (ni_sortedKeys it)" by auto
  then have "drop ?n ?ks = ni_sortedKeys it ! ?n # drop (Suc ?n) ?ks"
    by (simp add: Cons_nth_drop_Suc [symmetric])
  moreover obtain vv where "map_of (ni_nsUpdates it) (ni_sortedKeys it ! ?n) = Some vv"
    using * n by (metis (no_types, lifting) map_of_eq_None_iff ns_ready_def nth_mem option.exhaust subsetD)
  ultimately show "\<exists>it'. nsIterator_Next it = Ok (Some x, it') \<and> ns_ready it' \<and> ns_contents it' = xs"
    using * n by (auto simp: nsIterator_Next_def index_def ns_contents_def ns_entry_def ns_ready_def)
qed

text \<open>The keys of a range scan: an empty end key is no upper bound.\<close>

definition in_range :: "string \<Rightarrow> string \<Rightarrow> string \<Rightarrow> bool" where
  "in_range startKey endKey k \<longleftrightarrow> startKey \<le> k \<and> (endKey = [] \<or> k < endKey)"

lemma takeWhile_less_sorted: "sorted ks \<Longrightarrow> takeWhile (\<lambda>k. k < e) ks = filter (\<lambda>k. k < e) ks"
  for ks :: "string list"
  by (induction ks) (auto simp: empty_filter_conv intro: order_trans dest: order.strict_trans1)

lemma slice_sorted:
  "sorted ks \<Longrightarrow>
     drop (SearchStrings ks s) (take (SearchStrings ks e) ks) = filter (\<lambda>k. s \<le> k \<and> k < e) ks"
proof (induction ks)
  case (Cons k ks)
  show ?case
  proof (cases "k < s")
    case True
    with Cons show ?thesis
      by (auto simp: SearchStrings_def empty_filter_conv)
  next
    case False
    with Cons.prems have "filter (\<lambda>x. s \<le> x \<and> x < e) (k # ks) = filter (\<lambda>x. x < e) (k # ks)"
      by (intro filter_cong) auto
    moreover have "take (SearchStrings (k # ks) e) (k # ks) = takeWhile (\<lambda>x. x < e) (k # ks)"
      unfolding SearchStrings_def by (metis takeWhile_eq_take)
    moreover have "SearchStrings (k # ks) s = 0" using False by (simp add: SearchStrings_def)
    ultimately show ?thesis using takeWhile_less_sorted [OF Cons.prems] by simp
  qed
qed (simp add: SearchStrings_def)

lemma slice_sorted_open:
  "sorted ks \<Longrightarrow> drop (SearchStrings ks s) ks = filter (\<lambda>k. s \<le> k) ks"
proof (induction ks)
  case (Cons k ks)
  then show ?case
    by (cases "k < s") (auto simp: SearchStrings_def intro!: filter_True [symmetric])
qed (simp add: SearchStrings_def)

lemma SearchStrings_Nil [simp]: "SearchStrings ks [] = 0"
  by (cases ks) (simp_all add: SearchStrings_def)

lemma SearchStrings_le: "SearchStrings ks x \<le> length ks"
  unfolding SearchStrings_def by (rule length_takeWhile_le)

lemma newNsIterator_contents:
  "ns_ready (newNsIterator ns startKey endKey batch) \<and>
   ns_contents (newNsIterator ns startKey endKey batch) =
     map (ns_entry ns (GetUpdates batch ns))
       (filter (in_range startKey endKey) (GetSortedKeys (GetUpdates batch ns)))"
proof (cases "map_of batch ns")
  case None
  then show ?thesis
    by (simp add: newNsIterator_def GetUpdates_def GetSortedKeys_def ns_ready_def ns_contents_def
        sort_Strings_def)
next
  case (Some u)
  let ?ks = "GetSortedKeys u"
  have "sorted ?ks" by (simp add: GetSortedKeys_def)
  then have "drop (SearchStrings ?ks startKey)
      (take (if endKey = [] then length ?ks else SearchStrings ?ks endKey) ?ks) =
      filter (in_range startKey endKey) ?ks"
    by (simp add: slice_sorted slice_sorted_open in_range_def [abs_def])
  moreover have "set ?ks = fst ` set u" by (simp add: GetSortedKeys_def)
  ultimately show ?thesis
    using Some SearchStrings_le [of ?ks endKey]
    by (cases "startKey = []"; cases "endKey = []")
      (simp_all add: newNsIterator_def GetUpdates_def ns_ready_def ns_contents_def Let_def)
qed

section \<open>LevelDB keys\<close>

definition zero_free :: "string \<Rightarrow> bool" where
  "zero_free s \<longleftrightarrow> CHR 0x00 \<notin> set s"

lemma split_zero_append: "zero_free a \<Longrightarrow> split_zero (a @ CHR 0x00 # b) = Ok (a, b)"
proof -
  assume "zero_free a"
  then have "takeWhile (\<lambda>c. c \<noteq> CHR 0x00) (a @ CHR 0x00 # b) = a"
    by (subst takeWhile_append2) (auto simp: zero_free_def)
  then show ?thesis by (simp add: split_zero_def)
qed

lemma composite_inj:
  assumes "zero_free ns" and "zero_free ns'"
  shows "constructCompositeKey ns k = constructCompositeKey ns' k' \<longleftrightarrow> ns = ns' \<and> k = k'"
  using split_zero_append [OF assms(1), of k] split_zero_append [OF assms(2), of k']
  by (metis append_Cons append_Nil constructCompositeKey_def prod.inject res.inject(1))

lemma constructLevelKey_inj [simp]: "constructLevelKey n k = constructLevelKey n k' \<longleftrightarrow> k = k'"
  by (simp add: constructLevelKey_def)

lemma retrieve_level: "zero_free n \<Longrightarrow> retrieveAppKey (constructLevelKey n k) = Ok k"
  by (simp add: retrieveAppKey_def constructLevelKey_def split_zero_append)

lemma append_less_append [simp]: "(u @ a :: string) < u @ b \<longleftrightarrow> a < b"
  by (induction u) simp_all

lemma append_le_append [simp]: "(u @ a :: string) \<le> u @ b \<longleftrightarrow> a \<le> b"
  by (induction u) simp_all

lemma between_prefix:
  "(u @ a :: string) \<le> x \<Longrightarrow> x < u @ b \<Longrightarrow> \<exists>y. x = u @ y"
proof (induction u arbitrary: x)
  case (Cons c u)
  then obtain x' where "x = c # x'" by (cases x) auto
  with Cons show ?case by auto
qed simp

lemma composite_not_savepoint:
  "ns \<noteq> [] \<or> key \<noteq> [] \<Longrightarrow> zero_free ns \<Longrightarrow> constructCompositeKey ns key \<noteq> savePointKey"
  by (cases ns) (auto simp: constructCompositeKey_def savePointKey_def zero_free_def)

section \<open>Applying a batch\<close>

lemma ldb_write_read:
  assumes "ldb_laws L" and "distinct (map fst kvs)"
  obtains d' where "DBHandle_WriteBatch L n d kvs = Ok d'"
    and "\<And>q. DBHandle_Get L n d' q =
      (case map_of kvs q of None \<Rightarrow> DBHandle_Get L n d q | Some v \<Rightarrow> Ok v)"
proof -
  let ?ops = "map (\<lambda>(k, v). (constructLevelKey n k, v)) kvs"
  have "map fst ?ops = map (constructLevelKey n) (map fst kvs)" by (induction kvs) auto
  with assms(2) have "distinct (map fst ?ops)"
    by (simp add: distinct_map inj_on_def)
  with assms(1) obtain d' where d': "ldb_Write L d ?ops = Ok d'"
    "\<And>k. ldb_Get L d' k = (case map_of ?ops k of None \<Rightarrow> ldb_Get L d k
       | Some None \<Rightarrow> Err ErrNotFound | Some (Some v) \<Rightarrow> Ok v)"
    unfolding ldb_laws_def by blast
  have "map_of ?ops (constructLevelKey n q) = map_of kvs q" for q
    by (induction kvs) auto
  with d'(2) have "DBHandle_Get L n d' q =
      (case map_of kvs q of None \<Rightarrow> DBHandle_Get L n d q | Some v \<Rightarrow> Ok v)" for q
    by (simp add: DBHandle_Get_def DB_Get_def split: option.split)
  with d'(1) that show thesis by (simp add: DBHandle_WriteBatch_def)
qed

definition flat_updates :: "UpdateBatch \<Rightarrow> (bytes \<times> bytes option) list" where
  "flat_updates batch =
     concat (map (\<lambda>(ns, u). map (\<lambda>(k, vv). (constructCompositeKey ns k, enc_update vv)) u) batch)"

lemma fold_fold_concat: "fold (\<lambda>x. fold f (g x)) xs = fold f (concat (map g xs))"
  by (induction xs) (auto simp: fun_eq_iff)

lemma level_updates_flat:
  assumes "wf_batch batch"
  shows "level_updates batch h =
    AList.update savePointKey (Some (ToBytes h)) (go_map_of (flat_updates batch))"
proof -
  have "GetUpdates batch ns = u" if "(ns, u) \<in> set batch" for ns u
    using assms that by (simp add: wf_batch_def GetUpdates_def map_of_is_SomeI)
  then have flat: "flat_updates batch = concat (map (\<lambda>ns. map (\<lambda>(k, vv).
      (constructCompositeKey ns k, enc_update vv)) (GetUpdates batch ns)) (map fst batch))"
    by (auto simp: flat_updates_def comp_def intro!: arg_cong [of _ _ concat])
  have "fold (\<lambda>(k, vv). AList.update (constructCompositeKey ns k) (enc_update vv)) u =
      fold (\<lambda>(k, v). AList.update k v) (map (\<lambda>(k, vv). (constructCompositeKey ns k, enc_update vv)) u)"
    for ns u
    by (simp add: fold_map comp_def split_def)
  then show ?thesis
    unfolding level_updates_def go_map_of_def flat GetUpdatedNamespaces_def Let_def
    by (simp only: fold_fold_concat)
qed

definition zero_free_batch :: "UpdateBatch \<Rightarrow> bool" where
  "zero_free_batch batch \<longleftrightarrow> list_all zero_free (map fst batch)"

lemma flat_updates_mem:
  assumes "wf_batch batch" and "zero_free_batch batch" and "zero_free ns"
  shows "(constructCompositeKey ns k, v) \<in> set (flat_updates batch) \<longleftrightarrow>
    (\<exists>vv. UpdateBatch_Get batch ns k = Some vv \<and> v = enc_update vv)"
proof -
  have "(constructCompositeKey ns k, v) \<in> set (flat_updates batch) \<longleftrightarrow>
      (\<exists>u vv. (ns, u) \<in> set batch \<and> (k, vv) \<in> set u \<and> v = enc_update vv)"
    using assms(2,3) composite_inj by (fastforce simp: flat_updates_def zero_free_batch_def list_all_iff)
  moreover have "(ns, u) \<in> set batch \<longleftrightarrow> map_of batch ns = Some u" for u
    using assms(1) by (simp add: wf_batch_def)
  moreover have "(k, vv) \<in> set u \<longleftrightarrow> map_of u k = Some vv" if "(ns, u) \<in> set batch" for u vv
    using assms(1) that by (auto simp: wf_batch_def)
  ultimately show ?thesis
    by (auto simp: UpdateBatch_Get_def split: option.split)
qed

lemma distinct_flat_updates:
  assumes "wf_batch batch" and "zero_free_batch batch"
  shows "distinct (map fst (flat_updates batch))"
  using assms
proof (induction batch)
  case (Cons b batch)
  obtain ns u where b: "b = (ns, u)" by (cases b)
  have keys: "fst ` set (flat_updates bs) = (\<Union>(m, w) \<in> set bs. constructCompositeKey m ` fst ` set w)" for bs
    by (force simp: flat_updates_def)
  have "distinct (map fst u)" "ns \<notin> fst ` set batch" "zero_free ns" "zero_free_batch batch"
    "wf_batch batch" "\<And>m w. (m, w) \<in> set batch \<Longrightarrow> zero_free m"
    using Cons.prems by (auto simp: b wf_batch_def zero_free_batch_def list_all_iff)
  note facts = this
  have "constructCompositeKey ns k \<notin> fst ` set (flat_updates batch)" for k
  proof
    assume "constructCompositeKey ns k \<in> fst ` set (flat_updates batch)"
    then obtain m w k' where "(m, w) \<in> set batch" "constructCompositeKey ns k = constructCompositeKey m k'"
      unfolding keys by auto
    with facts show False using composite_inj [of ns m k k'] by (metis fst_conv image_eqI)
  qed
  moreover have "distinct (map (constructCompositeKey ns) (map fst u))"
    using facts(1,3) by (simp add: distinct_map inj_on_def composite_inj)
  moreover have "distinct (map fst (flat_updates batch))"
    using Cons.IH facts by simp
  ultimately show ?case
    by (auto simp: b flat_updates_def comp_def split_def)
qed (simp add: flat_updates_def)

lemma level_updates_lookup:
  assumes "wf_batch batch" and "zero_free_batch batch" and "zero_free ns" and "ns \<noteq> [] \<or> key \<noteq> []"
  shows "map_of (level_updates batch h) (constructCompositeKey ns key) =
    map_option enc_update (UpdateBatch_Get batch ns key)"
proof -
  let ?q = "constructCompositeKey ns key"
  have dist: "distinct (map fst (flat_updates batch))" by (rule distinct_flat_updates [OF assms(1,2)])
  then have "map_of (go_map_of (flat_updates batch)) = map_of (flat_updates batch)"
    using map_of_perm [OF dist, of "rev (flat_updates batch)"] by (simp add: map_of_go_map_of)
  then have "map_of (level_updates batch h) ?q = map_of (flat_updates batch) ?q"
    using composite_not_savepoint assms(3,4) by (simp add: level_updates_flat [OF assms(1)])
  moreover have "map_of (flat_updates batch) ?q = Some v \<longleftrightarrow>
      (\<exists>vv. UpdateBatch_Get batch ns key = Some vv \<and> v = enc_update vv)" for v
    using dist flat_updates_mem [OF assms(1-3), of key v] by simp
  ultimately show ?thesis
    by (cases "UpdateBatch_Get batch ns key"; cases "map_of (flat_updates batch) ?q") auto
qed

lemma DecodeValue_EncodeValue: "DecodeValue (EncodeValue (Some v) h) = Ok (v, h)"
  by (simp add: DecodeValue_def EncodeValue_def NewHeightFromBytes_ToBytes)

lemma distinct_level_updates: "wf_batch batch \<Longrightarrow> distinct (map fst (level_updates batch h))"
  by (simp add: level_updates_flat distinct_update distinct_go_map_of)

text \<open>What a committed value reads as: a nil value is a deletion.\<close>

definition committed :: "VersionedValue \<Rightarrow> VersionedValue option" where
  "committed vv = (if vv_Value vv = None then None else Some vv)"

lemma apply_updates_read:
  assumes "ldb_laws L" and "wf_batch batch" and "zero_free_batch batch"
  obtains d' where "vdb_ApplyUpdates L n d batch h = Ok d'"
    and "vdb_GetLatestSavePoint L n d' = Ok (Some h)"
    and "\<And>ns key. zero_free ns \<Longrightarrow> ns \<noteq> [] \<or> key \<noteq> [] \<Longrightarrow>
      vdb_GetState L n d' ns key =
        (case UpdateBatch_Get batch ns key of
           None \<Rightarrow> vdb_GetState L n d ns key
         | Some vv \<Rightarrow> Ok (committed vv))"
proof -
  obtain d' where d': "DBHandle_WriteBatch L n d (level_updates batch h) = Ok d'"
    "\<And>q. DBHandle_Get L n d' q = (case map_of (level_updates batch h) q of
       None \<Rightarrow> DBHandle_Get L n d q | Some v \<Rightarrow> Ok v)"
    using ldb_write_read [OF assms(1) distinct_level_updates [OF assms(2)]] by blast
  have "DBHandle_Get L n d' savePointKey = Ok (Some (ToBytes h))"
    by (simp add: d'(2) level_updates_flat [OF assms(2)])
  then have "vdb_GetLatestSavePoint L n d' = Ok (Some h)"
    using NewHeightFromBytes_ToBytes [of h "[]"] by (simp add: vdb_GetLatestSavePoint_def)
  moreover have "vdb_GetState L n d' ns key =
        (case UpdateBatch_Get batch ns key of
           None \<Rightarrow> vdb_GetState L n d ns key
         | Some vv \<Rightarrow> Ok (committed vv))" if "zero_free ns" "ns \<noteq> [] \<or> key \<noteq> []" for ns key
    using level_updates_lookup [OF assms(2,3) that, of h]
    by (auto simp: vdb_GetState_def d'(2) enc_update_def committed_def DecodeValue_EncodeValue
        split: option.split)
  ultimately show thesis using that d'(1) by (simp add: vdb_ApplyUpdates_def)
qed

section \<open>Range scans\<close>

text \<open>The database holds only encoded values under composite keys.\<close>

definition wf_level :: "'d leveldb \<Rightarrow> string \<Rightarrow> 'd \<Rightarrow> bool" where
  "wf_level L n d \<longleftrightarrow>
     (\<forall>ns key v. zero_free ns \<longrightarrow> ns \<noteq> [] \<longrightarrow>
        DBHandle_Get L n d (constructCompositeKey ns key) = Ok (Some v) \<longrightarrow>
        (\<exists>val h. v = EncodeValue (Some val) h))"

lemma wf_level_apply:
  assumes "ldb_laws L" and "wf_batch batch" and "zero_free_batch batch" and "wf_level L n d"
    and "vdb_ApplyUpdates L n d batch h = Ok d'"
  shows "wf_level L n d'"
proof -
  obtain d'' where d'': "DBHandle_WriteBatch L n d (level_updates batch h) = Ok d''"
    "\<And>q. DBHandle_Get L n d'' q = (case map_of (level_updates batch h) q of
       None \<Rightarrow> DBHandle_Get L n d q | Some v \<Rightarrow> Ok v)"
    using ldb_write_read [OF assms(1) distinct_level_updates [OF assms(2)]] by blast
  with assms(5) have "d'' = d'" by (simp add: vdb_ApplyUpdates_def)
  with d''(2) level_updates_lookup [OF assms(2,3), of _ _ h] assms(4) show ?thesis
    by (force simp: wf_level_def enc_update_def split: option.splits)
qed

definition scan_contents :: "kvScanner \<Rightarrow> VersionedKV list" where
  "scan_contents scanner =
     map (\<lambda>(k, v). let (_, key) = the_ok (splitCompositeKey (the_ok (retrieveAppKey k)));
                       (value, version) = the_ok (DecodeValue v)
                   in \<lparr>vkv_Namespace = ks_namespace scanner, vkv_Key = key, vkv_Value = Some value,
                       vkv_Version = version\<rparr>)
       (ks_dbItr scanner)"

definition scan_ready :: "kvScanner \<Rightarrow> bool" where
  "scan_ready scanner \<longleftrightarrow>
     (\<forall>(k, v) \<in> set (ks_dbItr scanner).
        (\<exists>q p. retrieveAppKey k = Ok q \<and> splitCompositeKey q = Ok p) \<and> (\<exists>p. DecodeValue v = Ok p))"

interpretation scan_iter: results_iterator kvScanner_Next scan_contents scan_ready
proof unfold_locales
  fix it :: kvScanner
  assume "scan_ready it" "scan_contents it = []"
  then show "\<exists>it'. kvScanner_Next it = Ok (None, it') \<and> scan_ready it' \<and> scan_contents it' = []"
    by (simp add: kvScanner_Next_def scan_contents_def)
next
  fix it :: kvScanner and x xs
  assume *: "scan_ready it" "scan_contents it = x # xs"
  then obtain k v rest where "ks_dbItr it = (k, v) # rest"
    by (cases "ks_dbItr it") (auto simp: scan_contents_def)
  with * show "\<exists>it'. kvScanner_Next it = Ok (Some x, it') \<and> scan_ready it' \<and> scan_contents it' = xs"
    by (auto simp: kvScanner_Next_def scan_contents_def scan_ready_def Let_def split_def)
qed

lemma char_below_one: "c < CHR 0x01 \<longleftrightarrow> c = CHR 0x00"
proof -
  have "c < CHR 0x01 \<longleftrightarrow> of_char c < (of_char CHR 0x01 :: nat)" by (simp only: less_char_def)
  also have "\<dots> \<longleftrightarrow> of_char c = (of_char CHR 0x00 :: nat)" by simp
  also have "\<dots> \<longleftrightarrow> c = CHR 0x00" by (rule of_char_eq_iff)
  finally show ?thesis .
qed

text \<open>The level keys between the bounds of a scan are those of the namespace with a key in range.\<close>

lemma scan_bounds_open:
  fixes p :: string
  shows "p @ CHR 0x00 # s \<le> x \<and> x < p @ [CHR 0x01] \<longleftrightarrow> (\<exists>y. x = p @ CHR 0x00 # y \<and> s \<le> y)"
proof -
  have "p @ CHR 0x00 # s \<le> x \<and> x < p @ [CHR 0x01] \<longleftrightarrow>
      (\<exists>z. x = p @ z \<and> CHR 0x00 # s \<le> z \<and> z < [CHR 0x01])"
    using between_prefix [of p "CHR 0x00 # s" x "[CHR 0x01]"] by auto
  moreover have "CHR 0x00 # s \<le> z \<and> z < [CHR 0x01] \<longleftrightarrow> (\<exists>y. z = CHR 0x00 # y \<and> s \<le> y)" for z
    by (cases z) (auto simp: char_below_one)
  ultimately show ?thesis by auto
qed

lemma scan_bounds_closed:
  fixes p :: string
  shows "p @ CHR 0x00 # s \<le> x \<and> x < p @ CHR 0x00 # e \<longleftrightarrow>
    (\<exists>y. x = p @ CHR 0x00 # y \<and> s \<le> y \<and> y < e)"
proof -
  have "p @ CHR 0x00 # s \<le> x \<and> x < p @ CHR 0x00 # e \<longleftrightarrow>
      (\<exists>z. x = p @ z \<and> CHR 0x00 # s \<le> z \<and> z < CHR 0x00 # e)"
    using between_prefix [of p "CHR 0x00 # s" x "CHR 0x00 # e"] by auto
  moreover have "CHR 0x00 # s \<le> z \<and> z < CHR 0x00 # e \<longleftrightarrow> (\<exists>y. z = CHR 0x00 # y \<and> s \<le> y \<and> y < e)" for z
    by (cases z) auto
  ultimately show ?thesis by auto
qed

lemma scan_bounds:
  "p @ CHR 0x00 # s \<le> x \<and> x < (if e = [] then p @ [CHR 0x01] else p @ CHR 0x00 # e) \<longleftrightarrow>
     (\<exists>y. x = p @ CHR 0x00 # y \<and> in_range s e y)"
  by (cases "e = []") (simp_all only: scan_bounds_open scan_bounds_closed in_range_def if_True if_False simp_thms)

lemma DBHandle_Get_Some_iff: "DBHandle_Get L n d q = Ok (Some v) \<longleftrightarrow> ldb_Get L d (constructLevelKey n q) = Ok v"
  by (cases "ldb_Get L d (constructLevelKey n q)")
    (auto simp: DBHandle_Get_def DB_Get_def split: ldb_error.splits)

lemma scan_entries:
  assumes "ldb_laws L"
  obtains ys where
    "ks_dbItr (vdb_GetStateRangeScanIterator L n d ns s e) =
       map (\<lambda>(y, v). (constructLevelKey n (constructCompositeKey ns y), v)) ys"
    and "sorted (map fst ys)" and "distinct (map fst ys)"
    and "set ys = {(y, v). in_range s e y \<and> DBHandle_Get L n d (constructCompositeKey ns y) = Ok (Some v)}"
proof -
  define p where "p = n @ CHR 0x00 # ns"
  define it where "it = ks_dbItr (vdb_GetStateRangeScanIterator L n d ns s e)"
  define hi where "hi = (if e = [] then p @ [CHR 0x01] else p @ CHR 0x00 # e)"
  define ys where "ys = map (\<lambda>(k, v). (drop (length p + 1) k, v)) it"
  have it: "it = ldb_NewIterator L d (p @ CHR 0x00 # s) hi"
    by (simp add: vdb_GetStateRangeScanIterator_def DBHandle_GetIterator_def constructLevelKey_def
        constructCompositeKey_def Let_def butlast_append p_def hi_def it_def)
  have lev: "constructLevelKey n (constructCompositeKey ns y) = p @ CHR 0x00 # y" for y
    by (simp add: constructLevelKey_def constructCompositeKey_def p_def)
  from assms have laws: "sorted (map fst it)" "distinct (map fst it)"
    "set it = {(k, v). p @ CHR 0x00 # s \<le> k \<and> k < hi \<and> ldb_Get L d k = Ok v}"
    by (simp_all add: it ldb_laws_def)
  have mem: "(k, v) \<in> set it \<longleftrightarrow> (\<exists>y. k = p @ CHR 0x00 # y \<and> in_range s e y) \<and> ldb_Get L d k = Ok v" for k v
    unfolding laws(3) using scan_bounds [of p s k e, folded hi_def] by simp blast
  have eq: "it = map (\<lambda>(y, v). (p @ CHR 0x00 # y, v)) ys"
    unfolding ys_def map_map
    by (rule map_idI [symmetric]) (auto simp: mem)
  have memy: "(y, v) \<in> set ys \<longleftrightarrow> in_range s e y \<and> ldb_Get L d (p @ CHR 0x00 # y) = Ok v" for y v
  proof -
    have "(y, v) \<in> set ys \<longleftrightarrow> (p @ CHR 0x00 # y, v) \<in> set it"
      unfolding eq by auto
    then show ?thesis by (simp add: mem)
  qed
  have "set ys = {(y, v). in_range s e y \<and> DBHandle_Get L n d (constructCompositeKey ns y) = Ok (Some v)}"
    by (rule set_eqI) (simp only: split_paired_all mem_Collect_eq case_prod_conv memy DBHandle_Get_Some_iff lev)
  moreover have "map fst it = map (\<lambda>y. p @ CHR 0x00 # y) (map fst ys)"
    unfolding eq by (simp add: comp_def split_def)
  moreover have "sorted (map (\<lambda>y. p @ CHR 0x00 # y) zs) \<longleftrightarrow> sorted zs"
    "distinct (map (\<lambda>y. p @ CHR 0x00 # y) zs) \<longleftrightarrow> distinct zs" for zs
    by (induction zs) auto
  ultimately show thesis
    using laws(1,2) that [of ys] eq by (simp only: lev it_def [symmetric])
qed

lemma range_scan_contents:
  assumes "ldb_laws L" and "zero_free n" and "zero_free ns" and "ns \<noteq> []" and "wf_level L n d"
  shows "scan_ready (vdb_GetStateRangeScanIterator L n d ns s e) \<and>
    sorted_wrt (<) (map vkv_Key (scan_contents (vdb_GetStateRangeScanIterator L n d ns s e))) \<and>
    (\<forall>kv. kv \<in> set (scan_contents (vdb_GetStateRangeScanIterator L n d ns s e)) \<longleftrightarrow>
       vkv_Namespace kv = ns \<and> in_range s e (vkv_Key kv) \<and> vkv_Value kv \<noteq> None \<and>
       vdb_GetState L n d ns (vkv_Key kv) =
         Ok (Some \<lparr>vv_Value = vkv_Value kv, vv_Version = vkv_Version kv\<rparr>))"
proof -
  let ?sc = "vdb_GetStateRangeScanIterator L n d ns s e"
  obtain ys where ys: "ks_dbItr ?sc = map (\<lambda>(y, v). (constructLevelKey n (constructCompositeKey ns y), v)) ys"
    "sorted (map fst ys)" "distinct (map fst ys)"
    "set ys = {(y, v). in_range s e y \<and> DBHandle_Get L n d (constructCompositeKey ns y) = Ok (Some v)}"
    by (rule scan_entries [OF assms(1), of n d ns s e])
  have dec: "\<exists>val h. v = EncodeValue (Some val) h" if "(y, v) \<in> set ys" for y v
    using that ys(4) assms(3-5) by (auto simp: wf_level_def)
  have keys: "retrieveAppKey (constructLevelKey n q) = Ok q" for q
    by (rule retrieve_level [OF assms(2)])
  have comp: "splitCompositeKey (constructCompositeKey ns y) = Ok (ns, y)" for y
    using split_zero_append [OF assms(3)] by (simp add: splitCompositeKey_def constructCompositeKey_def)
  have name: "ks_namespace ?sc = ns" by (simp add: vdb_GetStateRangeScanIterator_def Let_def)
  have rdy: "scan_ready ?sc"
    unfolding scan_ready_def ys(1)
  proof (clarsimp simp: keys comp)
    fix y v
    assume "(y, v) \<in> set ys"
    then obtain val h where "v = EncodeValue (Some val) h" using dec by blast
    then show "\<exists>a b. DecodeValue v = Ok (a, b)" by (simp add: DecodeValue_EncodeValue)
  qed
  have contents: "scan_contents ?sc = map (\<lambda>(y, v). \<lparr>vkv_Namespace = ns, vkv_Key = y,
      vkv_Value = Some (fst (the_ok (DecodeValue v))), vkv_Version = snd (the_ok (DecodeValue v))\<rparr>) ys"
    by (simp add: scan_contents_def ys(1) name keys comp comp_def split_def Let_def)
  have "map vkv_Key (scan_contents ?sc) = map fst ys"
    by (simp add: contents comp_def split_def)
  then have "sorted_wrt (<) (map vkv_Key (scan_contents ?sc))"
    using ys(2,3) by (simp only: strict_sorted_iff)
  moreover have "kv \<in> set (scan_contents ?sc) \<longleftrightarrow>
       vkv_Namespace kv = ns \<and> in_range s e (vkv_Key kv) \<and> vkv_Value kv \<noteq> None \<and>
       vdb_GetState L n d ns (vkv_Key kv) =
         Ok (Some \<lparr>vv_Value = vkv_Value kv, vv_Version = vkv_Version kv\<rparr>)" (is "?l \<longleftrightarrow> ?r") for kv
  proof
    assume ?l
    then obtain y v where yv: "(y, v) \<in> set ys" "kv = \<lparr>vkv_Namespace = ns, vkv_Key = y,
      vkv_Value = Some (fst (the_ok (DecodeValue v))), vkv_Version = snd (the_ok (DecodeValue v))\<rparr>"
      unfolding contents by auto
    with dec obtain val h where "v = EncodeValue (Some val) h" by blast
    with yv ys(4) show ?r by (auto simp: vdb_GetState_def DecodeValue_EncodeValue)
  next
    assume r: ?r
    then obtain v where v: "DBHandle_Get L n d (constructCompositeKey ns (vkv_Key kv)) = Ok (Some v)"
      by (auto simp: vdb_GetState_def go_res split: option.splits)
    with r ys(4) have mem: "(vkv_Key kv, v) \<in> set ys" by simp
    with dec obtain val h where "v = EncodeValue (Some val) h" by blast
    with r v have "kv = \<lparr>vkv_Namespace = ns, vkv_Key = vkv_Key kv,
      vkv_Value = Some (fst (the_ok (DecodeValue v))), vkv_Version = snd (the_ok (DecodeValue v))\<rparr>"
      by (cases kv) (auto simp: vdb_GetState_def DecodeValue_EncodeValue)
    with mem show ?l unfolding contents by force
  qed
  ultimately show ?thesis using rdy by blast
qed

section \<open>A store in memory\<close>

text \<open>An association list with the operations of the library: it satisfies \<open>ldb_laws\<close>.\<close>

definition mem_op :: "bytes \<times> bytes option \<Rightarrow> (bytes, bytes) gomap \<Rightarrow> (bytes, bytes) gomap" where
  "mem_op op d =
     (case snd op of None \<Rightarrow> AList.delete (fst op) d | Some x \<Rightarrow> AList.update (fst op) x d)"

definition mem_leveldb :: "(bytes, bytes) gomap leveldb" where
  "mem_leveldb =
     \<lparr>ldb_Get = (\<lambda>d k. case map_of d k of None \<Rightarrow> Err ErrNotFound | Some v \<Rightarrow> Ok v),
      ldb_Write = (\<lambda>d ops. Ok (fold mem_op ops d)),
      ldb_NewIterator = (\<lambda>d s e. map (\<lambda>k. (k, the (map_of d k)))
        (filter (\<lambda>k. s \<le> k \<and> k < e) (sort (remdups (map fst d)))))\<rparr>"

lemma map_of_mem_op: "map_of (mem_op op d) k = (if k = fst op then snd op else map_of d k)"
  by (cases "snd op") (simp_all add: mem_op_def delete_conv)

lemma mem_write:
  "distinct (map fst ops) \<Longrightarrow>
     map_of (fold mem_op ops d) k = (case map_of ops k of None \<Rightarrow> map_of d k | Some v \<Rightarrow> v)"
proof (induction ops arbitrary: d)
  case (Cons op ops)
  obtain q v where op: "op = (q, v)" by (cases op)
  have "map_of ops q = None" using Cons.prems by (simp add: op map_of_eq_None_iff)
  with Cons show ?case
    by (cases "k = q") (simp_all add: op map_of_mem_op split: option.split)
qed simp

lemma mem_range:
  fixes d :: "(bytes, bytes) gomap" and s e :: bytes
  defines "xs \<equiv> map (\<lambda>k. (k, the (map_of d k))) (filter (\<lambda>k. s \<le> k \<and> k < e) (sort (remdups (map fst d))))"
  shows "sorted (map fst xs)" "distinct (map fst xs)"
    "set xs = {(k, v). s \<le> k \<and> k < e \<and> map_of d k = Some v}"
proof -
  have keys: "map fst xs = filter (\<lambda>k. s \<le> k \<and> k < e) (sort (remdups (map fst d)))"
    by (simp add: xs_def comp_def)
  show "sorted (map fst xs)" unfolding keys by (rule sorted_wrt_filter) simp
  show "distinct (map fst xs)" unfolding keys by simp
  have dom: "k \<in> set (map fst d) \<longleftrightarrow> map_of d k \<noteq> None" for k by (simp add: map_of_eq_None_iff)
  have "(k, v) \<in> set xs \<longleftrightarrow> s \<le> k \<and> k < e \<and> map_of d k = Some v" for k v
  proof -
    have "(k, v) \<in> set xs \<longleftrightarrow> (s \<le> k \<and> k < e \<and> k \<in> set (map fst d)) \<and> v = the (map_of d k)"
      unfolding xs_def by auto
    then show ?thesis unfolding dom by auto
  qed
  then show "set xs = {(k, v). s \<le> k \<and> k < e \<and> map_of d k = Some v}" by auto
qed

lemma mem_leveldb_laws: "ldb_laws mem_leveldb"
proof -
  have get: "ldb_Get mem_leveldb d k = (case map_of d k of None \<Rightarrow> Err ErrNotFound | Some v \<Rightarrow> Ok v)" for d k
    by (simp add: mem_leveldb_def)
  have get_Ok: "ldb_Get mem_leveldb d k = Ok v \<longleftrightarrow> map_of d k = Some v" for d k v
    by (simp add: get split: option.split)
  have wr: "\<forall>d ops. distinct (map fst ops) \<longrightarrow> (\<exists>d'. ldb_Write mem_leveldb d ops = Ok d' \<and>
      (\<forall>k. ldb_Get mem_leveldb d' k = (case map_of ops k of None \<Rightarrow> ldb_Get mem_leveldb d k
         | Some None \<Rightarrow> Err ErrNotFound | Some (Some v) \<Rightarrow> Ok v)))"
    unfolding get by (simp add: mem_leveldb_def mem_write split: option.split)
  have total: "\<forall>d k. ldb_Get mem_leveldb d k = Err ErrNotFound \<or> (\<exists>v. ldb_Get mem_leveldb d k = Ok v)"
    by (simp add: get split: option.split)
  have it: "ldb_NewIterator mem_leveldb d s e = map (\<lambda>k. (k, the (map_of d k)))
      (filter (\<lambda>k. s \<le> k \<and> k < e) (sort (remdups (map fst d))))" for d s e
    by (simp add: mem_leveldb_def)
  have "\<forall>d s e. sorted (map fst (ldb_NewIterator mem_leveldb d s e)) \<and>
      distinct (map fst (ldb_NewIterator mem_leveldb d s e)) \<and>
      set (ldb_NewIterator mem_leveldb d s e) = {(k, v). s \<le> k \<and> k < e \<and> ldb_Get mem_leveldb d k = Ok v}"
    unfolding it get_Ok by (intro allI conjI mem_range)
  with wr total show ?thesis unfolding ldb_laws_def by (intro conjI)
qed

section \<open>Properties\<close>

text \<open>The iterator over an update batch hands out exactly the updates of the namespace whose key
  is at least the start key and, unless the end key is empty, below the end key, each once, in
  ascending key order, deletions included; then it returns nil.\<close>

theorem batch_iterator_exact:
  "yields nsIterator_Next (GetRangeScanIterator batch ns startKey endKey)
     (map (ns_entry ns (GetUpdates batch ns))
       (filter (in_range startKey endKey) (GetSortedKeys (GetUpdates batch ns))))"
  using newNsIterator_contents [of ns startKey endKey batch]
  by (simp add: GetRangeScanIterator_def ns_iter.yields_contents)

text \<open>C16: Applying a batch to the LevelDB state database succeeds on a lawful store, moves the save
  point to the given height, and afterwards every key reads as the batch says (a nil value reads as
  absent) and as before when the batch does not mention it.\<close>

theorem apply_updates_refines_map:
  assumes "ldb_laws L" and "wf_batch batch" and "zero_free_batch batch"
  shows "\<exists>d'. vdb_ApplyUpdates L n d batch h = Ok d' \<and>
    vdb_GetLatestSavePoint L n d' = Ok (Some h) \<and>
    (\<forall>ns key. zero_free ns \<longrightarrow> ns \<noteq> [] \<longrightarrow>
      vdb_GetState L n d' ns key =
        (case UpdateBatch_Get batch ns key of
           None \<Rightarrow> vdb_GetState L n d ns key
         | Some vv \<Rightarrow> Ok (committed vv)))"
  by (rule apply_updates_read [OF assms, of n d h]) blast

definition sample_batch :: UpdateBatch where
  "sample_batch = set_update ''smallbank'' ''account:x'' \<lparr>vv_Value = Some ''5'', vv_Version = Height 3 1\<rparr>
     (UpdateBatch_Delete ''ycsb'' ''k'' (Height 3 0) NewUpdateBatch)"

lemma sample_batch_wf: "wf_batch sample_batch" "zero_free_batch sample_batch"
  by (simp_all add: sample_batch_def UpdateBatch_Delete_def wf_batch_set_update wf_batch_New)
    (simp add: zero_free_batch_def set_update_def NewUpdateBatch_def zero_free_def)

lemma sample_applied:
  obtains d' where "vdb_ApplyUpdates mem_leveldb ''ch'' [] sample_batch (Height 3 1) = Ok d'"
    and "vdb_GetState mem_leveldb ''ch'' d' ''smallbank'' ''account:x'' =
      Ok (Some \<lparr>vv_Value = Some ''5'', vv_Version = Height 3 1\<rparr>)"
proof (rule apply_updates_read [OF mem_leveldb_laws sample_batch_wf, of "''ch''" "[]" "Height 3 1"])
  fix d'
  assume *: "vdb_ApplyUpdates mem_leveldb ''ch'' [] sample_batch (Height 3 1) = Ok d'"
    "\<And>ns key. zero_free ns \<Longrightarrow> ns \<noteq> [] \<or> key \<noteq> [] \<Longrightarrow> vdb_GetState mem_leveldb ''ch'' d' ns key =
        (case UpdateBatch_Get sample_batch ns key of
           None \<Rightarrow> vdb_GetState mem_leveldb ''ch'' [] ns key | Some vv \<Rightarrow> Ok (committed vv))"
  have "UpdateBatch_Get sample_batch ''smallbank'' ''account:x'' =
      Some \<lparr>vv_Value = Some ''5'', vv_Version = Height 3 1\<rparr>"
    by (simp add: sample_batch_def batch.get_put)
  moreover have "zero_free ''smallbank''" by (simp add: zero_free_def)
  ultimately show thesis
    using that [OF *(1)] *(2) [of "''smallbank''" "''account:x''"] by (simp add: committed_def)
qed

theorem apply_updates_refines_map_witness:
  "\<exists>d'. vdb_ApplyUpdates mem_leveldb ''ch'' [] sample_batch (Height 3 1) = Ok d' \<and>
     vdb_GetState mem_leveldb ''ch'' d' ''smallbank'' ''account:x'' =
       Ok (Some \<lparr>vv_Value = Some ''5'', vv_Version = Height 3 1\<rparr>)"
proof -
  have "UpdateBatch_Get sample_batch ''smallbank'' ''account:x'' =
      Some \<lparr>vv_Value = Some ''5'', vv_Version = Height 3 1\<rparr>"
    by (simp add: sample_batch_def batch.get_put)
  moreover have "zero_free ''smallbank''" by (simp add: zero_free_def)
  ultimately show ?thesis
    using apply_updates_refines_map [OF mem_leveldb_laws sample_batch_wf, of "''ch''" "[]" "Height 3 1"]
    by (force simp: committed_def)
qed

text \<open>C17: A range scan of the LevelDB state database hands out exactly the key-values of the namespace
  in the range, with the values and versions that \<open>GetState\<close> reads, in strictly ascending key order.\<close>

theorem range_scan_exact:
  assumes "ldb_laws L" and "zero_free n" and "zero_free ns" and "ns \<noteq> []" and "wf_level L n d"
  shows "\<exists>kvs. yields kvScanner_Next (vdb_GetStateRangeScanIterator L n d ns s e) kvs \<and>
    sorted_wrt (<) (map vkv_Key kvs) \<and>
    (\<forall>kv. kv \<in> set kvs \<longleftrightarrow>
       vkv_Namespace kv = ns \<and> in_range s e (vkv_Key kv) \<and> vkv_Value kv \<noteq> None \<and>
       vdb_GetState L n d ns (vkv_Key kv) =
         Ok (Some \<lparr>vv_Value = vkv_Value kv, vv_Version = vkv_Version kv\<rparr>))"
  using range_scan_contents [OF assms, of s e] scan_iter.yields_contents by blast

lemma wf_level_empty: "wf_level mem_leveldb n []"
  by (simp add: wf_level_def DBHandle_Get_def DB_Get_def mem_leveldb_def)

theorem range_scan_exact_witness:
  "\<exists>d' kvs. vdb_ApplyUpdates mem_leveldb ''ch'' [] sample_batch (Height 3 1) = Ok d' \<and>
    yields kvScanner_Next (vdb_GetStateRangeScanIterator mem_leveldb ''ch'' d' ''smallbank'' ''a'' ''b'') kvs \<and>
    \<lparr>vkv_Namespace = ''smallbank'', vkv_Key = ''account:x'', vkv_Value = Some ''5'',
      vkv_Version = Height 3 1\<rparr> \<in> set kvs"
proof -
  have free: "zero_free ''ch''" "zero_free ''smallbank''" by (simp_all add: zero_free_def)
  obtain d' where d': "vdb_ApplyUpdates mem_leveldb ''ch'' [] sample_batch (Height 3 1) = Ok d'"
    and read: "vdb_GetState mem_leveldb ''ch'' d' ''smallbank'' ''account:x'' =
      Ok (Some \<lparr>vv_Value = Some ''5'', vv_Version = Height 3 1\<rparr>)"
    by (rule sample_applied)
  have "in_range ''a'' ''b'' ''account:x''" by (simp add: in_range_def less_char_def)
  moreover have "wf_level mem_leveldb ''ch'' d'"
    by (rule wf_level_apply [OF mem_leveldb_laws sample_batch_wf wf_level_empty d'])
  ultimately show ?thesis
    using d' read range_scan_exact [OF mem_leveldb_laws free, of d' "''a''" "''b''"] by fastforce
qed

text \<open>Applying updates keeps the database well-formed: under every composite key lies a value
  encoded with its version.\<close>

theorem apply_updates_invariant:
  assumes "ldb_laws L" and "wf_batch batch" and "zero_free_batch batch" and "wf_level L n d"
    and "vdb_ApplyUpdates L n d batch h = Ok d'"
  shows "wf_level L n d'"
  using assms by (rule wf_level_apply)

theorem apply_updates_invariant_witness:
  "\<exists>d'. vdb_ApplyUpdates mem_leveldb ''ch'' [] sample_batch (Height 3 1) = Ok d' \<and> wf_level mem_leveldb ''ch'' d'"
proof -
  obtain d' where d': "vdb_ApplyUpdates mem_leveldb ''ch'' [] sample_batch (Height 3 1) = Ok d'"
    by (rule apply_updates_read [OF mem_leveldb_laws sample_batch_wf])
  with apply_updates_invariant [OF mem_leveldb_laws sample_batch_wf wf_level_empty d'] show ?thesis
    by blast
qed

end
