(* ===== verification/Json.thy ===== *)
theory Json
  imports Go_Strings
begin

text \<open>
  Go's \<open>encoding/json\<close>, as far as the benchmark path uses it: the compact encoder with its string
  escaping, a parser for the JSON grammar, and the decoding of values into string, integer and
  slice fields. The parser reads back what the encoder writes: \<open>json_parse_print\<close>.

  The grammar's recursion is bounded by fuel, two units per input byte; the same lemma shows
  that this is enough for every encoded value.
\<close>

section \<open>UTF-8\<close>

definition byte_in :: "nat \<Rightarrow> nat \<Rightarrow> char \<Rightarrow> bool" where
  "byte_in lo hi c \<longleftrightarrow> lo \<le> of_char c \<and> of_char c \<le> hi"

text \<open>The second byte of a three- and of a four-byte sequence, by its first byte.\<close>

definition second_of_3 :: "char \<Rightarrow> char \<Rightarrow> bool" where
  "second_of_3 a x \<longleftrightarrow>
     byte_in (if a = CHR 0xE0 then 0xA0 else 0x80) (if a = CHR 0xED then 0x9F else 0xBF) x"

definition second_of_4 :: "char \<Rightarrow> char \<Rightarrow> bool" where
  "second_of_4 a x \<longleftrightarrow>
     byte_in (if a = CHR 0xF0 then 0x90 else 0x80) (if a = CHR 0xF4 then 0x8F else 0xBF) x"

text \<open>The length of the rune at the head of a byte string, 0 when the bytes are invalid.\<close>

fun utf8_seq :: "string \<Rightarrow> nat" where
  "utf8_seq [] = 0"
| "utf8_seq (a # r) =
     (if byte_in 0 0x7F a then 1
      else if byte_in 0xC2 0xDF a then
        (case r of x # _ \<Rightarrow> if byte_in 0x80 0xBF x then 2 else 0 | _ \<Rightarrow> 0)
      else if byte_in 0xE0 0xEF a then
        (case r of x # y # _ \<Rightarrow>
           if second_of_3 a x \<and> byte_in 0x80 0xBF y then 3 else 0
         | _ \<Rightarrow> 0)
      else if byte_in 0xF0 0xF4 a then
        (case r of x # y # z # _ \<Rightarrow>
           if second_of_4 a x \<and> byte_in 0x80 0xBF y \<and> byte_in 0x80 0xBF z then 4 else 0
         | _ \<Rightarrow> 0)
      else 0)"

text \<open>A string as its runes; an invalid byte stands alone.\<close>

function runes :: "string \<Rightarrow> string list" where
  "runes [] = []"
| "runes (c # cs) =
     (let n = max 1 (utf8_seq (c # cs)) in take n (c # cs) # runes (drop n (c # cs)))"
  by pat_completeness auto
termination by (relation "measure length") (auto simp: Let_def)

declare runes.simps(2) [simp del]

definition valid_rune :: "string \<Rightarrow> bool" where
  "valid_rune r \<longleftrightarrow> r \<noteq> [] \<and> utf8_seq r = length r"

definition valid_utf8 :: "string \<Rightarrow> bool" where
  "valid_utf8 s \<longleftrightarrow> list_all valid_rune (runes s)"

lemma concat_runes [simp]: "concat (runes s) = s"
  by (induction s rule: runes.induct) (simp_all add: runes.simps(2) Let_def)

lemma utf8_seq_le: "utf8_seq s \<le> length s"
  by (cases s rule: utf8_seq.cases) (auto split: list.splits)

text \<open>A valid rune keeps its length in front of any text.\<close>

lemma utf8_seq_append:
  assumes "valid_rune r"
  shows "utf8_seq (r @ t) = length r"
proof -
  from assms obtain a s where r: "r = a # s" and u: "utf8_seq (a # s) = Suc (length s)"
    by (cases r) (auto simp: valid_rune_def)
  from u show ?thesis
    unfolding r by (auto split: list.splits if_splits)
qed

lemma valid_utf8_ascii: "list_all (byte_in 0 0x7F) s \<Longrightarrow> valid_utf8 s"
  unfolding valid_utf8_def
  by (induction s) (simp_all add: runes.simps(2) valid_rune_def)

section \<open>Encoding strings\<close>

definition hex_char :: "nat \<Rightarrow> char" where
  "hex_char d = (if d < 10 then char_of (48 + d) else char_of (87 + d))"

definition escape_u :: "nat \<Rightarrow> string" where
  "escape_u n =
     [CHR 0x5C, CHR ''u'', hex_char (n div 4096 mod 16), hex_char (n div 256 mod 16),
      hex_char (n div 16 mod 16), hex_char (n mod 16)]"

text \<open>The encoder's treatment of one rune, HTML escaping on.\<close>

definition json_rune :: "string \<Rightarrow> string" where
  "json_rune r =
     (case r of
        [c] \<Rightarrow>
          if c = CHR 0x5C \<or> c = CHR 0x22 then [CHR 0x5C, c]
          else if c = CHR 0x0A then [CHR 0x5C, CHR ''n'']
          else if c = CHR 0x0D then [CHR 0x5C, CHR ''r'']
          else if c = CHR 0x09 then [CHR 0x5C, CHR ''t'']
          else if byte_in 0 0x1F c \<or> c = CHR ''<'' \<or> c = CHR ''>'' \<or> c = CHR ''&''
          then escape_u (of_char c)
          else if byte_in 0x20 0x7F c then [c]
          else escape_u 0xFFFD
      | _ \<Rightarrow>
          if r = [CHR 0xE2, CHR 0x80, CHR 0xA8] then escape_u 0x2028
          else if r = [CHR 0xE2, CHR 0x80, CHR 0xA9] then escape_u 0x2029
          else r)"

definition json_string :: "string \<Rightarrow> string" where
  "json_string s = CHR 0x22 # concat (map json_rune (runes s)) @ [CHR 0x22]"

section \<open>Parsing strings\<close>

definition hex_val :: "char \<Rightarrow> nat option" where
  "hex_val c =
     (if byte_in 48 57 c then Some (of_char c - 48)
      else if byte_in 97 102 c then Some (of_char c - 87)
      else if byte_in 65 70 c then Some (of_char c - 55)
      else None)"

text \<open>Four hexadecimal digits and the rest.\<close>

fun hex4 :: "string \<Rightarrow> (nat \<times> string) option" where
  "hex4 (a # b # c # d # r) =
     (case (hex_val a, hex_val b, hex_val c, hex_val d) of
        (Some w, Some x, Some y, Some z) \<Rightarrow> Some (4096 * w + 256 * x + 16 * y + z, r)
      | _ \<Rightarrow> None)"
| "hex4 _ = None"

text \<open>\<open>utf8.EncodeRune\<close> for a code point that is not a surrogate.\<close>

definition encode_rune :: "nat \<Rightarrow> string" where
  "encode_rune n =
     (if n < 0x80 then [char_of n]
      else if n < 0x800 then [char_of (0xC0 + n div 64), char_of (0x80 + n mod 64)]
      else if n < 0x10000 then
        [char_of (0xE0 + n div 4096), char_of (0x80 + n div 64 mod 64), char_of (0x80 + n mod 64)]
      else
        [char_of (0xF0 + n div 262144), char_of (0x80 + n div 4096 mod 64),
         char_of (0x80 + n div 64 mod 64), char_of (0x80 + n mod 64)])"

definition replacement :: string where
  "replacement = [CHR 0xEF, CHR 0xBF, CHR 0xBD]"

text \<open>
  The escape after \<open>\\u\<close>: the decoded text and the rest. A lone surrogate becomes the replacement
  character; a surrogate pair becomes its code point.
\<close>

definition unescape_u :: "string \<Rightarrow> (string \<times> string) option" where
  "unescape_u s =
     (case hex4 s of
        None \<Rightarrow> None
      | Some (v, r) \<Rightarrow>
          if v < 0xD800 \<or> 0xE000 \<le> v then Some (encode_rune v, r)
          else
            (case r of
               a # b # r' \<Rightarrow>
                 (case (if a = CHR 0x5C \<and> b = CHR ''u'' then hex4 r' else None) of
                    Some (v2, r'') \<Rightarrow>
                      if v < 0xDC00 \<and> 0xDC00 \<le> v2 \<and> v2 < 0xE000
                      then Some (encode_rune ((v - 0xD800) * 1024 + (v2 - 0xDC00) + 0x10000), r'')
                      else Some (replacement, r)
                  | None \<Rightarrow> Some (replacement, r))
             | _ \<Rightarrow> Some (replacement, r)))"

lemma hex4_length: "hex4 s = Some (v, r) \<Longrightarrow> length s = length r + 4"
  by (cases s rule: hex4.cases) (auto split: option.splits)

lemma unescape_u_length: "unescape_u s = Some (v, r) \<Longrightarrow> length r < length s"
  by (auto simp: unescape_u_def dest!: hex4_length split: option.splits list.splits if_splits)

definition cons_text :: "string \<Rightarrow> (string \<times> string) option \<Rightarrow> (string \<times> string) option" where
  "cons_text t p = map_option (\<lambda>(u, r). (t @ u, r)) p"

definition simple_escape :: "char \<Rightarrow> char option" where
  "simple_escape e =
     (if e = CHR 0x22 \<or> e = CHR 0x5C \<or> e = CHR ''/'' then Some e
      else if e = CHR ''b'' then Some (CHR 0x08)
      else if e = CHR ''f'' then Some (CHR 0x0C)
      else if e = CHR ''n'' then Some (CHR 0x0A)
      else if e = CHR ''r'' then Some (CHR 0x0D)
      else if e = CHR ''t'' then Some (CHR 0x09)
      else None)"

text \<open>The body of a string literal, after its opening quote.\<close>

function str_body :: "string \<Rightarrow> (string \<times> string) option" where
  "str_body [] = None"
| "str_body (c # cs) =
     (if c = CHR 0x22 then Some ([], cs)
      else if c = CHR 0x5C then
        (case cs of
           [] \<Rightarrow> None
         | e # r \<Rightarrow>
             (case simple_escape e of
                Some x \<Rightarrow> cons_text [x] (str_body r)
              | None \<Rightarrow>
                  if e = CHR ''u'' then
                    (case unescape_u r of
                       None \<Rightarrow> None
                     | Some (t, r') \<Rightarrow> cons_text t (str_body r'))
                  else None))
      else if byte_in 0 0x1F c then None
      else
        let n = utf8_seq (c # cs) in
        if n = 0 then cons_text replacement (str_body cs)
        else cons_text (take n (c # cs)) (str_body (drop n (c # cs))))"
  by pat_completeness auto
termination
  by (relation "measure length") (auto dest: unescape_u_length)

declare str_body.simps(2) [simp del]

lemma str_body_length: "str_body s = Some (t, r) \<Longrightarrow> length r < length s"
proof (induction s arbitrary: t r rule: measure_induct_rule [of length])
  case (less s)
  have IH: "length r' < length s"
    if "cons_text u (str_body y) = Some (t', r')" "length y < length s" for u y t' r'
    using that less.IH by (fastforce simp: cons_text_def)
  from less.prems obtain c cs where s: "s = c # cs" by (cases s) auto
  have drop: "length (drop n (c # cs)) < length s" if "n \<noteq> 0" for n
    using that s by (cases n) auto
  show ?case
  proof (cases "c = CHR 0x22 \<or> c = CHR 0x5C")
    case True
    then show ?thesis
      using less.prems s
      by (fastforce simp: str_body.simps(2) dest: IH dest!: unescape_u_length
          split: if_splits list.splits option.splits)
  next
    case False
    then show ?thesis
      using less.prems s
      by (fastforce simp: str_body.simps(2) Let_def intro: drop dest: IH split: if_splits)
  qed
qed

section \<open>The string round trip\<close>

lemma hex_val_hex_char [simp]: "d < 16 \<Longrightarrow> hex_val (hex_char d) = Some d"
  by (auto simp: hex_val_def hex_char_def byte_in_def)

lemma hex_digits:
  assumes "n < (65536 :: nat)"
  shows "4096 * (n div 4096 mod 16) + 256 * (n div 256 mod 16) + 16 * (n div 16 mod 16) + n mod 16
    = n"
proof -
  have "n = 16 * (n div 16) + n mod 16" by simp
  moreover have "n div 16 = 16 * (n div 256) + n div 16 mod 16"
    using mult_div_mod_eq [of 16 "n div 16"] by (simp flip: div_mult2_eq)
  moreover have "n div 256 = 16 * (n div 4096) + n div 256 mod 16"
    using mult_div_mod_eq [of 16 "n div 256"] by (simp flip: div_mult2_eq)
  moreover have "n div 4096 mod 16 = n div 4096" using assms by simp
  ultimately show ?thesis by linarith
qed

lemma hex4_escape: "n < 65536 \<Longrightarrow> hex4 (tl (tl (escape_u n)) @ t) = Some (n, t)"
  using hex_digits [of n] by (simp add: escape_u_def)

lemma str_body_escape_u:
  assumes "n < 0xD800"
  shows "str_body (escape_u n @ t) = cons_text (encode_rune n) (str_body t)"
proof -
  have "unescape_u (tl (tl (escape_u n)) @ t) = Some (encode_rune n, t)"
    using assms by (simp add: unescape_u_def hex4_escape)
  then have "str_body (CHR 0x5C # CHR ''u'' # tl (tl (escape_u n)) @ t) =
      cons_text (encode_rune n) (str_body t)"
    by (simp add: str_body.simps(2) simple_escape_def)
  then show ?thesis by (simp add: escape_u_def)
qed

lemma str_body_simple_escape:
  "simple_escape e = Some x \<Longrightarrow> str_body (CHR 0x5C # e # t) = cons_text [x] (str_body t)"
  by (simp add: str_body.simps(2))

lemma str_body_plain:
  "c \<noteq> CHR 0x22 \<Longrightarrow> c \<noteq> CHR 0x5C \<Longrightarrow> byte_in 0x20 0x7F c \<Longrightarrow>
     str_body (c # t) = cons_text [c] (str_body t)"
  by (simp add: str_body.simps(2) byte_in_def)

lemma str_body_ascii:
  assumes "of_char c < (128 :: nat)"
  shows "str_body (json_rune [c] @ t) = cons_text [c] (str_body t)"
proof -
  have enc: "encode_rune (of_char c) = [c]" using assms by (simp add: encode_rune_def)
  have esc: "str_body (CHR 0x5C # e # t) = cons_text [c] (str_body t)"
    if "simple_escape e = Some c" for e
    using that by (rule str_body_simple_escape)
  show ?thesis
  proof (cases "c = CHR 0x5C \<or> c = CHR 0x22 \<or> c = CHR 0x0A \<or> c = CHR 0x0D \<or> c = CHR 0x09")
    case True
    then show ?thesis by (elim disjE) (simp_all add: json_rune_def simple_escape_def esc)
  next
    case plain: False
    show ?thesis
    proof (cases "byte_in 0 0x1F c \<or> c = CHR ''<'' \<or> c = CHR ''>'' \<or> c = CHR ''&''")
      case True
      with plain have "json_rune [c] = escape_u (of_char c)" by (simp add: json_rune_def)
      with assms enc str_body_escape_u [of "of_char c" t] show ?thesis by simp
    next
      case False
      with assms have "byte_in 0x20 0x7F c" by (auto simp: byte_in_def)
      moreover from this plain False have "json_rune [c] = [c]" by (simp add: json_rune_def)
      ultimately show ?thesis using plain str_body_plain [of c t] by simp
    qed
  qed
qed

lemma encode_rune_separators:
  "encode_rune 0x2028 = [CHR 0xE2, CHR 0x80, CHR 0xA8]"
  "encode_rune 0x2029 = [CHR 0xE2, CHR 0x80, CHR 0xA9]"
  by (simp_all add: encode_rune_def char_of_eq_iff)

lemma str_body_long:
  assumes "valid_rune r" and "r = c # d # ds"
  shows "str_body (json_rune r @ t) = cons_text r (str_body t)"
proof -
  have "\<not> byte_in 0 0x7F c" using assms by (auto simp: valid_rune_def)
  moreover from this have "c \<noteq> CHR 0x22" "c \<noteq> CHR 0x5C" by (auto simp: byte_in_def)
  ultimately have "str_body (r @ t) = cons_text r (str_body t)"
    using utf8_seq_append [OF assms(1), of t] assms(2)
    by (simp del: utf8_seq.simps add: str_body.simps(2) [of c "d # ds @ t"] byte_in_def)
  moreover have "str_body (escape_u 0x2028 @ t) =
      cons_text [CHR 0xE2, CHR 0x80, CHR 0xA8] (str_body t)"
    "str_body (escape_u 0x2029 @ t) = cons_text [CHR 0xE2, CHR 0x80, CHR 0xA9] (str_body t)"
    using str_body_escape_u [of "0x2028" t] str_body_escape_u [of "0x2029" t]
    by (simp_all add: encode_rune_separators)
  ultimately show ?thesis
    using assms(2) by (auto simp: json_rune_def)
qed

lemma str_body_rune:
  assumes "valid_rune r"
  shows "str_body (json_rune r @ t) = cons_text r (str_body t)"
proof (cases "\<exists>c. r = [c]")
  case True
  with assms show ?thesis
    by (auto simp: valid_rune_def byte_in_def intro!: str_body_ascii split: if_splits)
next
  case False
  with assms obtain c d ds where "r = c # d # ds"
    by (cases r rule: remdups_adj.cases) (auto simp: valid_rune_def)
  with assms show ?thesis by (rule str_body_long)
qed

lemma str_body_runes:
  "list_all valid_rune rs \<Longrightarrow>
     str_body (concat (map json_rune rs) @ t) = cons_text (concat rs) (str_body t)"
proof (induction rs)
  case Nil
  then show ?case by (cases "str_body t") (auto simp: cons_text_def)
next
  case (Cons r rs)
  then show ?case
    by (cases "str_body t") (auto simp: str_body_rune cons_text_def)
qed

lemma str_body_string:
  assumes "valid_utf8 s"
  shows "str_body (concat (map json_rune (runes s)) @ CHR 0x22 # t) = Some (s, t)"
  using str_body_runes [of "runes s" "CHR 0x22 # t"] assms
  by (simp add: valid_utf8_def str_body.simps(2) cons_text_def)

section \<open>Values\<close>

datatype jval =
  JNull | JBool bool | JNum string | JStr string | JArr "jval list" | JObj "(string \<times> jval) list"

text \<open>Comma-separated texts with the closing bracket.\<close>

fun seq_text :: "char \<Rightarrow> string list \<Rightarrow> string" where
  "seq_text e [] = [e]"
| "seq_text e [x] = x @ [e]"
| "seq_text e (x # y # xs) = x @ CHR '','' # seq_text e (y # xs)"

text \<open>\<open>json.Marshal\<close>: no white space, members in field order.\<close>

fun jprint :: "jval \<Rightarrow> string" where
  "jprint JNull = ''null''"
| "jprint (JBool b) = (if b then ''true'' else ''false'')"
| "jprint (JNum n) = n"
| "jprint (JStr s) = json_string s"
| "jprint (JArr vs) = CHR ''['' # seq_text CHR '']'' (map jprint vs)"
| "jprint (JObj ms) =
     CHR ''{'' # seq_text CHR ''}'' (map (\<lambda>(k, v). json_string k @ CHR '':'' # jprint v) ms)"

definition is_ws :: "char \<Rightarrow> bool" where
  "is_ws c \<longleftrightarrow> c = CHR 0x20 \<or> c = CHR 0x09 \<or> c = CHR 0x0A \<or> c = CHR 0x0D"

definition skip_ws :: "string \<Rightarrow> string" where
  "skip_ws s = dropWhile is_ws s"

text \<open>The parts of a number: integer part, fraction and exponent, each with the rest.\<close>

definition num_int :: "string \<Rightarrow> (string \<times> string) option" where
  "num_int s =
     (case s of
        [] \<Rightarrow> None
      | c # r \<Rightarrow>
          if c = CHR ''0'' then Some ([c], r)
          else if is_digit c then Some (takeWhile is_digit s, dropWhile is_digit s)
          else None)"

definition num_frac :: "string \<Rightarrow> (string \<times> string) option" where
  "num_frac s =
     (case s of
        [] \<Rightarrow> Some ([], [])
      | c # r \<Rightarrow>
          if c \<noteq> CHR ''.'' then Some ([], s)
          else if takeWhile is_digit r = [] then None
          else Some (c # takeWhile is_digit r, dropWhile is_digit r))"

definition num_exp :: "string \<Rightarrow> (string \<times> string) option" where
  "num_exp s =
     (case s of
        [] \<Rightarrow> Some ([], [])
      | c # r \<Rightarrow>
          if c \<noteq> CHR ''e'' \<and> c \<noteq> CHR ''E'' then Some ([], s)
          else
            (let sg = takeWhile (\<lambda>x. x = CHR ''+'' \<or> x = CHR ''-'') (take 1 r);
                 r' = drop (length sg) r
             in if takeWhile is_digit r' = [] then None
                else Some (c # sg @ takeWhile is_digit r', dropWhile is_digit r')))"

definition pnum :: "string \<Rightarrow> (string \<times> string) option" where
  "pnum s =
     (let sg = takeWhile (\<lambda>x. x = CHR ''-'') (take 1 s)
      in case num_int (drop (length sg) s) of
           None \<Rightarrow> None
         | Some (i, r) \<Rightarrow>
             (case num_frac r of
                None \<Rightarrow> None
              | Some (f, r) \<Rightarrow>
                  (case num_exp r of
                     None \<Rightarrow> None
                   | Some (e, r) \<Rightarrow> Some (sg @ i @ f @ e, r))))"

text \<open>
  A value, the elements after an opening bracket and the members after an opening brace, each
  with the rest of the input.
\<close>

fun pval :: "nat \<Rightarrow> string \<Rightarrow> (jval \<times> string) option"
  and pelems :: "nat \<Rightarrow> string \<Rightarrow> (jval list \<times> string) option"
  and pmembers :: "nat \<Rightarrow> string \<Rightarrow> ((string \<times> jval) list \<times> string) option" where
  "pval 0 s = None"
| "pval (Suc f) s =
     (case skip_ws s of
        [] \<Rightarrow> None
      | c # r \<Rightarrow>
          if c = CHR 0x22 then map_option (\<lambda>(t, r). (JStr t, r)) (str_body r)
          else if c = CHR ''['' then
            (if take 1 (skip_ws r) = '']'' then Some (JArr [], tl (skip_ws r))
             else map_option (\<lambda>(vs, r). (JArr vs, r)) (pelems f r))
          else if c = CHR ''{'' then
            (if take 1 (skip_ws r) = ''}'' then Some (JObj [], tl (skip_ws r))
             else map_option (\<lambda>(ms, r). (JObj ms, r)) (pmembers f r))
          else if has_prefix ''null'' (c # r) then Some (JNull, drop 3 r)
          else if has_prefix ''true'' (c # r) then Some (JBool True, drop 3 r)
          else if has_prefix ''false'' (c # r) then Some (JBool False, drop 4 r)
          else map_option (\<lambda>(t, r). (JNum t, r)) (pnum (c # r)))"
| "pelems 0 s = None"
| "pelems (Suc f) s =
     (case pval f s of
        None \<Rightarrow> None
      | Some (v, r) \<Rightarrow>
          (case skip_ws r of
             [] \<Rightarrow> None
           | c # r' \<Rightarrow>
               if c = CHR '']'' then Some ([v], r')
               else if c = CHR '','' then map_option (\<lambda>(vs, r). (v # vs, r)) (pelems f r')
               else None))"
| "pmembers 0 s = None"
| "pmembers (Suc f) s =
     (case (if take 1 (skip_ws s) = [CHR 0x22] then str_body (tl (skip_ws s)) else None) of
        None \<Rightarrow> None
      | Some (k, r) \<Rightarrow>
          (case (if take 1 (skip_ws r) = '':'' then pval f (tl (skip_ws r)) else None) of
             None \<Rightarrow> None
           | Some (v, r) \<Rightarrow>
               (case skip_ws r of
                  [] \<Rightarrow> None
                | c # r' \<Rightarrow>
                    if c = CHR ''}'' then Some ([(k, v)], r')
                    else if c = CHR '','' then
                      map_option (\<lambda>(ms, r). ((k, v) # ms, r)) (pmembers f r')
                    else None)))"

text \<open>A whole text: one value and nothing but white space after it.\<close>

definition json_parse :: "string \<Rightarrow> jval option" where
  "json_parse s =
     (case pval (2 * length s + 2) s of
        None \<Rightarrow> None
      | Some (v, r) \<Rightarrow> if skip_ws r = [] then Some v else None)"

section \<open>The value round trip\<close>

text \<open>
  What the encoder emits: valid UTF-8 strings and integer numbers.
\<close>

definition int_text :: "string \<Rightarrow> bool" where
  "int_text n \<longleftrightarrow>
     (let d = (if take 1 n = ''-'' then tl n else n)
      in d = ''0'' \<or> (d \<noteq> [] \<and> list_all is_digit d \<and> hd d \<noteq> CHR ''0''))"

fun wf_json :: "jval \<Rightarrow> bool" where
  "wf_json (JNum n) = int_text n"
| "wf_json (JStr s) = valid_utf8 s"
| "wf_json (JArr vs) = list_all wf_json vs"
| "wf_json (JObj ms) = list_all (\<lambda>(k, v). valid_utf8 k \<and> wf_json v) ms"
| "wf_json _ = True"

text \<open>The texts that may follow a value.\<close>

definition stops :: "string \<Rightarrow> bool" where
  "stops t \<longleftrightarrow> t = [] \<or> hd t \<in> {CHR '','', CHR '']'', CHR ''}''}"

lemma stops_simps [simp]: "stops []" "stops (CHR '','' # t)" "stops (CHR '']'' # t)" "stops (CHR ''}'' # t)"
  by (simp_all add: stops_def)

lemma is_digit_iff: "is_digit c \<longleftrightarrow> byte_in 48 57 c"
  by (simp add: is_digit_def byte_in_def less_eq_char_def)

lemma stops_tail:
  assumes "stops t"
  shows "takeWhile is_digit t = []" "dropWhile is_digit t = t" "num_frac t = Some ([], t)"
    "num_exp t = Some ([], t)"
  using assms by (cases t; auto simp: stops_def num_frac_def num_exp_def is_digit_def)+

lemma takeWhile_digits:
  "list_all is_digit d \<Longrightarrow> stops t \<Longrightarrow>
     takeWhile is_digit (d @ t) = d \<and> dropWhile is_digit (d @ t) = t"
  by (induction d) (auto simp: stops_tail)

lemma num_int_digits:
  assumes "d = ''0'' \<or> (d \<noteq> [] \<and> list_all is_digit d \<and> hd d \<noteq> CHR ''0'')" and "stops t"
  shows "num_int (d @ t) = Some (d, t)"
proof (cases d)
  case Nil
  with assms(1) show ?thesis by simp
next
  case (Cons c r)
  with assms takeWhile_digits [of d t] show ?thesis by (auto simp: num_int_def)
qed

lemma pnum_int_text:
  assumes "int_text n" and "stops t"
  shows "pnum (n @ t) = Some (n, t)"
proof (cases "take 1 n = ''-''")
  case True
  then obtain d where n: "n = CHR ''-'' # d" by (cases n) auto
  with assms num_int_digits [of d t] show ?thesis
    by (simp add: pnum_def int_text_def stops_tail)
next
  case False
  with assms have d: "n = ''0'' \<or> (n \<noteq> [] \<and> list_all is_digit n \<and> hd n \<noteq> CHR ''0'')"
    by (simp add: int_text_def)
  then have "take 1 (n @ t) \<noteq> ''-''" and "n \<noteq> []"
    using False by (cases n; auto)+
  then have "takeWhile (\<lambda>x. x = CHR ''-'') (take 1 (n @ t)) = []"
    by (cases n) auto
  with num_int_digits [OF d assms(2)] assms(2) show ?thesis
    by (simp add: pnum_def stops_tail)
qed

lemma int_text_FormatInt: "int_text (FormatInt i)"
proof -
  have "FormatUint n = ''0'' \<or> hd (FormatUint n) \<noteq> CHR ''0''" for n
  proof (induction n rule: FormatUint.induct)
    case (1 n)
    show ?case
    proof (cases "n < 10")
      case True
      then show ?thesis
        by (auto simp: FormatUint.simps [of n] digit_char_def char_of_eq_iff take_bit_eq_mod)
    next
      case False
      have "FormatUint (n div 10) = ''0'' \<Longrightarrow> n div 10 = 0"
        using digits_val_FormatUint [of "n div 10"] by (auto simp: digits_val_def digit_val_def)
      with False 1 show ?thesis by (auto simp: FormatUint.simps [of n] hd_append)
    qed
  qed
  then have "FormatUint n = ''0'' \<or> FormatUint n \<noteq> [] \<and> list_all is_digit (FormatUint n) \<and>
      hd (FormatUint n) \<noteq> CHR ''0''" for n
    by (simp add: FormatUint_digits)
  moreover have "take 1 (FormatUint n) \<noteq> ''-''" for n
    using hd_FormatUint [of n] by (cases "FormatUint n") auto
  ultimately show ?thesis by (simp add: int_text_def FormatInt_def)
qed

lemma int_text_head:
  "int_text n \<Longrightarrow> \<exists>c r. n = c # r \<and> (c = CHR ''-'' \<or> is_digit c)"
  by (cases n) (auto simp: int_text_def Let_def is_digit_def split: if_splits)

definition value_head :: "char \<Rightarrow> bool" where
  "value_head c \<longleftrightarrow> \<not> is_ws c \<and> c \<noteq> CHR '']'' \<and> c \<noteq> CHR ''}''"

lemma digit_head: "c = CHR ''-'' \<or> is_digit c \<Longrightarrow>
    value_head c \<and> c \<noteq> CHR 0x22 \<and> c \<noteq> CHR ''['' \<and> c \<noteq> CHR ''{'' \<and> c \<noteq> CHR ''n'' \<and>
    c \<noteq> CHR ''t'' \<and> c \<noteq> CHR ''f''"
  by (auto simp: value_head_def is_ws_def is_digit_def)

lemma jprint_head: "wf_json v \<Longrightarrow> \<exists>c r. jprint v = c # r \<and> value_head c"
  by (cases v) (auto simp: value_head_def is_ws_def json_string_def dest!: int_text_head digit_head)

lemma skip_ws_value [simp]:
  "value_head c \<Longrightarrow> skip_ws (c # r) = c # r" "skip_ws (CHR 0x22 # r) = CHR 0x22 # r"
  "skip_ws (CHR '','' # r) = CHR '','' # r" "skip_ws (CHR '':'' # r) = CHR '':'' # r"
  "skip_ws (CHR '']'' # r) = CHR '']'' # r" "skip_ws (CHR ''}'' # r) = CHR ''}'' # r"
  "skip_ws [] = []"
  by (simp_all add: value_head_def skip_ws_def is_ws_def)

lemma value_head_open [simp]: "value_head CHR ''[''" "value_head CHR ''{''"
  by (simp_all add: value_head_def is_ws_def)

definition reads_back :: "jval \<Rightarrow> bool" where
  "reads_back v \<longleftrightarrow>
     (\<forall>f t. stops t \<longrightarrow> 2 * length (jprint v) \<le> f \<longrightarrow> pval f (jprint v @ t) = Some (v, t))"

lemma reads_backD:
  "reads_back v \<Longrightarrow> stops t \<Longrightarrow> 2 * length (jprint v) \<le> f \<Longrightarrow> pval f (jprint v @ t) = Some (v, t)"
  by (simp add: reads_back_def)

lemma pelems_print:
  assumes "list_all reads_back vs" and "vs \<noteq> []"
    and "2 * length (seq_text CHR '']'' (map jprint vs)) \<le> f"
  shows "pelems f (seq_text CHR '']'' (map jprint vs) @ t) = Some (vs, t)"
  using assms
proof (induction vs arbitrary: f)
  case (Cons v vs)
  from Cons.prems(3) obtain g where f: "f = Suc g" by (cases f; cases vs) auto
  show ?case
  proof (cases vs)
    case Nil
    with Cons.prems f show ?thesis by (simp add: reads_backD)
  next
    case (Cons w ws)
    with Cons.prems f Cons.IH [of g] show ?thesis by (simp add: reads_backD)
  qed
qed simp

definition member_text :: "string \<times> jval \<Rightarrow> string" where
  "member_text kv = (case kv of (k, v) \<Rightarrow> json_string k @ CHR '':'' # jprint v)"

lemma pmembers_print:
  assumes "list_all (\<lambda>(k, v). valid_utf8 k \<and> reads_back v) ms" and "ms \<noteq> []"
    and "2 * length (seq_text CHR ''}'' (map member_text ms)) \<le> f"
  shows "pmembers f (seq_text CHR ''}'' (map member_text ms) @ t) = Some (ms, t)"
  using assms
proof (induction ms arbitrary: f)
  case (Cons m ms)
  obtain k v where m: "m = (k, v)" by (cases m)
  from Cons.prems(3) obtain g where f: "f = Suc g" by (cases f; cases ms) auto
  show ?case
  proof (cases ms)
    case Nil
    with Cons.prems f m show ?thesis
      by (simp add: reads_backD member_text_def json_string_def str_body_string)
  next
    case (Cons w ws)
    with Cons.prems f m Cons.IH [of g] show ?thesis
      by (simp add: reads_backD member_text_def json_string_def str_body_string)
  qed
qed simp

lemma seq_text_head:
  "xs \<noteq> [] \<Longrightarrow> hd xs = c # r \<Longrightarrow> \<exists>u. seq_text e xs = c # u"
  by (cases xs; cases "tl xs") auto

lemma reads_back_JArr:
  assumes "list_all wf_json vs" and "list_all reads_back vs"
  shows "reads_back (JArr vs)"
  unfolding reads_back_def
proof (intro allI impI)
  fix f t
  assume "2 * length (jprint (JArr vs)) \<le> f"
  then obtain g where g: "f = Suc g" "2 * length (seq_text CHR '']'' (map jprint vs)) \<le> g"
    by (cases f) auto
  show "pval f (jprint (JArr vs) @ t) = Some (JArr vs, t)"
  proof (cases vs)
    case Nil
    with g show ?thesis by simp
  next
    case (Cons v ws)
    with assms jprint_head [of v] obtain c r where "jprint v = c # r" "value_head c" by auto
    with Cons seq_text_head [of "map jprint vs" c r "CHR '']''"]
    obtain u where "seq_text CHR '']'' (map jprint vs) = c # u" by auto
    moreover from \<open>value_head c\<close> have "c \<noteq> CHR '']''" by (simp add: value_head_def)
    ultimately show ?thesis
      using g Cons assms pelems_print [of vs g t] \<open>value_head c\<close> by simp
  qed
qed

lemma reads_back_JObj:
  assumes "list_all (\<lambda>(k, v). valid_utf8 k \<and> reads_back v) ms"
  shows "reads_back (JObj ms)"
  unfolding reads_back_def
proof (intro allI impI)
  fix f t
  have print: "jprint (JObj ms) = CHR ''{'' # seq_text CHR ''}'' (map member_text ms)"
    by (simp add: member_text_def [abs_def])
  assume "2 * length (jprint (JObj ms)) \<le> f"
  then obtain g where g: "f = Suc g" "2 * length (seq_text CHR ''}'' (map member_text ms)) \<le> g"
    unfolding print by (cases f) auto
  show "pval f (jprint (JObj ms) @ t) = Some (JObj ms, t)"
  proof (cases ms)
    case Nil
    with g show ?thesis by simp
  next
    case (Cons m ns)
    then obtain r where "hd (map member_text ms) = CHR 0x22 # r"
      by (cases m) (auto simp: member_text_def json_string_def)
    with Cons seq_text_head [of "map member_text ms" "CHR 0x22" r "CHR ''}''"]
    obtain u where "seq_text CHR ''}'' (map member_text ms) = CHR 0x22 # u" by auto
    with g Cons assms pmembers_print [of ms g t] show ?thesis
      unfolding print by simp
  qed
qed

lemma reads_back_leaf:
  assumes "\<And>g t. stops t \<Longrightarrow> pval (Suc g) (jprint v @ t) = Some (v, t)" and "jprint v \<noteq> []"
  shows "reads_back v"
  unfolding reads_back_def
proof (intro allI impI)
  fix f t
  assume "stops t" and "2 * length (jprint v) \<le> f"
  with assms(2) obtain g where "f = Suc g" by (cases f) auto
  with assms(1) \<open>stops t\<close> show "pval f (jprint v @ t) = Some (v, t)" by simp
qed

lemma reads_back_JNum:
  assumes "int_text n"
  shows "reads_back (JNum n)"
proof (rule reads_back_leaf)
  from assms obtain c r where n: "n = c # r" "c = CHR ''-'' \<or> is_digit c"
    using int_text_head [of n] by auto
  then show "jprint (JNum n) \<noteq> []" by simp
  fix g t
  assume "stops t"
  with assms n pnum_int_text [of n t] digit_head [OF n(2)]
  show "pval (Suc g) (jprint (JNum n) @ t) = Some (JNum n, t)"
    by (simp add: has_prefix_def)
qed

lemma reads_back_wf: "wf_json v \<Longrightarrow> reads_back v"
proof (induction v)
  case (JNum n)
  then show ?case by (simp add: reads_back_JNum)
next
  case (JStr s)
  then show ?case
    by (intro reads_back_leaf) (simp_all add: json_string_def str_body_string)
next
  case (JArr vs)
  then show ?case by (intro reads_back_JArr) (auto simp: list_all_iff)
next
  case (JObj ms)
  then show ?case by (intro reads_back_JObj) (fastforce simp: list_all_iff)
qed (auto intro!: reads_back_leaf simp: has_prefix_def value_head_def is_ws_def split: if_split_asm)

text \<open>The encoder's output parses back to the value encoded.\<close>

lemma json_parse_print:
  assumes "wf_json v"
  shows "json_parse (jprint v) = Some v"
  using reads_backD [OF reads_back_wf [OF assms], of "[]" "2 * length (jprint v) + 2"]
  by (simp add: json_parse_def)

section \<open>Decoding into Go values\<close>

definition ascii_lower :: "char \<Rightarrow> char" where
  "ascii_lower c = (if byte_in 65 90 c then char_of (of_char c + 32 :: nat) else c)"

text \<open>
  The decoder's comparison of a lower-case field name with a key: letters fold, and the Kelvin
  sign and the long s fold to \<open>k\<close> and \<open>s\<close>.
\<close>

fun fold_equal :: "string \<Rightarrow> string \<Rightarrow> bool" where
  "fold_equal [] key = (key = [])"
| "fold_equal (n # ns) key =
     (if take 1 key = [n] \<or> (key \<noteq> [] \<and> ascii_lower (hd key) = n) then fold_equal ns (tl key)
      else if n = CHR ''k'' \<and> take 3 key = [CHR 0xE2, CHR 0x84, CHR 0xAA]
      then fold_equal ns (drop 3 key)
      else if n = CHR ''s'' \<and> take 2 key = [CHR 0xC5, CHR 0xBF] then fold_equal ns (drop 2 key)
      else False)"

text \<open>The field a key names: the exact one, else the first that folds to it.\<close>

definition match_field :: "string list \<Rightarrow> string \<Rightarrow> string option" where
  "match_field names key =
     (if key \<in> set names then Some key else find (\<lambda>n. fold_equal n key) names)"

text \<open>
  The members of an object, assigned to the fields in turn; a key that names no field is skipped.
  \<open>set f v r\<close> decodes \<open>v\<close> into the field \<open>f\<close> of \<open>r\<close>.
\<close>

fun dec_members ::
  "string list \<Rightarrow> (string \<Rightarrow> jval \<Rightarrow> 'r \<Rightarrow> 'r option) \<Rightarrow> (string \<times> jval) list \<Rightarrow> 'r \<Rightarrow> 'r option"
where
  "dec_members names assign [] r = Some r"
| "dec_members names assign ((k, v) # ms) r =
     (case match_field names k of
        None \<Rightarrow> dec_members names assign ms r
      | Some f \<Rightarrow> Option.bind (assign f v r) (dec_members names assign ms))"

definition dec_struct ::
  "string list \<Rightarrow> (string \<Rightarrow> jval \<Rightarrow> 'r \<Rightarrow> 'r option) \<Rightarrow> jval \<Rightarrow> 'r \<Rightarrow> 'r option"
where
  "dec_struct names assign v r =
     (case v of
        JNull \<Rightarrow> Some r
      | JObj ms \<Rightarrow> dec_members names assign ms r
      | _ \<Rightarrow> None)"

fun dec_string :: "jval \<Rightarrow> string \<Rightarrow> string option" where
  "dec_string JNull old = Some old"
| "dec_string (JStr s) old = Some s"
| "dec_string _ old = None"

fun dec_int64 :: "jval \<Rightarrow> int64 \<Rightarrow> int64 option" where
  "dec_int64 JNull old = Some old"
| "dec_int64 (JNum n) old = ParseInt64 n"
| "dec_int64 _ old = None"

fun dec_uint64 :: "jval \<Rightarrow> uint64 \<Rightarrow> uint64 option" where
  "dec_uint64 JNull old = Some old"
| "dec_uint64 (JNum n) old = map_option of_nat (ParseUint n)"
| "dec_uint64 _ old = None"

fun dec_elems :: "(jval \<Rightarrow> 'a \<Rightarrow> 'a option) \<Rightarrow> 'a \<Rightarrow> jval list \<Rightarrow> 'a list option" where
  "dec_elems dec zero [] = Some []"
| "dec_elems dec zero (v # vs) =
     Option.bind (dec v zero) (\<lambda>x. map_option ((#) x) (dec_elems dec zero vs))"

text \<open>A slice: null gives nil, an array a fresh slice of its elements.\<close>

fun dec_slice :: "(jval \<Rightarrow> 'a \<Rightarrow> 'a option) \<Rightarrow> 'a \<Rightarrow> jval \<Rightarrow> 'a list option" where
  "dec_slice dec zero JNull = Some []"
| "dec_slice dec zero (JArr vs) = dec_elems dec zero vs"
| "dec_slice dec zero _ = None"

text \<open>Integers as the encoder writes them.\<close>

definition enc_int64 :: "int64 \<Rightarrow> jval" where
  "enc_int64 w = JNum (FormatInt64 w)"

definition enc_uint64 :: "uint64 \<Rightarrow> jval" where
  "enc_uint64 w = JNum (FormatInt (uint w))"

lemma wf_enc_int [simp]: "wf_json (enc_int64 w)" "wf_json (enc_uint64 u)"
  by (simp_all add: enc_int64_def enc_uint64_def FormatInt64_def int_text_FormatInt)

lemma dec_enc_int64 [simp]: "dec_int64 (enc_int64 w) old = Some w"
  by (simp add: enc_int64_def)

lemma dec_enc_uint64 [simp]: "dec_uint64 (enc_uint64 w) old = Some w"
proof -
  have "unat w < 2 ^ 64" using unsigned_less [of w] by simp
  then show ?thesis
    by (simp add: enc_uint64_def FormatInt_def ParseUint_FormatUint nat_uint_eq)
qed

lemma dec_elems_map:
  "(\<And>x. x \<in> set xs \<Longrightarrow> dec (enc x) zero = Some x) \<Longrightarrow>
     dec_elems dec zero (map enc xs) = Some xs"
  by (induction xs) auto

lemma match_field_exact [simp]: "k \<in> set names \<Longrightarrow> match_field names k = Some k"
  by (simp add: match_field_def)

end
