(* ===== verification/Protos.thy ===== *)
theory Protos
  imports Go_Strings
begin

text \<open>
  The messages of \<open>protos/common\<close> and \<open>protos/peer\<close> that travel through the ordering and
  commit path, and the accessors of \<open>protos/utils\<close> that unpack them.

  The protobuf runtime (\<open>github.com/golang/protobuf\<close>) is third-party code: its decoders and
  encoders are the fields of a \<open>codec\<close>, an argument of every definition that unpacks bytes. A
  decoder gives \<open>Inl\<close> of the runtime's error text or \<open>Inr\<close> of the message. A pointer field
  that a message may leave unset is an option, and reading through it unset panics, as the Go
  code does where it does not check. Every block has a header and a data part.
\<close>

section \<open>Messages\<close>

record Envelope =
  env_Payload :: "bytes option"
  env_Signature :: "bytes"

record Header =
  hdr_ChannelHeader :: "bytes"
  hdr_SignatureHeader :: "bytes"

record Payload =
  pl_Header :: "Header option"
  pl_Data :: "bytes"

record ChannelHeader =
  ch_Type :: "int"
  ch_Version :: "int"
  ch_ChannelId :: "string"
  ch_TxId :: "string"
  ch_Epoch :: "uint64"
  ch_Extension :: "bytes"

record SignatureHeader =
  sh_Creator :: "bytes"
  sh_Nonce :: "bytes"

record ChaincodeID =
  ccid_Path :: "string"
  ccid_Name :: "string"
  ccid_Version :: "string"

record ChaincodeHeaderExtension =
  che_PayloadVisibility :: "bytes"
  che_ChaincodeId :: "ChaincodeID option"

record TransactionAction =
  ta_Header :: "bytes"
  ta_Payload :: "bytes"

record Transaction =
  tx_Actions :: "TransactionAction list"

record Endorsement =
  end_Endorser :: "bytes"
  end_Signature :: "bytes"

record ChaincodeEndorsedAction =
  cea_ProposalResponsePayload :: "bytes option"
  cea_Endorsements :: "Endorsement list"

record ChaincodeActionPayload =
  cap_ChaincodeProposalPayload :: "bytes"
  cap_Action :: "ChaincodeEndorsedAction option"

record ChaincodeProposalPayload =
  cpp_Input :: "bytes"
  cpp_TransientMap :: "(string, bytes) gomap"

record ChaincodeInput =
  ci_Args :: "bytes list"

record ChaincodeSpec =
  cs_ChaincodeId :: "ChaincodeID option"
  cs_Input :: "ChaincodeInput option"
  cs_Timeout :: "int"

record ChaincodeInvocationSpec =
  cis_ChaincodeSpec :: "ChaincodeSpec option"
  cis_IdGenerationAlg :: "string"

record ProposalResponsePayload =
  prp_ProposalHash :: "bytes"
  prp_Extension :: "bytes option"

record ChaincodeAction =
  ca_Results :: "bytes"
  ca_Events :: "bytes"

record MetadataSignature =
  ms_SignatureHeader :: "bytes"
  ms_Signature :: "bytes"

record Metadata =
  md_Value :: "bytes"
  md_Signatures :: "MetadataSignature list"

record LastConfig =
  lc_Index :: "uint64"

record BlockHeader =
  bh_Number :: "uint64"
  bh_PreviousHash :: "bytes"
  bh_DataHash :: "bytes"

record Block =
  blk_Header :: "BlockHeader"
  blk_Data :: "bytes list"
  blk_Metadata :: "bytes list option"

definition HeaderType_CONFIG :: int where "HeaderType_CONFIG = 1"
definition HeaderType_CONFIG_UPDATE :: int where "HeaderType_CONFIG_UPDATE = 2"
definition HeaderType_ENDORSER_TRANSACTION :: int where "HeaderType_ENDORSER_TRANSACTION = 3"
definition HeaderType_ORDERER_TRANSACTION :: int where "HeaderType_ORDERER_TRANSACTION = 4"

definition BlockMetadataIndex_SIGNATURES :: nat where "BlockMetadataIndex_SIGNATURES = 0"
definition BlockMetadataIndex_LAST_CONFIG :: nat where "BlockMetadataIndex_LAST_CONFIG = 1"
definition BlockMetadataIndex_TRANSACTIONS_FILTER :: nat where
  "BlockMetadataIndex_TRANSACTIONS_FILTER = 2"
definition BlockMetadataIndex_ORDERER :: nat where "BlockMetadataIndex_ORDERER = 3"

lemmas metadata_index_defs =
  BlockMetadataIndex_SIGNATURES_def BlockMetadataIndex_LAST_CONFIG_def
  BlockMetadataIndex_TRANSACTIONS_FILTER_def BlockMetadataIndex_ORDERER_def

section \<open>The protobuf runtime\<close>

record codec =
  un_Envelope :: "bytes \<Rightarrow> string + Envelope"
  un_Payload :: "bytes \<Rightarrow> string + Payload"
  un_ChannelHeader :: "bytes \<Rightarrow> string + ChannelHeader"
  un_SignatureHeader :: "bytes \<Rightarrow> string + SignatureHeader"
  un_ChaincodeHeaderExtension :: "bytes \<Rightarrow> string + ChaincodeHeaderExtension"
  un_Transaction :: "bytes \<Rightarrow> string + Transaction"
  un_ChaincodeActionPayload :: "bytes \<Rightarrow> string + ChaincodeActionPayload"
  un_ChaincodeProposalPayload :: "bytes \<Rightarrow> string + ChaincodeProposalPayload"
  un_ChaincodeInvocationSpec :: "bytes \<Rightarrow> string + ChaincodeInvocationSpec"
  un_ProposalResponsePayload :: "bytes \<Rightarrow> string + ProposalResponsePayload"
  un_ChaincodeAction :: "bytes \<Rightarrow> string + ChaincodeAction"
  un_Metadata :: "bytes \<Rightarrow> string + Metadata"
  en_Metadata :: "Metadata \<Rightarrow> bytes"
  un_LastConfig :: "bytes \<Rightarrow> string + LastConfig"
  en_LastConfig :: "LastConfig \<Rightarrow> bytes"
  en_Envelope :: "Envelope \<Rightarrow> bytes"
  en_SignatureHeader :: "SignatureHeader \<Rightarrow> bytes"

text \<open>\<open>err\<close> of a decoder call, with the text the caller wraps around it.\<close>

fun unmarshal :: "(string \<Rightarrow> string) \<Rightarrow> string + 'a \<Rightarrow> (string, 'a) res" where
  "unmarshal w (Inl e) = Err (w e)"
| "unmarshal w (Inr x) = Ok x"

lemma unmarshal_Ok_iff [go_res]: "unmarshal w d = Ok x \<longleftrightarrow> d = Inr x"
  by (cases d) auto

lemma unmarshal_not_Panic [simp]: "unmarshal w d \<noteq> Panic"
  by (cases d) auto

text \<open>A nil slice reads as the empty one.\<close>

definition slice :: "'a list option \<Rightarrow> 'a list" where
  "slice b = (case b of None \<Rightarrow> [] | Some x \<Rightarrow> x)"

lemma slice_simps [simp]: "slice None = []" "slice (Some x) = x"
  by (simp_all add: slice_def)

section \<open>Accessors\<close>

definition GetEnvelopeFromBlock :: "codec \<Rightarrow> bytes \<Rightarrow> (string, Envelope) res" where
  "GetEnvelopeFromBlock pc data =
     unmarshal (\<lambda>e. ''Error getting envelope('' @ e @ '')'') (un_Envelope pc data)"

definition GetPayload :: "codec \<Rightarrow> Envelope \<Rightarrow> (string, Payload) res" where
  "GetPayload pc e = unmarshal id (un_Payload pc (slice (env_Payload e)))"

definition UnmarshalChannelHeader :: "codec \<Rightarrow> bytes \<Rightarrow> (string, ChannelHeader) res" where
  "UnmarshalChannelHeader pc b =
     unmarshal (\<lambda>e. ''UnmarshalChannelHeader failed, err '' @ e) (un_ChannelHeader pc b)"

definition GetChaincodeHeaderExtension ::
    "codec \<Rightarrow> Header option \<Rightarrow> (string, ChaincodeHeaderExtension) res" where
  "GetChaincodeHeaderExtension pc hdr =
     rbind (deref hdr) (\<lambda>h.
     rbind (UnmarshalChannelHeader pc (hdr_ChannelHeader h)) (\<lambda>chdr.
     unmarshal id (un_ChaincodeHeaderExtension pc (ch_Extension chdr))))"

definition GetTransaction :: "codec \<Rightarrow> bytes \<Rightarrow> (string, Transaction) res" where
  "GetTransaction pc b = unmarshal id (un_Transaction pc b)"

definition GetChaincodeActionPayload ::
    "codec \<Rightarrow> bytes \<Rightarrow> (string, ChaincodeActionPayload) res" where
  "GetChaincodeActionPayload pc b = unmarshal id (un_ChaincodeActionPayload pc b)"

definition GetChaincodeProposalPayload ::
    "codec \<Rightarrow> bytes \<Rightarrow> (string, ChaincodeProposalPayload) res" where
  "GetChaincodeProposalPayload pc b = unmarshal id (un_ChaincodeProposalPayload pc b)"

text \<open>
  \<open>GetPayloads\<close> returns the action payload together with the decode error of the last step;
  every caller in the modelled code drops it, so that error is a plain \<open>Err\<close>.
\<close>

definition GetPayloads ::
    "codec \<Rightarrow> TransactionAction \<Rightarrow> (string, ChaincodeActionPayload \<times> ChaincodeAction) res" where
  "GetPayloads pc txActions =
     rbind (unmarshal id (un_ChaincodeActionPayload pc (ta_Payload txActions))) (\<lambda>ccPayload.
     case cap_Action ccPayload of
       None \<Rightarrow> Err ''no payload in ChaincodeActionPayload''
     | Some action \<Rightarrow>
         (case cea_ProposalResponsePayload action of
            None \<Rightarrow> Err ''no payload in ChaincodeActionPayload''
          | Some prp \<Rightarrow>
              rbind (unmarshal id (un_ProposalResponsePayload pc prp)) (\<lambda>pRespPayload.
              case prp_Extension pRespPayload of
                None \<Rightarrow> Err ''response payload is missing extension''
              | Some ext \<Rightarrow>
                  rbind (unmarshal id (un_ChaincodeAction pc ext)) (\<lambda>respPayload.
                  Ok (ccPayload, respPayload)))))"

definition GetActionFromEnvelope :: "codec \<Rightarrow> bytes \<Rightarrow> (string, ChaincodeAction) res" where
  "GetActionFromEnvelope pc envBytes =
     rbind (GetEnvelopeFromBlock pc envBytes) (\<lambda>env.
     rbind (GetPayload pc env) (\<lambda>payl.
     rbind (GetTransaction pc (pl_Data payl)) (\<lambda>tx.
     case tx_Actions tx of
       [] \<Rightarrow> Err ''At least one TransactionAction is required''
     | act # _ \<Rightarrow> rbind (GetPayloads pc act) (\<lambda>(_, respPayload). Ok respPayload))))"

text \<open>Unpacking never panics: only the header pointer can be nil.\<close>

lemma GetPayloads_not_Panic [simp]: "GetPayloads pc a \<noteq> Panic"
  by (auto simp: GetPayloads_def go_res split: option.splits)

lemma GetActionFromEnvelope_not_Panic: "GetActionFromEnvelope pc b \<noteq> Panic"
  by (auto simp: GetActionFromEnvelope_def GetEnvelopeFromBlock_def GetPayload_def
      GetTransaction_def go_res split: list.splits)

text \<open>
  The two-step read that the orderer, the validator and the committer share: the channel header
  of an envelope. A payload without a header panics.
\<close>

definition channel_header :: "codec \<Rightarrow> bytes \<Rightarrow> (string, ChannelHeader) res" where
  "channel_header pc envBytes =
     rbind (GetEnvelopeFromBlock pc envBytes) (\<lambda>env.
     rbind (GetPayload pc env) (\<lambda>payload.
     rbind (deref (pl_Header payload)) (\<lambda>hdr.
     UnmarshalChannelHeader pc (hdr_ChannelHeader hdr))))"

section \<open>Blocks\<close>

definition NewBlock :: "uint64 \<Rightarrow> bytes \<Rightarrow> Block" where
  "NewBlock seqNum previousHash =
     \<lparr>blk_Header = \<lparr>bh_Number = seqNum, bh_PreviousHash = previousHash, bh_DataHash = []\<rparr>,
      blk_Data = [], blk_Metadata = Some (replicate 4 [])\<rparr>"

definition InitBlockMetadata :: "Block \<Rightarrow> Block" where
  "InitBlockMetadata block =
     (case blk_Metadata block of
        None \<Rightarrow> block\<lparr>blk_Metadata := Some [[], [], []]\<rparr>
      | Some md \<Rightarrow>
          if length md < BlockMetadataIndex_TRANSACTIONS_FILTER + 1
          then block\<lparr>blk_Metadata :=
                 Some (md @ replicate (BlockMetadataIndex_TRANSACTIONS_FILTER + 1 - length md) [])\<rparr>
          else block)"

definition GetMetadataFromBlock :: "codec \<Rightarrow> Block \<Rightarrow> nat \<Rightarrow> (string, Metadata) res" where
  "GetMetadataFromBlock pc block idx =
     rbind (deref (blk_Metadata block)) (\<lambda>mds.
     rbind (index mds idx) (\<lambda>raw.
     unmarshal id (un_Metadata pc raw)))"

definition GetLastConfigIndexFromBlock :: "codec \<Rightarrow> Block \<Rightarrow> (string, uint64) res" where
  "GetLastConfigIndexFromBlock pc block =
     rbind (GetMetadataFromBlock pc block BlockMetadataIndex_LAST_CONFIG) (\<lambda>md.
     rbind (unmarshal id (un_LastConfig pc (md_Value md))) (\<lambda>lc.
     Ok (lc_Index lc)))"

end
