(* ===== verification/Intent.thy ===== *)
theory Intent
  imports Protos
begin

text \<open>
  The read and write intents that the orderer derives from a benchmark transaction's arguments:
  the data of \<open>core/bench/types.go\<close> and the extractors of \<open>orderer/bench/extractor.go\<close>,
  \<open>extractor_smallbank.go\<close> and \<open>extractor_ycsb.go\<close>, with \<open>buildPointHypercube\<close> of
  \<open>orderer/bench/graph.go\<close>.
\<close>

section \<open>Data\<close>

record KeyInterval =
  iv_Start :: "string"
  iv_End :: "string"
  iv_IsRange :: "bool"

record HypercubeSet =
  hc_ReadIntervals :: "KeyInterval list"
  hc_WriteIntervals :: "KeyInterval list"

record ReplayOp =
  ro_Benchmark :: "string"
  ro_Function :: "string"
  ro_Args :: "string list"

record TxIntent =
  ti_TxID :: "string"
  ti_ChannelID :: "string"
  ti_ChaincodeName :: "string"
  ti_Benchmark :: "string"
  ti_FunctionName :: "string"
  ti_Args :: "string list"
  ti_ReadKeys :: "string list"
  ti_WriteKeys :: "string list"
  ti_Hypercube :: "HypercubeSet"
  ti_ReplayPlan :: "ReplayOp"

definition BenchmarkSmallBank :: string where "BenchmarkSmallBank = ''smallbank''"
definition BenchmarkYCSB :: string where "BenchmarkYCSB = ''ycsb''"

definition IsBenchmarkChaincode :: "string \<Rightarrow> bool" where
  "IsBenchmarkChaincode name \<longleftrightarrow> name = BenchmarkSmallBank \<or> name = BenchmarkYCSB"

section \<open>Hypercubes\<close>

definition point_interval :: "string \<Rightarrow> KeyInterval" where
  "point_interval k = \<lparr>iv_Start = k, iv_End = k, iv_IsRange = False\<rparr>"

definition empty_hypercube :: HypercubeSet where
  "empty_hypercube = \<lparr>hc_ReadIntervals = [], hc_WriteIntervals = []\<rparr>"

definition buildPointHypercube :: "string list \<Rightarrow> string list \<Rightarrow> HypercubeSet" where
  "buildPointHypercube readKeys writeKeys =
     \<lparr>hc_ReadIntervals = map point_interval readKeys,
      hc_WriteIntervals = map point_interval writeKeys\<rparr>"

section \<open>SmallBank\<close>

definition sbAccountKey :: "string \<Rightarrow> string" where
  "sbAccountKey accountID = ''account:'' @ TrimSpace accountID"

text \<open>
  The read and write keys of the \<open>switch funcName\<close>; \<open>None\<close> where the source returns a nil
  intent (too few arguments, or an unknown function).
\<close>

definition smallbank_keys :: "string \<Rightarrow> string list \<Rightarrow> (string list \<times> string list) option" where
  "smallbank_keys funcName args =
     (if funcName = ''Balance'' then
        (if length args < 1 then None else Some ([sbAccountKey (args ! 0)], []))
      else if funcName = ''CreateAccount'' then
        (if length args < 4 then None
         else let k = sbAccountKey (args ! 0) in Some ([k], [k]))
      else if funcName \<in> {''DepositChecking'', ''TransactSavings'', ''WriteCheck''} then
        (if length args < 2 then None
         else let k = sbAccountKey (args ! 0) in Some ([k], [k]))
      else if funcName = ''Amalgamate'' then
        (if length args < 2 then None
         else let srcKey = sbAccountKey (args ! 0); dstKey = sbAccountKey (args ! 1)
              in Some ([srcKey, dstKey], [srcKey, dstKey]))
      else if funcName = ''SendPayment'' then
        (if length args < 3 then None
         else let fromKey = sbAccountKey (args ! 0); toKey = sbAccountKey (args ! 1)
              in Some ([fromKey, toKey], [fromKey, toKey]))
      else None)"

definition base_intent :: "string \<Rightarrow> string \<Rightarrow> string \<Rightarrow> string \<Rightarrow> string list \<Rightarrow> TxIntent" where
  "base_intent benchmark txID channelID funcName args =
     \<lparr>ti_TxID = txID, ti_ChannelID = channelID, ti_ChaincodeName = benchmark,
      ti_Benchmark = benchmark, ti_FunctionName = funcName, ti_Args = args,
      ti_ReadKeys = [], ti_WriteKeys = [], ti_Hypercube = empty_hypercube,
      ti_ReplayPlan = \<lparr>ro_Benchmark = benchmark, ro_Function = funcName, ro_Args = args\<rparr>\<rparr>"

definition ExtractSmallBankIntent ::
    "string \<Rightarrow> string \<Rightarrow> string \<Rightarrow> string list \<Rightarrow> TxIntent option" where
  "ExtractSmallBankIntent txID channelID funcName args =
     (case smallbank_keys funcName args of
        None \<Rightarrow> None
      | Some (rks, wks) \<Rightarrow>
          Some ((base_intent BenchmarkSmallBank txID channelID funcName args)
                 \<lparr>ti_ReadKeys := rks, ti_WriteKeys := wks,
                  ti_Hypercube := buildPointHypercube rks wks\<rparr>))"

section \<open>YCSB\<close>

text \<open>\<open>string(utf8.MaxRune)\<close>: the UTF-8 encoding of U+10FFFF.\<close>

definition MaxRune_string :: string where
  "MaxRune_string = [CHR 0xF4, CHR 0x8F, CHR 0xBF, CHR 0xBF]"

definition ExtractYCSBIntent ::
    "string \<Rightarrow> string \<Rightarrow> string \<Rightarrow> string list \<Rightarrow> TxIntent option" where
  "ExtractYCSBIntent txID channelID funcName args =
     (let intent = base_intent BenchmarkYCSB txID channelID funcName args in
      if funcName = ''Read'' then
        (if length args < 1 then None
         else Some (intent\<lparr>ti_ReadKeys := [args ! 0], ti_WriteKeys := [],
                           ti_Hypercube := buildPointHypercube [args ! 0] []\<rparr>))
      else if funcName \<in> {''Insert'', ''Update''} then
        (if length args < 2 then None
         else Some (intent\<lparr>ti_ReadKeys := [args ! 0], ti_WriteKeys := [args ! 0],
                           ti_Hypercube := buildPointHypercube [args ! 0] [args ! 0]\<rparr>))
      else if funcName = ''Scan'' then
        (if length args < 2 then None
         else Some (intent\<lparr>ti_ReadKeys := [], ti_WriteKeys := [],
                           ti_Hypercube :=
                             \<lparr>hc_ReadIntervals =
                                [\<lparr>iv_Start = args ! 0, iv_End = MaxRune_string, iv_IsRange = True\<rparr>],
                              hc_WriteIntervals = []\<rparr>\<rparr>))
      else None)"

section \<open>From envelopes\<close>

definition argsToStrings :: "bytes list \<Rightarrow> string list" where
  "argsToStrings raw = raw"

text \<open>
  The invocation of a transaction: the chaincode input of its first action. The orderer
  (\<open>extractIntentFromEnvBytes\<close>) and the committer (\<open>extractInvocationFromEnvBytes\<close>) unpack it
  by the same chain of calls; a missing spec or input panics.
\<close>

definition invocation_args :: "codec \<Rightarrow> bytes \<Rightarrow> (string, bytes list) res" where
  "invocation_args pc data =
     rbind (GetTransaction pc data) (\<lambda>tx.
     case tx_Actions tx of
       [] \<Rightarrow> Err ''no actions in tx''
     | act # _ \<Rightarrow>
         rbind (GetChaincodeActionPayload pc (ta_Payload act)) (\<lambda>cap.
         rbind (GetChaincodeProposalPayload pc (cap_ChaincodeProposalPayload cap)) (\<lambda>cpp.
         rbind (unmarshal id (un_ChaincodeInvocationSpec pc (cpp_Input cpp))) (\<lambda>cis.
         rbind (deref (cis_ChaincodeSpec cis)) (\<lambda>spec.
         rbind (deref (cs_Input spec)) (\<lambda>input.
         Ok (ci_Args input)))))))"

text \<open>
  \<open>Ok None\<close> is a nil intent; every error return of the source is a nil intent too, so the
  source's \<open>return nil\<close> on an error is \<open>nil_on_err\<close>.
\<close>

fun nil_on_err :: "('e, 'a option) res \<Rightarrow> ('e, 'a option) res" where
  "nil_on_err (Ok x) = Ok x"
| "nil_on_err (Err e) = Ok None"
| "nil_on_err Panic = Panic"

text \<open>The final \<open>switch ccName\<close> over the invocation's arguments.\<close>

definition dispatchIntent :: "string \<Rightarrow> ChannelHeader \<Rightarrow> bytes list \<Rightarrow> TxIntent option" where
  "dispatchIntent ccName chdr rawArgs =
     (case rawArgs of
        [] \<Rightarrow> None
      | funcName # rest \<Rightarrow>
          let strArgs = argsToStrings rest in
          if ccName = BenchmarkSmallBank then
            ExtractSmallBankIntent (ch_TxId chdr) (ch_ChannelId chdr) funcName strArgs
          else if ccName = BenchmarkYCSB then
            ExtractYCSBIntent (ch_TxId chdr) (ch_ChannelId chdr) funcName strArgs
          else None)"

definition extractIntentFromEnvBytes :: "codec \<Rightarrow> bytes \<Rightarrow> (string, TxIntent option) res" where
  "extractIntentFromEnvBytes pc envBytes = nil_on_err (
     rbind (GetEnvelopeFromBlock pc envBytes) (\<lambda>env.
     rbind (GetPayload pc env) (\<lambda>payload.
     rbind (deref (pl_Header payload)) (\<lambda>hdr.
     rbind (UnmarshalChannelHeader pc (hdr_ChannelHeader hdr)) (\<lambda>chdr.
     if ch_Type chdr \<noteq> HeaderType_ENDORSER_TRANSACTION then Ok None
     else
       rbind (GetChaincodeHeaderExtension pc (pl_Header payload)) (\<lambda>hdrExt.
       rbind (deref (che_ChaincodeId hdrExt)) (\<lambda>ccid.
       let ccName = ccid_Name ccid in
       if \<not> IsBenchmarkChaincode ccName then Ok None
       else
         rbind (invocation_args pc (pl_Data payload)) (\<lambda>rawArgs.
         Ok (dispatchIntent ccName chdr rawArgs)))))))))"

text \<open>The loop over the block's envelopes: a panic on one envelope ends the call.\<close>

fun extract_loop :: "codec \<Rightarrow> bytes list \<Rightarrow> (string, TxIntent list) res" where
  "extract_loop pc [] = Ok []"
| "extract_loop pc (b # bs) =
     rbind (extractIntentFromEnvBytes pc b) (\<lambda>intent.
     rbind (extract_loop pc bs) (\<lambda>intents.
     Ok (case intent of None \<Rightarrow> intents | Some i \<Rightarrow> i # intents)))"

definition extractIntentsFromBlock :: "codec \<Rightarrow> Block \<Rightarrow> (string, TxIntent list) res" where
  "extractIntentsFromBlock pc block = extract_loop pc (blk_Data block)"

section \<open>What the extractors produce\<close>

text \<open>An intent is well-formed when its hypercube is the one of its keys, or a range read.\<close>

definition wf_intent :: "TxIntent \<Rightarrow> bool" where
  "wf_intent i \<longleftrightarrow>
     hc_WriteIntervals (ti_Hypercube i) = map point_interval (ti_WriteKeys i) \<and>
     (\<forall>k \<in> set (ti_ReadKeys i). point_interval k \<in> set (hc_ReadIntervals (ti_Hypercube i))) \<and>
     set (ti_WriteKeys i) \<subseteq> set (ti_ReadKeys i)"

lemmas extract_defs = ExtractSmallBankIntent_def ExtractYCSBIntent_def smallbank_keys_def
  base_intent_def buildPointHypercube_def empty_hypercube_def Let_def

lemma ExtractSmallBankIntent_fields:
  assumes "ExtractSmallBankIntent t c f as = Some i"
  shows "ti_TxID i = t \<and> ti_ChaincodeName i = BenchmarkSmallBank \<and> ti_FunctionName i = f \<and>
    ti_Args i = as \<and> smallbank_keys f as = Some (ti_ReadKeys i, ti_WriteKeys i)"
  using assms
  by (auto simp: ExtractSmallBankIntent_def base_intent_def split: option.splits)

lemma ExtractYCSBIntent_fields:
  assumes "ExtractYCSBIntent t c f as = Some i"
  shows "ti_TxID i = t \<and> ti_ChaincodeName i = BenchmarkYCSB \<and> ti_FunctionName i = f \<and>
    ti_Args i = as"
  using assms
  by (auto simp: ExtractYCSBIntent_def base_intent_def Let_def split: if_splits)

lemma smallbank_keys_subset:
  "smallbank_keys f as = Some (rks, wks) \<Longrightarrow> set wks \<subseteq> set rks"
  by (auto simp: smallbank_keys_def Let_def split: if_splits)

lemma wf_ExtractSmallBankIntent: "ExtractSmallBankIntent t c f as = Some i \<Longrightarrow> wf_intent i"
  using smallbank_keys_subset
  by (fastforce simp: ExtractSmallBankIntent_def wf_intent_def buildPointHypercube_def
      base_intent_def split: option.splits)

lemma wf_ExtractYCSBIntent: "ExtractYCSBIntent t c f as = Some i \<Longrightarrow> wf_intent i"
  by (auto simp: ExtractYCSBIntent_def wf_intent_def buildPointHypercube_def base_intent_def
      Let_def split: if_splits)

lemma dispatchIntent_Some:
  assumes "dispatchIntent cc chdr raw = Some i"
  shows "raw = ti_FunctionName i # ti_Args i \<and> ti_TxID i = ch_TxId chdr \<and>
    ti_ChaincodeName i = cc \<and> wf_intent i \<and>
    (cc = BenchmarkSmallBank \<and> smallbank_keys (ti_FunctionName i) (ti_Args i) =
       Some (ti_ReadKeys i, ti_WriteKeys i) \<or>
     cc = BenchmarkYCSB \<and> ExtractYCSBIntent (ch_TxId chdr) (ch_ChannelId chdr)
       (ti_FunctionName i) (ti_Args i) = Some i)"
  using assms
  by (auto simp: dispatchIntent_def Let_def argsToStrings_def split: list.splits if_splits
      dest: ExtractSmallBankIntent_fields ExtractYCSBIntent_fields
      intro: wf_ExtractSmallBankIntent wf_ExtractYCSBIntent)

lemma nil_on_err_Some [go_res]: "nil_on_err m = Ok (Some x) \<longleftrightarrow> m = Ok (Some x)"
  by (cases m) auto

lemma extractIntent_SomeD:
  assumes "extractIntentFromEnvBytes pc b = Ok (Some i)"
  obtains env payload hdr chdr hdrExt ccid where
    "GetEnvelopeFromBlock pc b = Ok env" "GetPayload pc env = Ok payload"
    "pl_Header payload = Some hdr" "UnmarshalChannelHeader pc (hdr_ChannelHeader hdr) = Ok chdr"
    "ch_Type chdr = HeaderType_ENDORSER_TRANSACTION"
    "GetChaincodeHeaderExtension pc (Some hdr) = Ok hdrExt"
    "che_ChaincodeId hdrExt = Some ccid" "ccid_Name ccid = ti_ChaincodeName i"
    "invocation_args pc (pl_Data payload) = Ok (ti_FunctionName i # ti_Args i)"
    "dispatchIntent (ti_ChaincodeName i) chdr (ti_FunctionName i # ti_Args i) = Some i"
proof -
  from assms obtain env payload hdr chdr hdrExt ccid raw where
    *: "GetEnvelopeFromBlock pc b = Ok env" "GetPayload pc env = Ok payload"
    "pl_Header payload = Some hdr" "UnmarshalChannelHeader pc (hdr_ChannelHeader hdr) = Ok chdr"
    "ch_Type chdr = HeaderType_ENDORSER_TRANSACTION"
    "GetChaincodeHeaderExtension pc (Some hdr) = Ok hdrExt"
    "che_ChaincodeId hdrExt = Some ccid" "invocation_args pc (pl_Data payload) = Ok raw"
    "dispatchIntent (ccid_Name ccid) chdr raw = Some i"
    by (auto simp: extractIntentFromEnvBytes_def go_res Let_def split: if_splits)
  from dispatchIntent_Some [OF *(9)] * show thesis
    by (intro that [of env payload hdr chdr hdrExt ccid]) auto
qed

lemma extractIntent_TxID:
  assumes "extractIntentFromEnvBytes pc b = Ok (Some i)"
  shows "\<exists>chdr. channel_header pc b = Ok chdr \<and> ch_TxId chdr = ti_TxID i"
  using assms
  by (rule extractIntent_SomeD) (auto simp: channel_header_def dest: dispatchIntent_Some)

lemma wf_extractIntent: "extractIntentFromEnvBytes pc b = Ok (Some i) \<Longrightarrow> wf_intent i"
  by (erule extractIntent_SomeD) (auto dest: dispatchIntent_Some)

lemma wf_extract_loop: "extract_loop pc bs = Ok is \<Longrightarrow> \<forall>i \<in> set is. wf_intent i"
  by (induction bs arbitrary: "is")
    (auto simp: go_res dest: wf_extractIntent split: option.splits)

end
