(* ===== verification/Replay.thy ===== *)
theory Replay
  imports State_DB Json Intent
begin

text \<open>
  Replaying a benchmark transaction on the current state: the adapter of
  \<open>core/bench/statedb_adapter.go\<close>, the SmallBank operations of \<open>replay_smallbank.go\<close> and the YCSB
  operations of \<open>replay_ycsb.go\<close>.

  The database behind the adapter is the \<open>GetState\<close> of the \<open>VersionedDB\<close> interface at the time of
  the replay; \<open>Flush\<close> hands the batch to the interface's \<open>ApplyUpdates\<close>. Accounts hold \<open>int64\<close>
  balances, so sums wrap and comparisons are signed. The error texts of the \<open>strconv\<close> and \<open>json\<close>
  packages are abbreviated to the package's name.

  The lemmas show that an operation reads and writes only the keys that the orderer's intent
  announces (\<open>replaySmallBank_frame\<close>, \<open>replaySmallBank_writes\<close> and their YCSB counterparts).
\<close>

section \<open>The adapter\<close>

record StateDBAdapter =
  ad_db :: db_reader
  ad_batch :: UpdateBatch
  ad_height :: Height

definition NewStateDBAdapter :: "db_reader \<Rightarrow> uint64 \<Rightarrow> nat \<Rightarrow> StateDBAdapter" where
  "NewStateDBAdapter db blockNum numTxs =
     \<lparr>ad_db = db, ad_batch = NewUpdateBatch, ad_height = NewHeight blockNum (of_nat numTxs - 1)\<rparr>"

definition adapter_GetState :: "StateDBAdapter \<Rightarrow> string \<Rightarrow> string \<Rightarrow> (string, bytes option) res" where
  "adapter_GetState a namespace key =
     (case UpdateBatch_Get (ad_batch a) namespace key of
        Some vv \<Rightarrow> Ok (vv_Value vv)
      | None \<Rightarrow>
          rbind (ad_db a namespace key) (\<lambda>vv.
          case vv of None \<Rightarrow> Ok None | Some v \<Rightarrow> Ok (vv_Value v)))"

definition adapter_PutState ::
    "string \<Rightarrow> string \<Rightarrow> bytes option \<Rightarrow> StateDBAdapter \<Rightarrow> (string, StateDBAdapter) res" where
  "adapter_PutState namespace key value a =
     rbind (UpdateBatch_Put namespace key value (ad_height a) (ad_batch a)) (\<lambda>b.
     Ok (a\<lparr>ad_batch := b\<rparr>))"

definition adapter_Flush ::
    "(UpdateBatch \<Rightarrow> Height \<Rightarrow> (string, 'd) res) \<Rightarrow> StateDBAdapter \<Rightarrow> (string, 'd) res" where
  "adapter_Flush ApplyUpdates a = ApplyUpdates (ad_batch a) (ad_height a)"

section \<open>SmallBank\<close>

record sbAccountRecord =
  sb_AccountID :: string
  sb_Name :: string
  sb_Checking :: int64
  sb_Savings :: int64

definition enc_account :: "sbAccountRecord \<Rightarrow> jval" where
  "enc_account acc =
     JObj [(''account_id'', JStr (sb_AccountID acc)), (''name'', JStr (sb_Name acc)),
           (''checking'', enc_int64 (sb_Checking acc)), (''savings'', enc_int64 (sb_Savings acc))]"

definition set_account :: "string \<Rightarrow> jval \<Rightarrow> sbAccountRecord \<Rightarrow> sbAccountRecord option" where
  "set_account f v acc =
     (if f = ''account_id''
      then map_option (\<lambda>x. acc\<lparr>sb_AccountID := x\<rparr>) (dec_string v (sb_AccountID acc))
      else if f = ''name'' then map_option (\<lambda>x. acc\<lparr>sb_Name := x\<rparr>) (dec_string v (sb_Name acc))
      else if f = ''checking''
      then map_option (\<lambda>x. acc\<lparr>sb_Checking := x\<rparr>) (dec_int64 v (sb_Checking acc))
      else map_option (\<lambda>x. acc\<lparr>sb_Savings := x\<rparr>) (dec_int64 v (sb_Savings acc)))"

definition zero_account :: sbAccountRecord where
  "zero_account = \<lparr>sb_AccountID = [], sb_Name = [], sb_Checking = 0, sb_Savings = 0\<rparr>"

definition unmarshal_account :: "bytes \<Rightarrow> sbAccountRecord option" where
  "unmarshal_account data =
     Option.bind (json_parse data) (\<lambda>v.
       dec_struct [''account_id'', ''name'', ''checking'', ''savings''] set_account v zero_account)"

definition sbMarshalAccount :: "sbAccountRecord \<Rightarrow> bytes" where
  "sbMarshalAccount acc = jprint (enc_account acc)"

definition sbKey :: "string \<Rightarrow> string" where
  "sbKey accountID = ''account:'' @ TrimSpace accountID"

definition sbGetAccount :: "StateDBAdapter \<Rightarrow> string \<Rightarrow> (string, sbAccountRecord) res" where
  "sbGetAccount db accountID =
     rbind (adapter_GetState db ''smallbank'' (sbKey accountID)) (\<lambda>data.
     case data of
       None \<Rightarrow> Err (''account not found: '' @ accountID)
     | Some b \<Rightarrow> or_err ''json'' (unmarshal_account b))"

text \<open>\<open>strconv.ParseInt(strings.TrimSpace(s), 10, 64)\<close>.\<close>

definition parse_amount :: "string \<Rightarrow> (string, int64) res" where
  "parse_amount s = or_err ''strconv'' (ParseInt64 (TrimSpace s))"

type_synonym write_set = "(string, bytes) gomap"

definition sbReplayDepositChecking :: "StateDBAdapter \<Rightarrow> string list \<Rightarrow> (string, write_set) res" where
  "sbReplayDepositChecking db args =
     (if length args < 2 then Err ''DepositChecking requires 2 args''
      else
        rbind (parse_amount (args ! 1)) (\<lambda>amount.
        rbind (sbGetAccount db (args ! 0)) (\<lambda>acc.
        let acc = acc\<lparr>sb_Checking := sb_Checking acc + amount\<rparr>
        in Ok (go_map_of [(sbKey (args ! 0), sbMarshalAccount acc)]))))"

definition sbReplayTransactSavings :: "StateDBAdapter \<Rightarrow> string list \<Rightarrow> (string, write_set) res" where
  "sbReplayTransactSavings db args =
     (if length args < 2 then Err ''TransactSavings requires 2 args''
      else
        rbind (parse_amount (args ! 1)) (\<lambda>amount.
        rbind (sbGetAccount db (args ! 0)) (\<lambda>acc.
        if sint (sb_Savings acc + amount) < 0 then Err ''insufficient funds in savings''
        else
          let acc = acc\<lparr>sb_Savings := sb_Savings acc + amount\<rparr>
          in Ok (go_map_of [(sbKey (args ! 0), sbMarshalAccount acc)]))))"

definition sbReplayWriteCheck :: "StateDBAdapter \<Rightarrow> string list \<Rightarrow> (string, write_set) res" where
  "sbReplayWriteCheck db args =
     (if length args < 2 then Err ''WriteCheck requires 2 args''
      else
        rbind (parse_amount (args ! 1)) (\<lambda>amount.
        rbind (sbGetAccount db (args ! 0)) (\<lambda>acc.
        let acc =
          (if sint (sb_Checking acc + sb_Savings acc) < sint amount
           then acc\<lparr>sb_Checking := sb_Checking acc - (amount + 1)\<rparr>
           else acc\<lparr>sb_Checking := sb_Checking acc - amount\<rparr>)
        in Ok (go_map_of [(sbKey (args ! 0), sbMarshalAccount acc)]))))"

definition sbReplayAmalgamate :: "StateDBAdapter \<Rightarrow> string list \<Rightarrow> (string, write_set) res" where
  "sbReplayAmalgamate db args =
     (if length args < 2 then Err ''Amalgamate requires 2 args''
      else
        rbind (sbGetAccount db (args ! 0)) (\<lambda>src.
        rbind (sbGetAccount db (args ! 1)) (\<lambda>dst.
        let transfer = sb_Checking src + sb_Savings src;
            src = src\<lparr>sb_Checking := 0, sb_Savings := 0\<rparr>;
            dst = dst\<lparr>sb_Checking := sb_Checking dst + transfer\<rparr>
        in Ok (go_map_of [(sbKey (args ! 0), sbMarshalAccount src),
                          (sbKey (args ! 1), sbMarshalAccount dst)]))))"

definition sbReplaySendPayment :: "StateDBAdapter \<Rightarrow> string list \<Rightarrow> (string, write_set) res" where
  "sbReplaySendPayment db args =
     (if length args < 3 then Err ''SendPayment requires 3 args''
      else
        rbind (parse_amount (args ! 2)) (\<lambda>amount.
        rbind (sbGetAccount db (args ! 0)) (\<lambda>from.
        rbind (sbGetAccount db (args ! 1)) (\<lambda>to.
        if sint (sb_Checking from) < sint amount then Err ''insufficient funds in checking''
        else
          let from = from\<lparr>sb_Checking := sb_Checking from - amount\<rparr>;
              to = to\<lparr>sb_Checking := sb_Checking to + amount\<rparr>
          in Ok (go_map_of [(sbKey (args ! 0), sbMarshalAccount from),
                            (sbKey (args ! 1), sbMarshalAccount to)])))))"

definition sbReplayCreateAccount :: "StateDBAdapter \<Rightarrow> string list \<Rightarrow> (string, write_set) res" where
  "sbReplayCreateAccount db args =
     (if length args < 4 then Err ''CreateAccount requires 4 args''
      else
        rbind (parse_amount (args ! 2)) (\<lambda>checking.
        rbind (parse_amount (args ! 3)) (\<lambda>savings.
        let acc = \<lparr>sb_AccountID = args ! 0, sb_Name = args ! 1, sb_Checking = checking,
                   sb_Savings = savings\<rparr>
        in Ok (go_map_of [(sbKey (args ! 0), sbMarshalAccount acc)]))))"

definition replaySmallBank :: "StateDBAdapter \<Rightarrow> string \<Rightarrow> string list \<Rightarrow> (string, write_set) res" where
  "replaySmallBank db funcName args =
     (if funcName = ''DepositChecking'' then sbReplayDepositChecking db args
      else if funcName = ''TransactSavings'' then sbReplayTransactSavings db args
      else if funcName = ''WriteCheck'' then sbReplayWriteCheck db args
      else if funcName = ''Amalgamate'' then sbReplayAmalgamate db args
      else if funcName = ''SendPayment'' then sbReplaySendPayment db args
      else if funcName = ''CreateAccount'' then sbReplayCreateAccount db args
      else if funcName = ''Balance'' then Ok []
      else Err (''unsupported smallbank function: '' @ funcName))"

section \<open>YCSB\<close>

record ycsbValuePayload =
  yp_Value :: string

record ycsbRecord =
  yr_Key :: string
  yr_Value :: string

definition enc_ycsbRecord :: "ycsbRecord \<Rightarrow> jval" where
  "enc_ycsbRecord r = JObj [(''key'', JStr (yr_Key r)), (''value'', JStr (yr_Value r))]"

definition unmarshal_payload :: "bytes \<Rightarrow> ycsbValuePayload option" where
  "unmarshal_payload data =
     Option.bind (json_parse data) (\<lambda>v.
       dec_struct [''value''] (\<lambda>f v p. map_option (\<lambda>x. p\<lparr>yp_Value := x\<rparr>) (dec_string v (yp_Value p)))
         v \<lparr>yp_Value = []\<rparr>)"

definition ycsbNormalizeValue :: "string \<Rightarrow> string" where
  "ycsbNormalizeValue raw =
     (case unmarshal_payload raw of
        None \<Rightarrow> raw
      | Some payload \<Rightarrow> if yp_Value payload = '''' then raw else yp_Value payload)"

definition replayYCSB :: "StateDBAdapter \<Rightarrow> string \<Rightarrow> string list \<Rightarrow> (string, write_set) res" where
  "replayYCSB db funcName args =
     (if funcName = ''Insert'' \<or> funcName = ''Update'' then
        (if length args < 2 then Err (funcName @ '' requires at least 2 args (key, value)'')
         else
           let key = args ! 0;
               value = ycsbNormalizeValue (args ! 1);
               record = jprint (enc_ycsbRecord \<lparr>yr_Key = key, yr_Value = value\<rparr>)
           in Ok (go_map_of [(key, record)]))
      else if funcName = ''Read'' then Ok []
      else if funcName = ''Scan'' then Ok []
      else Err (''unsupported ycsb function: '' @ funcName))"

section \<open>Reads and writes stay within the intent\<close>

text \<open>Two adapters that read alike on some keys of a namespace.\<close>

definition reads_alike :: "string \<Rightarrow> string set \<Rightarrow> StateDBAdapter \<Rightarrow> StateDBAdapter \<Rightarrow> bool" where
  "reads_alike ns K a b \<longleftrightarrow> (\<forall>k \<in> K. adapter_GetState a ns k = adapter_GetState b ns k)"

lemma sbKey_eq: "sbKey = sbAccountKey"
  by (simp add: fun_eq_iff sbKey_def sbAccountKey_def)

lemma sbGetAccount_cong:
  "reads_alike ''smallbank'' K a b \<Longrightarrow> sbAccountKey i \<in> K \<Longrightarrow> sbGetAccount a i = sbGetAccount b i"
  by (simp add: sbGetAccount_def reads_alike_def sbKey_eq)

lemmas sb_replay_defs = sbReplayDepositChecking_def sbReplayTransactSavings_def sbReplayWriteCheck_def
  sbReplayAmalgamate_def sbReplaySendPayment_def sbReplayCreateAccount_def

lemma smallbank_keys_simps:
  "smallbank_keys ''Balance'' args = (if length args < 1 then None else Some ([sbAccountKey (args ! 0)], []))"
  "smallbank_keys ''CreateAccount'' args =
     (if length args < 4 then None else Some ([sbAccountKey (args ! 0)], [sbAccountKey (args ! 0)]))"
  "smallbank_keys ''DepositChecking'' args =
     (if length args < 2 then None else Some ([sbAccountKey (args ! 0)], [sbAccountKey (args ! 0)]))"
  "smallbank_keys ''TransactSavings'' args =
     (if length args < 2 then None else Some ([sbAccountKey (args ! 0)], [sbAccountKey (args ! 0)]))"
  "smallbank_keys ''WriteCheck'' args =
     (if length args < 2 then None else Some ([sbAccountKey (args ! 0)], [sbAccountKey (args ! 0)]))"
  "smallbank_keys ''Amalgamate'' args =
     (if length args < 2 then None
      else Some ([sbAccountKey (args ! 0), sbAccountKey (args ! 1)],
                 [sbAccountKey (args ! 0), sbAccountKey (args ! 1)]))"
  "smallbank_keys ''SendPayment'' args =
     (if length args < 3 then None
      else Some ([sbAccountKey (args ! 0), sbAccountKey (args ! 1)],
                 [sbAccountKey (args ! 0), sbAccountKey (args ! 1)]))"
  by (simp_all add: smallbank_keys_def Let_def)

lemma smallbank_keys_cases:
  assumes "smallbank_keys f args = Some (rks, wks)"
  obtains (Balance) "f = ''Balance''" "wks = []"
  | (CreateAccount) "f = ''CreateAccount''" "wks = [sbAccountKey (args ! 0)]"
  | (DepositChecking) "f = ''DepositChecking''" "rks = [sbAccountKey (args ! 0)]" "wks = rks"
  | (TransactSavings) "f = ''TransactSavings''" "rks = [sbAccountKey (args ! 0)]" "wks = rks"
  | (WriteCheck) "f = ''WriteCheck''" "rks = [sbAccountKey (args ! 0)]" "wks = rks"
  | (Amalgamate) "f = ''Amalgamate''" "rks = [sbAccountKey (args ! 0), sbAccountKey (args ! 1)]" "wks = rks"
  | (SendPayment) "f = ''SendPayment''" "rks = [sbAccountKey (args ! 0), sbAccountKey (args ! 1)]" "wks = rks"
proof -
  have "f \<in> {''Balance'', ''CreateAccount'', ''DepositChecking'', ''TransactSavings'', ''WriteCheck'',
      ''Amalgamate'', ''SendPayment''}"
  proof (rule ccontr)
    assume "\<not> ?thesis"
    then have "smallbank_keys f args = None" by (simp add: smallbank_keys_def)
    with assms show False by simp
  qed
  then show thesis
    by (elim insertE emptyE)
      (use assms that in \<open>simp_all add: smallbank_keys_simps split: if_split_asm, auto\<close>)
qed

text \<open>The dispatch, one equation per function.\<close>

lemma replaySmallBank_simps:
  "replaySmallBank a ''DepositChecking'' args = sbReplayDepositChecking a args"
  "replaySmallBank a ''TransactSavings'' args = sbReplayTransactSavings a args"
  "replaySmallBank a ''WriteCheck'' args = sbReplayWriteCheck a args"
  "replaySmallBank a ''Amalgamate'' args = sbReplayAmalgamate a args"
  "replaySmallBank a ''SendPayment'' args = sbReplaySendPayment a args"
  "replaySmallBank a ''CreateAccount'' args = sbReplayCreateAccount a args"
  "replaySmallBank a ''Balance'' args = Ok []"
  by (simp_all add: replaySmallBank_def)

lemma replaySmallBank_frame:
  assumes "smallbank_keys f args = Some (rks, wks)" and "reads_alike ''smallbank'' (set rks) a b"
  shows "replaySmallBank a f args = replaySmallBank b f args"
proof -
  have get: "sbAccountKey i \<in> set rks \<Longrightarrow> sbGetAccount a i = sbGetAccount b i" for i
    using assms(2) by (rule sbGetAccount_cong)
  from assms(1) show ?thesis
    by (cases rule: smallbank_keys_cases)
      (simp_all add: replaySmallBank_simps sb_replay_defs get cong: if_cong)
qed

definition writes_within :: "string set \<Rightarrow> write_set \<Rightarrow> bool" where
  "writes_within K ws \<longleftrightarrow> distinct (map fst ws) \<and> fst ` set ws \<subseteq> K"

lemma writes_within_go_map_of [simp]: "writes_within K (go_map_of ps) \<longleftrightarrow> fst ` set ps \<subseteq> K"
proof -
  have "dom (map_of (go_map_of ps)) = dom (map_of (rev ps))" by (simp add: map_of_go_map_of)
  then have "fst ` set (go_map_of ps) = fst ` set ps" by (simp add: dom_map_of_conv_image_fst)
  then show ?thesis by (simp add: writes_within_def distinct_go_map_of)
qed

lemma writes_within_Nil [simp]: "writes_within K []"
  by (simp add: writes_within_def)

lemma sb_writes:
  "sbReplayDepositChecking a args = Ok ws \<Longrightarrow> writes_within {sbAccountKey (args ! 0)} ws"
  "sbReplayTransactSavings a args = Ok ws \<Longrightarrow> writes_within {sbAccountKey (args ! 0)} ws"
  "sbReplayWriteCheck a args = Ok ws \<Longrightarrow> writes_within {sbAccountKey (args ! 0)} ws"
  "sbReplayAmalgamate a args = Ok ws \<Longrightarrow>
     writes_within {sbAccountKey (args ! 0), sbAccountKey (args ! 1)} ws"
  "sbReplaySendPayment a args = Ok ws \<Longrightarrow>
     writes_within {sbAccountKey (args ! 0), sbAccountKey (args ! 1)} ws"
  "sbReplayCreateAccount a args = Ok ws \<Longrightarrow> writes_within {sbAccountKey (args ! 0)} ws"
  by (auto simp: sb_replay_defs go_res Let_def sbKey_eq split: if_splits)

lemma replaySmallBank_writes:
  assumes "smallbank_keys f args = Some (rks, wks)" and "replaySmallBank a f args = Ok ws"
  shows "writes_within (set wks) ws"
  using assms(1)
  by (cases rule: smallbank_keys_cases)
    (use assms(2) sb_writes [of a args ws] in \<open>simp_all add: replaySmallBank_simps\<close>)

lemma replayYCSB_frame: "replayYCSB a f args = replayYCSB b f args"
  by (simp add: replayYCSB_def)

lemma replayYCSB_writes:
  assumes "ExtractYCSBIntent t c f args = Some i" and "replayYCSB a f args = Ok ws"
  shows "writes_within (set (ti_WriteKeys i)) ws"
proof (cases "f = ''Insert'' \<or> f = ''Update''")
  case True
  with assms show ?thesis
    by (elim disjE) (simp_all add: replayYCSB_def ExtractYCSBIntent_def Let_def split: if_splits, auto)
next
  case False
  with assms(2) have "ws = []" by (simp add: replayYCSB_def split: if_splits)
  then show ?thesis by simp
qed

text \<open>Replay never panics on a database that does not.\<close>

lemma sbGetAccount_not_Panic:
  "ad_db a ''smallbank'' (sbKey i) \<noteq> Panic \<Longrightarrow> sbGetAccount a i \<noteq> Panic"
  by (auto simp: sbGetAccount_def adapter_GetState_def go_res split: option.splits)

lemma replaySmallBank_not_Panic:
  assumes "\<And>k. ad_db a ''smallbank'' k \<noteq> Panic"
  shows "replaySmallBank a f args \<noteq> Panic"
proof -
  have "sbReplayDepositChecking a args \<noteq> Panic" "sbReplayTransactSavings a args \<noteq> Panic"
    "sbReplayWriteCheck a args \<noteq> Panic" "sbReplayAmalgamate a args \<noteq> Panic"
    "sbReplaySendPayment a args \<noteq> Panic" "sbReplayCreateAccount a args \<noteq> Panic"
    using sbGetAccount_not_Panic [OF assms]
    by (auto simp: sb_replay_defs parse_amount_def go_res Let_def split: if_splits)
  then show ?thesis by (simp add: replaySmallBank_def)
qed

lemma replayYCSB_not_Panic: "replayYCSB a f args \<noteq> Panic"
  by (simp add: replayYCSB_def Let_def)

section \<open>Accounts\<close>

definition utf8_account :: "sbAccountRecord \<Rightarrow> bool" where
  "utf8_account acc \<longleftrightarrow> valid_utf8 (sb_AccountID acc) \<and> valid_utf8 (sb_Name acc)"

lemma unmarshal_sbMarshalAccount:
  assumes "utf8_account acc"
  shows "unmarshal_account (sbMarshalAccount acc) = Some acc"
proof -
  have "wf_json (enc_account acc)"
    using assms by (auto simp: enc_account_def utf8_account_def byte_in_def intro!: valid_utf8_ascii)
  from json_parse_print [OF this] show ?thesis
    by (simp add: unmarshal_account_def sbMarshalAccount_def)
      (simp add: enc_account_def dec_struct_def set_account_def zero_account_def)
qed

definition total :: "sbAccountRecord \<Rightarrow> int64" where
  "total acc = sb_Checking acc + sb_Savings acc"

lemma send_payment_Ok:
  assumes "sbReplaySendPayment db [a, b, m] = Ok ws"
  obtains amount src dst where "parse_amount m = Ok amount" "sbGetAccount db a = Ok src"
    "sbGetAccount db b = Ok dst" "\<not> sint (sb_Checking src) < sint amount"
    "ws = go_map_of [(sbKey a, sbMarshalAccount (src\<lparr>sb_Checking := sb_Checking src - amount\<rparr>)),
                     (sbKey b, sbMarshalAccount (dst\<lparr>sb_Checking := sb_Checking dst + amount\<rparr>))]"
  using assms by (auto simp: sbReplaySendPayment_def go_res Let_def numeral_2_eq_2 split: if_splits)

section \<open>Properties\<close>


text \<open>A payment of an account to itself is not refused and leaves the account with the amount
  added: the later entry of the write set replaces the debit.\<close>

theorem self_payment_creates_money:
  assumes "sbKey a = sbKey b" and "sbGetAccount db b = Ok acc" and "parse_amount m = Ok amount"
    and "sbReplaySendPayment db [a, b, m] = Ok ws"
  shows "map_of ws (sbKey a) = Some (sbMarshalAccount (acc\<lparr>sb_Checking := sb_Checking acc + amount\<rparr>))"
  using assms(4)
proof (rule send_payment_Ok)
  fix amount1 src1 dst1
  assume "parse_amount m = Ok amount1" "sbGetAccount db a = Ok src1" "sbGetAccount db b = Ok dst1"
    "ws = go_map_of [(sbKey a, sbMarshalAccount (src1\<lparr>sb_Checking := sb_Checking src1 - amount1\<rparr>)),
                     (sbKey b, sbMarshalAccount (dst1\<lparr>sb_Checking := sb_Checking dst1 + amount1\<rparr>))]"
  with assms show ?thesis by (simp add: map_of_go_map_of)
qed

text \<open>A database with accounts \<open>x\<close> and \<open>y\<close>, ten units each.\<close>

definition sample_account :: "string \<Rightarrow> sbAccountRecord" where
  "sample_account i = \<lparr>sb_AccountID = i, sb_Name = ''n'', sb_Checking = 10, sb_Savings = 0\<rparr>"

definition sample_adapter :: StateDBAdapter where
  "sample_adapter = NewStateDBAdapter (\<lambda>ns k.
     if ns = ''smallbank'' \<and> k \<in> {''account:x'', ''account:y''}
     then Ok (Some \<lparr>vv_Value = Some (sbMarshalAccount (sample_account (drop 8 k))), vv_Version = Height 1 0\<rparr>)
     else Ok None) 5 3"

lemma TrimSpace_xy: "TrimSpace ''x'' = ''x''" "TrimSpace ''y'' = ''y''" "TrimSpace ''4'' = ''4''"
  by (simp_all add: TrimSpace_def strip_seqs.simps space_seqs_def has_prefix_def)

lemma sample_get: "i \<in> {''x'', ''y''} \<Longrightarrow> sbGetAccount sample_adapter i = Ok (sample_account i)"
proof -
  assume i: "i \<in> {''x'', ''y''}"
  then have "utf8_account (sample_account i)"
    by (auto simp: utf8_account_def sample_account_def byte_in_def intro!: valid_utf8_ascii)
  from unmarshal_sbMarshalAccount [OF this] i show ?thesis
    by (auto simp: sbGetAccount_def adapter_GetState_def sample_adapter_def NewStateDBAdapter_def
        sbKey_def TrimSpace_xy batch.get_empty)
qed

lemma sample_amount: "parse_amount ''4'' = Ok 4"
  by (simp add: parse_amount_def TrimSpace_xy ParseInt64_def ParseInt_def ParseUint_def is_digit_def
      digits_val_def digit_val_def less_eq_char_def)

lemma sample_payment: "\<exists>ws. sbReplaySendPayment sample_adapter [''x'', i, ''4''] = Ok ws" if "i \<in> {''x'', ''y''}" for i
  using that sample_get [of "''x''"] sample_get [of i]
  by (auto simp: sbReplaySendPayment_def sample_amount numeral_2_eq_2 sample_account_def)


theorem self_payment_creates_money_witness:
  "\<exists>ws. sbReplaySendPayment sample_adapter [''x'', ''x'', ''4''] = Ok ws \<and>
     map_of ws ''account:x'' = Some (sbMarshalAccount ((sample_account ''x'')\<lparr>sb_Checking := 14\<rparr>))"
proof -
  obtain ws where "sbReplaySendPayment sample_adapter [''x'', ''x'', ''4''] = Ok ws"
    using sample_payment by auto
  with self_payment_creates_money [of "''x''" "''x''" sample_adapter "sample_account ''x''" "''4''" 4 ws]
  show ?thesis
    by (auto simp: sample_get sample_amount sbKey_def TrimSpace_xy sample_account_def)
qed

end
