(* ===== verification/Conflict_Graph.thy ===== *)
theory Conflict_Graph
  imports Intent
begin

text \<open>
  The conflict graph of a block's benchmark transactions and its greedy colouring
  (\<open>orderer/bench/graph.go\<close>). Nodes are transaction ids, an edge joins two transactions whose
  hypercubes intersect, a colour is a batch number.
\<close>

section \<open>Conflicts\<close>

definition intersects :: "KeyInterval \<Rightarrow> KeyInterval \<Rightarrow> bool" where
  "intersects a b =
     (if \<not> iv_IsRange a \<and> \<not> iv_IsRange b then iv_Start a = iv_Start b
      else
        let aEnd = (if \<not> iv_IsRange a then iv_Start a @ [CHR 0x00] else iv_End a);
            bEnd = (if \<not> iv_IsRange b then iv_Start b @ [CHR 0x00] else iv_End b)
        in iv_Start a < bEnd \<and> iv_Start b < aEnd)"

definition txsConflict :: "TxIntent \<Rightarrow> TxIntent \<Rightarrow> bool" where
  "txsConflict a b \<longleftrightarrow>
     list_ex (\<lambda>wi.
         list_ex (\<lambda>rj. intersects wi rj) (hc_ReadIntervals (ti_Hypercube b)) \<or>
         list_ex (\<lambda>wj. intersects wi wj) (hc_WriteIntervals (ti_Hypercube b)))
       (hc_WriteIntervals (ti_Hypercube a)) \<or>
     list_ex (\<lambda>wj.
         list_ex (\<lambda>ri. intersects wj ri) (hc_ReadIntervals (ti_Hypercube a)))
       (hc_WriteIntervals (ti_Hypercube b))"

text \<open>The keys an interval stands for.\<close>

definition interval_keys :: "KeyInterval \<Rightarrow> string set" where
  "interval_keys a = (if iv_IsRange a then {k. iv_Start a \<le> k \<and> k < iv_End a} else {iv_Start a})"

lemma intersects_sym: "intersects a b = intersects b a"
  by (auto simp: intersects_def)

lemma txsConflict_sym: "txsConflict a b = txsConflict b a"
  unfolding txsConflict_def list_ex_iff using intersects_sym by blast

lemma intersects_complete:
  assumes "k \<in> interval_keys a" and "k \<in> interval_keys b"
  shows "intersects a b"
  using assms
  by (auto simp: intersects_def interval_keys_def less_append_zero Let_def split: if_splits)

lemma intersects_point: "\<not> iv_IsRange a \<Longrightarrow> \<not> iv_IsRange b \<Longrightarrow>
    intersects a b \<longleftrightarrow> interval_keys a \<inter> interval_keys b \<noteq> {}"
  by (auto simp: intersects_def interval_keys_def)

lemma intersects_sound:
  assumes "intersects a b" and "interval_keys a \<noteq> {}" and "interval_keys b \<noteq> {}"
  shows "interval_keys a \<inter> interval_keys b \<noteq> {}"
proof (cases "iv_IsRange a \<and> iv_IsRange b")
  case True
  with assms(2,3) have "iv_Start a < iv_End a" "iv_Start b < iv_End b"
    by (auto simp: interval_keys_def)
  moreover from True assms(1) have "iv_Start a < iv_End b" "iv_Start b < iv_End a"
    by (auto simp: intersects_def)
  ultimately have "max (iv_Start a) (iv_Start b) \<in> interval_keys a \<inter> interval_keys b"
    using True by (auto simp: interval_keys_def max_def)
  then show ?thesis by blast
next
  case False
  with assms(1) show ?thesis
    by (auto simp: intersects_def interval_keys_def less_append_zero Let_def split: if_splits)
qed

text \<open>
  For the point hypercubes of well-formed intents a conflict is a shared written key.
\<close>

lemma no_conflict_keys:
  assumes "wf_intent a" and "wf_intent b" and "\<not> txsConflict a b"
  shows "set (ti_WriteKeys a) \<inter> set (ti_ReadKeys b) = {}"
proof -
  have "txsConflict a b" if "k \<in> set (ti_WriteKeys a)" "k \<in> set (ti_ReadKeys b)" for k
  proof -
    from that(2) assms(2) have "point_interval k \<in> set (hc_ReadIntervals (ti_Hypercube b))"
      by (simp add: wf_intent_def)
    moreover from that(1) assms(1) have "point_interval k \<in> set (hc_WriteIntervals (ti_Hypercube a))"
      by (simp add: wf_intent_def)
    moreover have "intersects (point_interval k) (point_interval k)"
      by (simp add: intersects_def point_interval_def)
    ultimately show ?thesis
      by (auto simp: txsConflict_def list_ex_iff)
  qed
  with assms(3) show ?thesis by blast
qed

section \<open>The graph\<close>

record ConflictGraph =
  cg_Nodes :: "string list"
  cg_Edges :: "(string, string list) gomap"

record ColorAssignment =
  col_TxToColor :: "(string, nat) gomap"
  col_NumColors :: "nat"

text \<open>The inner loop, over the transactions after \<open>i\<close>.\<close>

fun link_later :: "TxIntent \<Rightarrow> TxIntent list \<Rightarrow> (string, string list) gomap \<Rightarrow>
    (string, string list) gomap" where
  "link_later i [] E = E"
| "link_later i (j # js) E =
     link_later i js
       (if txsConflict i j
        then append_at (ti_TxID j) (ti_TxID i) (append_at (ti_TxID i) (ti_TxID j) E)
        else E)"

text \<open>The outer loop.\<close>

fun link_all :: "TxIntent list \<Rightarrow> (string, string list) gomap \<Rightarrow> (string, string list) gomap" where
  "link_all [] E = E"
| "link_all (i # is) E = link_all is (link_later i is E)"

definition buildConflictGraph :: "TxIntent list \<Rightarrow> ConflictGraph" where
  "buildConflictGraph intents =
     \<lparr>cg_Nodes = map ti_TxID intents, cg_Edges = link_all intents []\<rparr>"

lemma set_link_later:
  "set (get_list (link_later i js E) a) = set (get_list E a) \<union>
     {b. \<exists>j \<in> set js. txsConflict i j \<and>
        (a = ti_TxID i \<and> b = ti_TxID j \<or> a = ti_TxID j \<and> b = ti_TxID i)}"
  by (induction js arbitrary: E) (auto simp: get_list_append_at)

lemma pair_subset_add_mset:
  "{#i, j#} \<subseteq># add_mset x M \<longleftrightarrow>
     {#i, j#} \<subseteq># M \<or> i = x \<and> j \<in># M \<or> j = x \<and> i \<in># M"
  by (auto simp: insert_subset_eq_iff in_diff_count split: if_splits)

lemma ex_pair_cases:
  "(\<exists>i j. (P i j \<or> i = x \<and> j \<in># M \<or> j = x \<and> i \<in># M) \<and> Q i j) \<longleftrightarrow>
     (\<exists>i j. P i j \<and> Q i j) \<or> (\<exists>j \<in># M. Q x j) \<or> (\<exists>i \<in># M. Q i x)"
  by blast

lemma set_link_all:
  "set (get_list (link_all is E) a) = set (get_list E a) \<union>
     {b. \<exists>i j. {#i, j#} \<subseteq># mset is \<and> ti_TxID i = a \<and> ti_TxID j = b \<and> txsConflict i j}"
proof (induction "is" arbitrary: E)
  case Nil
  then show ?case by simp
next
  case (Cons x xs)
  have sym: "txsConflict i x = txsConflict x i" for i by (rule txsConflict_sym)
  show ?case
    by (rule set_eqI, simp only: link_all.simps Cons.IH set_link_later mset.simps
        pair_subset_add_mset ex_pair_cases Un_iff mem_Collect_eq, simp only: set_mset_mset sym)
      blast
qed

lemma buildConflictGraph_edge:
  "b \<in> set (get_list (cg_Edges (buildConflictGraph is)) a) \<longleftrightarrow>
     (\<exists>i j. {#i, j#} \<subseteq># mset is \<and> ti_TxID i = a \<and> ti_TxID j = b \<and> txsConflict i j)"
  by (simp add: buildConflictGraph_def set_link_all)

section \<open>Greedy colouring\<close>

text \<open>\<open>c := 0; for usedColors[c] \{ c++ \}\<close>, from \<open>c\<close> on.\<close>

function first_free :: "nat list \<Rightarrow> nat \<Rightarrow> nat" where
  "first_free used c = (if c \<in> set used then first_free used (Suc c) else c)"
  by pat_completeness auto
termination
proof (relation "measure (\<lambda>(used, c). card {x \<in> set used. c \<le> x})")
  fix used :: "nat list" and c
  assume "c \<in> set used"
  then have "c \<in> {x \<in> set used. c \<le> x}" by simp
  moreover have "c \<notin> {x \<in> set used. Suc c \<le> x}" by simp
  moreover have "{x \<in> set used. Suc c \<le> x} \<subseteq> {x \<in> set used. c \<le> x}" by auto
  ultimately have "{x \<in> set used. Suc c \<le> x} \<subset> {x \<in> set used. c \<le> x}" by blast
  then show "((used, Suc c), (used, c)) \<in> measure (\<lambda>(used, c). card {x \<in> set used. c \<le> x})"
    by (simp add: psubset_card_mono)
qed simp

declare first_free.simps [simp del]

text \<open>One iteration of the loop over the sorted ids, with the neighbours given as a function.\<close>

definition color_step ::
    "('v \<Rightarrow> 'v list) \<Rightarrow> 'v \<Rightarrow> ('v, nat) gomap \<times> nat \<Rightarrow> ('v, nat) gomap \<times> nat" where
  "color_step nbrs txID st =
     (let (color, maxColor) = st;
          usedColors = List.map_filter (map_of color) (nbrs txID);
          c = first_free usedColors 0
      in (AList.update txID c color, if c > maxColor then c else maxColor))"

definition greedyGraphColoring :: "ConflictGraph \<Rightarrow> ColorAssignment" where
  "greedyGraphColoring graph =
     (let sorted = sort_Strings (cg_Nodes graph);
          (color, maxColor) = fold (color_step (get_list (cg_Edges graph))) sorted ([], 0);
          numColors = (if length sorted > 0 then maxColor + 1 else 0)
      in \<lparr>col_TxToColor = color, col_NumColors = numColors\<rparr>)"

lemma first_free_spec:
  "first_free used c \<notin> set used \<and> c \<le> first_free used c \<and>
   (\<forall>d. c \<le> d \<and> d < first_free used c \<longrightarrow> d \<in> set used)"
proof (induction used c rule: first_free.induct)
  case (1 used c)
  show ?case
  proof (cases "c \<in> set used")
    case True
    with 1 have *: "first_free used c \<notin> set used" "Suc c \<le> first_free used c"
      "\<And>d. Suc c \<le> d \<Longrightarrow> d < first_free used c \<Longrightarrow> d \<in> set used"
      by (simp_all add: first_free.simps [of used c])
    with True have "d \<in> set used" if "c \<le> d" "d < first_free used c" for d
      using that by (cases "d = c") auto
    with * show ?thesis by auto
  qed (auto simp: first_free.simps [of used c])
qed

lemma first_free_unused: "first_free used c \<notin> set used"
  using first_free_spec by blast

lemma first_free_below: "d < first_free used 0 \<Longrightarrow> d \<in> set used"
  using first_free_spec [of used 0] by auto

lemma first_free_cong: "set used = set used' \<Longrightarrow> first_free used 0 = first_free used' 0"
  using first_free_unused first_free_below by (metis linorder_neqE_nat)

lemma first_free_bound: "first_free used 0 \<le> card (set used)"
proof -
  have "{..<first_free used 0} \<subseteq> set used" using first_free_below by auto
  then have "card {..<first_free used 0} \<le> card (set used)" by (rule card_mono [OF finite_set])
  then show ?thesis by simp
qed

lemma set_map_filter [simp]: "set (List.map_filter f xs) = {y. \<exists>x \<in> set xs. f x = Some y}"
  by (induction xs) (auto simp: List.map_filter_def)

definition fold_color :: "('v \<Rightarrow> 'v list) \<Rightarrow> 'v list \<Rightarrow> ('v, nat) gomap \<times> nat" where
  "fold_color nbrs ts = fold (color_step nbrs) ts ([], 0)"

lemma fold_color_Nil [simp]: "fold_color nbrs [] = ([], 0)"
  by (simp add: fold_color_def)

lemma fold_color_snoc: "fold_color nbrs (ts @ [t]) = color_step nbrs t (fold_color nbrs ts)"
  by (simp add: fold_color_def)

abbreviation color_of :: "('v \<Rightarrow> 'v list) \<Rightarrow> 'v list \<Rightarrow> 'v \<Rightarrow> nat option" where
  "color_of nbrs ts \<equiv> map_of (fst (fold_color nbrs ts))"

text \<open>The colour the next node gets, and the colours after it.\<close>

abbreviation next_color :: "('v \<Rightarrow> 'v list) \<Rightarrow> 'v list \<Rightarrow> 'v \<Rightarrow> nat" where
  "next_color nbrs ts t \<equiv> first_free (List.map_filter (color_of nbrs ts) (nbrs t)) 0"

lemma color_of_snoc:
  "color_of nbrs (ts @ [t]) a = (if a = t then Some (next_color nbrs ts t) else color_of nbrs ts a)"
  by (auto simp: fold_color_snoc color_step_def Let_def split: prod.split)

lemma max_color_snoc:
  "snd (fold_color nbrs (ts @ [t])) = max (snd (fold_color nbrs ts)) (next_color nbrs ts t)"
  by (auto simp: fold_color_snoc color_step_def max_def Let_def split: prod.split)

lemma color_of_dom: "color_of nbrs ts a \<noteq> None \<longleftrightarrow> a \<in> set ts"
  by (induction ts rule: rev_induct) (auto simp: color_of_snoc)

lemma color_of_le_max: "color_of nbrs ts a = Some c \<Longrightarrow> c \<le> snd (fold_color nbrs ts)"
  by (induction ts rule: rev_induct)
    (auto simp: color_of_snoc max_color_snoc split: if_splits)

lemma next_color_fresh:
  "b \<in> set (nbrs t) \<Longrightarrow> color_of nbrs ts b = Some d \<Longrightarrow> next_color nbrs ts t \<noteq> d"
  using first_free_unused [of "List.map_filter (color_of nbrs ts) (nbrs t)" 0] by auto

lemma next_color_degree: "next_color nbrs ts t \<le> card (set (nbrs t))"
proof -
  let ?used = "List.map_filter (color_of nbrs ts) (nbrs t)"
  have "set ?used \<subseteq> (\<lambda>b. the (color_of nbrs ts b)) ` set (nbrs t)"
    by (auto intro!: image_eqI)
  then have "card (set ?used) \<le> card (set (nbrs t))"
    by (meson List.finite_set card_image_le card_mono finite_imageI le_trans)
  with first_free_bound [of ?used] show ?thesis by simp
qed

lemma color_of_degree: "color_of nbrs ts a = Some c \<Longrightarrow> c \<le> card (set (nbrs a))"
  by (induction ts rule: rev_induct)
    (auto simp: color_of_snoc next_color_degree split: if_splits)

lemma max_color_attained:
  "distinct ts \<Longrightarrow> ts \<noteq> [] \<Longrightarrow> \<exists>a \<in> set ts. color_of nbrs ts a = Some (snd (fold_color nbrs ts))"
proof (induction ts rule: rev_induct)
  case Nil
  then show ?case by simp
next
  case (snoc t ts)
  show ?case
  proof (cases "snd (fold_color nbrs ts) \<le> next_color nbrs ts t")
    case True
    then show ?thesis by (auto simp: color_of_snoc max_color_snoc max_def)
  next
    case False
    then have "ts \<noteq> []" by auto
    with snoc obtain a where "a \<in> set ts" "color_of nbrs ts a = Some (snd (fold_color nbrs ts))"
      by auto
    with False snoc.prems show ?thesis
      by (intro bexI [of _ a]) (auto simp: color_of_snoc max_color_snoc max_def)
  qed
qed

text \<open>Every smaller colour is already taken by a neighbour: the colouring has no gaps.\<close>

lemma color_of_gapless:
  "distinct ts \<Longrightarrow> color_of nbrs ts a = Some c \<Longrightarrow> d < c \<Longrightarrow>
     \<exists>b \<in> set (nbrs a). b \<noteq> a \<and> color_of nbrs ts b = Some d"
proof (induction ts rule: rev_induct)
  case Nil
  then show ?case by simp
next
  case (snoc t ts)
  then have "t \<notin> set ts" by simp
  then have t: "color_of nbrs ts t = None" using color_of_dom by metis
  show ?case
  proof (cases "a = t")
    case True
    with snoc.prems have "d < next_color nbrs ts t" by (simp add: color_of_snoc)
    then have "d \<in> set (List.map_filter (color_of nbrs ts) (nbrs t))" by (rule first_free_below)
    then obtain b where "b \<in> set (nbrs t)" "color_of nbrs ts b = Some d" by auto
    with t True show ?thesis
      by (intro bexI [of _ b]) (auto simp: color_of_snoc)
  next
    case False
    with snoc obtain b where "b \<in> set (nbrs a)" "b \<noteq> a" "color_of nbrs ts b = Some d"
      by (auto simp: color_of_snoc)
    with t show ?thesis
      by (intro bexI [of _ b]) (auto simp: color_of_snoc)
  qed
qed

text \<open>Only the sets of neighbours matter, not the order the edges were added in.\<close>

lemma fold_color_cong:
  assumes "\<And>t. set (nbrs t) = set (nbrs' t)"
  shows "fold_color nbrs ts = fold_color nbrs' ts"
proof (induction ts rule: rev_induct)
  case (snoc t ts)
  have "next_color nbrs ts t = next_color nbrs' ts t"
    by (rule first_free_cong) (simp add: snoc assms)
  with snoc show ?case
    by (auto simp: fold_color_snoc color_step_def Let_def split: prod.split)
qed simp

section \<open>The colouring is proper\<close>

text \<open>
  What the colouring needs from the graph: adjacency is symmetric. The graph's builder provides
  it, because it records every conflict on both ends.
\<close>

locale sym_graph =
  fixes nbrs :: "'v \<Rightarrow> 'v list"
  assumes nbrs_sym: "b \<in> set (nbrs a) \<Longrightarrow> a \<in> set (nbrs b)"
begin

lemma color_proper:
  "color_of nbrs ts a = Some c \<Longrightarrow> color_of nbrs ts b = Some d \<Longrightarrow>
     b \<in> set (nbrs a) \<Longrightarrow> a \<noteq> b \<Longrightarrow> c \<noteq> d"
proof (induction ts rule: rev_induct)
  case Nil
  then show ?case by simp
next
  case (snoc t ts)
  show ?case
  proof (cases "a = t \<or> b = t")
    case True
    with snoc.prems show ?thesis
      using next_color_fresh [of b nbrs a ts d] next_color_fresh [of a nbrs b ts c] nbrs_sym
      by (auto simp: color_of_snoc)
  next
    case False
    with snoc show ?thesis by (simp add: color_of_snoc)
  qed
qed

end

interpretation conflict_graph: sym_graph
  "get_list (cg_Edges (buildConflictGraph is))" for "is"
proof unfold_locales
  fix a b
  assume "b \<in> set (get_list (cg_Edges (buildConflictGraph is)) a)"
  then show "a \<in> set (get_list (cg_Edges (buildConflictGraph is)) b)"
    unfolding buildConflictGraph_edge by (metis add_mset_commute txsConflict_sym)
qed

lemma greedyGraphColoring_eq:
  "greedyGraphColoring g =
     \<lparr>col_TxToColor = fst (fold_color (get_list (cg_Edges g)) (sort_Strings (cg_Nodes g))),
      col_NumColors = (if cg_Nodes g = [] then 0
        else Suc (snd (fold_color (get_list (cg_Edges g)) (sort_Strings (cg_Nodes g)))))\<rparr>"
  by (simp add: greedyGraphColoring_def fold_color_def Let_def split: prod.split)
    (metis length_0_conv length_sort_Strings)

text \<open>The colouring of a block's intents.\<close>

definition coloring_of :: "TxIntent list \<Rightarrow> ColorAssignment" where
  "coloring_of is = greedyGraphColoring (buildConflictGraph is)"

lemma coloring_of_dom: "map_of (col_TxToColor (coloring_of is)) t \<noteq> None \<longleftrightarrow> t \<in> ti_TxID ` set is"
  by (simp only: coloring_of_def greedyGraphColoring_eq ColorAssignment.simps color_of_dom)
    (simp add: buildConflictGraph_def)

lemma coloring_of_less:
  assumes "map_of (col_TxToColor (coloring_of is)) t = Some c"
  shows "c < col_NumColors (coloring_of is)"
proof -
  from assms coloring_of_dom [of "is" t] have "is \<noteq> []" by auto
  with assms show ?thesis
    by (auto simp: coloring_of_def greedyGraphColoring_eq less_Suc_eq_le buildConflictGraph_def
        dest: color_of_le_max)
qed

text \<open>Conflicting transactions with different ids get different colours.\<close>

lemma coloring_of_proper:
  assumes "{#i, j#} \<subseteq># mset is" and "txsConflict i j" and "ti_TxID i \<noteq> ti_TxID j"
  shows "map_of (col_TxToColor (coloring_of is)) (ti_TxID i) \<noteq>
    map_of (col_TxToColor (coloring_of is)) (ti_TxID j)"
proof -
  have mem: "i \<in> set is" "j \<in> set is"
    using assms(1) by (auto dest: mset_subset_eqD)
  then obtain c d where cd: "map_of (col_TxToColor (coloring_of is)) (ti_TxID i) = Some c"
    "map_of (col_TxToColor (coloring_of is)) (ti_TxID j) = Some d"
    using coloring_of_dom [of "is"] by (metis imageI option.exhaust)
  have "ti_TxID j \<in> set (get_list (cg_Edges (buildConflictGraph is)) (ti_TxID i))"
    unfolding buildConflictGraph_edge using assms by blast
  with cd assms(3) show ?thesis
    using conflict_graph.color_proper
    by (fastforce simp: coloring_of_def greedyGraphColoring_eq)
qed

section \<open>Properties\<close>

text \<open>The interval test that decides conflicts is exact: two non-empty intervals, points or
  half-open ranges, intersect exactly when some key lies in both.\<close>

theorem intersects_exact:
  assumes "interval_keys a \<noteq> {}" and "interval_keys b \<noteq> {}"
  shows "intersects a b \<longleftrightarrow> interval_keys a \<inter> interval_keys b \<noteq> {}"
  using intersects_sound [OF _ assms] intersects_complete by blast

theorem intersects_exact_witness:
  "interval_keys \<lparr>iv_Start = ''a'', iv_End = ''c'', iv_IsRange = True\<rparr> \<noteq> {} \<and>
   interval_keys (point_interval ''b'') \<noteq> {} \<and>
   interval_keys \<lparr>iv_Start = ''a'', iv_End = ''c'', iv_IsRange = True\<rparr> \<inter>
     interval_keys (point_interval ''b'') \<noteq> {}"
proof -
  let ?r = "\<lparr>iv_Start = ''a'', iv_End = ''c'', iv_IsRange = True\<rparr>"
  have ne: "interval_keys ?r \<noteq> {}" "interval_keys (point_interval ''b'') \<noteq> {}"
    by (auto simp: interval_keys_def point_interval_def less_char_def intro: exI [of _ "''b''"])
  moreover have "intersects ?r (point_interval ''b'')"
    by (simp add: intersects_def point_interval_def less_char_def)
  ultimately show ?thesis using intersects_exact [of ?r "point_interval ''b''"] by blast
qed

end
