(* ===== verification/Schedule.thy ===== *)
theory Schedule
  imports Conflict_Graph Json
begin

text \<open>
  The batch schedule: \<open>BatchSchedule\<close> with \<open>AllTxIDs\<close> and \<open>ParseBatchSchedule\<close> of
  \<open>core/bench/types.go\<close>, and \<open>AnalyzeBatchAndSchedule\<close> with \<open>buildBatchSchedule\<close> of
  \<open>orderer/bench/analyzer.go\<close>. The lemmas show that a schedule lists every benchmark transaction
  of the block exactly once, that a batch holds no two conflicting transactions, that the batch
  ids count up from 0 without a gap, that the order of equal blocks does not matter to the
  colouring, and that the committer reads the schedule that the orderer wrote.
\<close>

section \<open>Data\<close>

record BatchEntry =
  be_BatchID :: int64
  be_TxIDs :: "string list"

record BatchSchedule =
  bs_BlockNumber :: uint64
  bs_Batches :: "BatchEntry list"
  bs_Version :: string

definition AllTxIDs :: "BatchSchedule \<Rightarrow> (string, bool) gomap" where
  "AllTxIDs s =
     fold (\<lambda>entry set. fold (\<lambda>txID. AList.update txID True) (be_TxIDs entry) set) (bs_Batches s) []"

section \<open>Building a schedule\<close>

text \<open>\<open>coloring.TxToColor[intent.TxID]\<close>: 0 for an id without a colour.\<close>

definition tx_color :: "ColorAssignment \<Rightarrow> TxIntent \<Rightarrow> nat" where
  "tx_color coloring intent =
     (case map_of (col_TxToColor coloring) (ti_TxID intent) of None \<Rightarrow> 0 | Some c \<Rightarrow> c)"

definition buildBatchSchedule :: "uint64 \<Rightarrow> TxIntent list \<Rightarrow> ColorAssignment \<Rightarrow> BatchSchedule" where
  "buildBatchSchedule blockNum intents coloring =
     (let batches = fold (\<lambda>intent. append_at (tx_color coloring intent) (ti_TxID intent)) intents [];
          entries = List.map_filter
            (\<lambda>i. map_option (\<lambda>txIDs. \<lparr>be_BatchID = of_nat i, be_TxIDs = txIDs\<rparr>) (map_of batches i))
            [0 ..< col_NumColors coloring]
      in \<lparr>bs_BlockNumber = blockNum, bs_Batches = entries, bs_Version = ''v1''\<rparr>)"

section \<open>JSON\<close>

definition enc_BatchEntry :: "BatchEntry \<Rightarrow> jval" where
  "enc_BatchEntry e =
     JObj [(''batch_id'', enc_int64 (be_BatchID e)), (''tx_ids'', JArr (map JStr (be_TxIDs e)))]"

definition enc_BatchSchedule :: "BatchSchedule \<Rightarrow> jval" where
  "enc_BatchSchedule s =
     JObj [(''block_number'', enc_uint64 (bs_BlockNumber s)),
           (''batches'', JArr (map enc_BatchEntry (bs_Batches s))),
           (''version'', JStr (bs_Version s))]"

definition set_BatchEntry :: "string \<Rightarrow> jval \<Rightarrow> BatchEntry \<Rightarrow> BatchEntry option" where
  "set_BatchEntry f v e =
     (if f = ''batch_id'' then map_option (\<lambda>x. e\<lparr>be_BatchID := x\<rparr>) (dec_int64 v (be_BatchID e))
      else map_option (\<lambda>x. e\<lparr>be_TxIDs := x\<rparr>) (dec_slice dec_string [] v))"

definition dec_BatchEntry :: "jval \<Rightarrow> BatchEntry \<Rightarrow> BatchEntry option" where
  "dec_BatchEntry = dec_struct [''batch_id'', ''tx_ids''] set_BatchEntry"

definition zero_BatchEntry :: BatchEntry where
  "zero_BatchEntry = \<lparr>be_BatchID = 0, be_TxIDs = []\<rparr>"

definition set_BatchSchedule :: "string \<Rightarrow> jval \<Rightarrow> BatchSchedule \<Rightarrow> BatchSchedule option" where
  "set_BatchSchedule f v s =
     (if f = ''block_number''
      then map_option (\<lambda>x. s\<lparr>bs_BlockNumber := x\<rparr>) (dec_uint64 v (bs_BlockNumber s))
      else if f = ''batches''
      then map_option (\<lambda>x. s\<lparr>bs_Batches := x\<rparr>) (dec_slice dec_BatchEntry zero_BatchEntry v)
      else map_option (\<lambda>x. s\<lparr>bs_Version := x\<rparr>) (dec_string v (bs_Version s)))"

definition marshal_BatchSchedule :: "BatchSchedule \<Rightarrow> bytes" where
  "marshal_BatchSchedule s = jprint (enc_BatchSchedule s)"

definition unmarshal_BatchSchedule :: "bytes \<Rightarrow> BatchSchedule option" where
  "unmarshal_BatchSchedule data =
     Option.bind (json_parse data) (\<lambda>v.
       dec_struct [''block_number'', ''batches'', ''version''] set_BatchSchedule v
         \<lparr>bs_BlockNumber = 0, bs_Batches = [], bs_Version = []\<rparr>)"

section \<open>The orderer's side and the committer's side\<close>

text \<open>\<open>Ok None\<close> is the nil result for a block without benchmark transactions.\<close>

definition AnalyzeBatchAndSchedule :: "codec \<Rightarrow> Block \<Rightarrow> (string, bytes option) res" where
  "AnalyzeBatchAndSchedule pc block =
     rbind (extractIntentsFromBlock pc block) (\<lambda>intents.
     if length intents = 0 then Ok None
     else
       let graph = buildConflictGraph intents;
           coloring = greedyGraphColoring graph;
           schedule = buildBatchSchedule (bh_Number (blk_Header block)) intents coloring
       in Ok (Some (marshal_BatchSchedule schedule)))"

definition ParseBatchSchedule :: "codec \<Rightarrow> Block \<Rightarrow> BatchSchedule option" where
  "ParseBatchSchedule pc block =
     (case blk_Metadata block of
        None \<Rightarrow> None
      | Some mds \<Rightarrow>
          if length mds \<le> BlockMetadataIndex_ORDERER then None
          else
            (let raw = mds ! BlockMetadataIndex_ORDERER in
             if length raw = 0 then None
             else
               (case un_Metadata pc raw of
                  Inl _ \<Rightarrow> None
                | Inr ordererMeta \<Rightarrow>
                    if length (md_Value ordererMeta) = 0 then None
                    else
                      (case unmarshal_BatchSchedule (md_Value ordererMeta) of
                         None \<Rightarrow> None
                       | Some schedule \<Rightarrow>
                           if bs_Version schedule \<noteq> ''v1'' then None else Some schedule))))"

section \<open>What a schedule contains\<close>

definition batch_ids :: "ColorAssignment \<Rightarrow> TxIntent list \<Rightarrow> nat \<Rightarrow> string list" where
  "batch_ids coloring is c = map ti_TxID (filter (\<lambda>i. tx_color coloring i = c) is)"

lemma map_of_fold_append_at:
  "map_of (fold (\<lambda>i. append_at (key i) (val i)) is m) c =
     (if c \<in> key ` set is then Some (get_list m c @ map val (filter (\<lambda>i. key i = c) is))
      else map_of m c)"
proof (induction "is" arbitrary: m)
  case (Cons i "is")
  show ?case
    unfolding fold.simps comp_def Cons.IH
    by (auto simp: get_list_append_at map_of_append_at filter_empty_conv image_iff)
qed simp

lemma map_filter_all: "(\<And>x. x \<in> set xs \<Longrightarrow> f x = Some (g x)) \<Longrightarrow> List.map_filter f xs = map g xs"
  by (induction xs) (auto simp: List.map_filter_def)

text \<open>The batches in order, each the ids of one colour in block order.\<close>

lemma buildBatchSchedule_batches:
  "map be_TxIDs (bs_Batches (buildBatchSchedule n is col)) =
     filter (\<lambda>ids. ids \<noteq> []) (map (batch_ids col is) [0 ..< col_NumColors col])"
proof -
  have "map be_TxIDs (List.map_filter (\<lambda>i. map_option
          (\<lambda>txIDs. \<lparr>be_BatchID = of_nat i, be_TxIDs = txIDs\<rparr>) (f i)) cs) =
      filter (\<lambda>ids. ids \<noteq> []) (map g cs)"
    if "\<And>c. f c = (if g c = [] then None else Some (g c))" for f g and cs :: "nat list"
    by (induction cs) (auto simp: List.map_filter_def that)
  moreover have "map_of (fold (\<lambda>i. append_at (tx_color col i) (ti_TxID i)) is []) c =
      (if batch_ids col is c = [] then None else Some (batch_ids col is c))" for c
    by (auto simp: map_of_fold_append_at batch_ids_def filter_empty_conv)
  ultimately show ?thesis
    by (simp add: buildBatchSchedule_def)
qed

lemma schedule_fields [simp]:
  "bs_BlockNumber (buildBatchSchedule n is col) = n"
  "bs_Version (buildBatchSchedule n is col) = ''v1''"
  by (simp_all add: buildBatchSchedule_def Let_def)

lemma schedule_batch:
  assumes "e \<in> set (bs_Batches (buildBatchSchedule n is col))"
  obtains c where "be_TxIDs e = batch_ids col is c"
proof -
  from assms have "be_TxIDs e \<in> set (map be_TxIDs (bs_Batches (buildBatchSchedule n is col)))"
    by simp
  then show thesis unfolding buildBatchSchedule_batches using that by auto
qed

lemma concat_filter_nonempty: "concat (filter (\<lambda>x. x \<noteq> []) xs) = concat xs"
  by (induction xs) auto

lemma mset_batch_ids:
  "mset (concat (map (batch_ids col is) [0 ..< n])) =
     image_mset ti_TxID (filter_mset (\<lambda>i. tx_color col i < n) (mset is))"
proof (induction n)
  case (Suc n)
  have "filter_mset (\<lambda>i. tx_color col i < Suc n) (mset is) =
      filter_mset (\<lambda>i. tx_color col i < n) (mset is) + filter_mset (\<lambda>i. tx_color col i = n) (mset is)"
    by (induction "is") auto
  with Suc show ?case by (simp add: batch_ids_def mset_filter)
qed simp

lemma tx_color_less: "i \<in> set is \<Longrightarrow> tx_color (coloring_of is) i < col_NumColors (coloring_of is)"
  using coloring_of_dom [of "is" "ti_TxID i"]
  by (auto simp: tx_color_def coloring_of_less split: option.splits)

text \<open>Every benchmark transaction of the block is in the schedule, as often as in the block.\<close>

lemma schedule_mset:
  "mset (concat (map be_TxIDs (bs_Batches (buildBatchSchedule n is (coloring_of is))))) =
     mset (map ti_TxID is)"
proof -
  have "filter_mset (\<lambda>i. tx_color (coloring_of is) i < col_NumColors (coloring_of is)) (mset is) = mset is"
    using tx_color_less by (simp add: filter_mset_eq_conv) 
  then show ?thesis
    unfolding buildBatchSchedule_batches concat_filter_nonempty mset_batch_ids by simp
qed

text \<open>Two transactions of one batch with different ids do not conflict.\<close>

lemma pair_in_mset:
  "i \<in> set is \<Longrightarrow> j \<in> set is \<Longrightarrow> i \<noteq> j \<Longrightarrow> {#i, j#} \<subseteq># mset is"
  by (metis insert_subset_eq_iff in_diff_count count_eq_zero_iff diff_single_trivial
      in_multiset_in_set insert_DiffM insert_noteq_member mset_subset_eq_single single_subset_iff)

lemma same_batch_no_conflict:
  assumes "i \<in> set is" and "j \<in> set is" and "ti_TxID i \<noteq> ti_TxID j"
    and "tx_color (coloring_of is) i = tx_color (coloring_of is) j"
  shows "\<not> txsConflict i j"
proof
  assume "txsConflict i j"
  moreover have "{#i, j#} \<subseteq># mset is" using assms(1-3) by (intro pair_in_mset) auto
  ultimately have "map_of (col_TxToColor (coloring_of is)) (ti_TxID i) \<noteq>
      map_of (col_TxToColor (coloring_of is)) (ti_TxID j)"
    using assms(3) by (intro coloring_of_proper)
  moreover have "map_of (col_TxToColor (coloring_of is)) (ti_TxID i) \<noteq> None"
    "map_of (col_TxToColor (coloring_of is)) (ti_TxID j) \<noteq> None"
    using assms(1,2) by (simp_all only: coloring_of_dom) auto
  ultimately show False using assms(4) by (auto simp: tx_color_def)
qed

lemma batch_ids_color:
  assumes "distinct (map ti_TxID is)" and "i \<in> set is" and "ti_TxID i \<in> set (batch_ids col is c)"
  shows "tx_color col i = c"
proof -
  from assms(3) obtain j where j: "j \<in> set is" "tx_color col j = c" "ti_TxID j = ti_TxID i"
    by (auto simp: batch_ids_def)
  with assms(1,2) have "j = i" by (metis distinct_map inj_onD)
  with j show ?thesis by simp
qed

lemma coloring_of_fold:
  "coloring_of is =
     \<lparr>col_TxToColor = fst (fold_color (get_list (cg_Edges (buildConflictGraph is)))
        (sort_Strings (map ti_TxID is))),
      col_NumColors = (if is = [] then 0
        else Suc (snd (fold_color (get_list (cg_Edges (buildConflictGraph is)))
               (sort_Strings (map ti_TxID is)))))\<rparr>"
  by (simp add: coloring_of_def greedyGraphColoring_eq buildConflictGraph_def)

text \<open>With distinct ids every colour below \<open>NumColors\<close> is used.\<close>

lemma color_used:
  assumes "distinct (map ti_TxID is)" and "c < col_NumColors (coloring_of is)"
  shows "\<exists>i \<in> set is. tx_color (coloring_of is) i = c"
proof -
  let ?nbrs = "get_list (cg_Edges (buildConflictGraph is))"
  let ?ts = "sort_Strings (map ti_TxID is)"
  let ?max = "snd (fold_color ?nbrs ?ts)"
  from assms have ne: "is \<noteq> []" and c: "c \<le> ?max"
    by (auto simp: coloring_of_fold split: if_splits)
  then have "?ts \<noteq> []" by (metis length_0_conv length_map length_sort_Strings)
  with assms(1) obtain a where a: "a \<in> set ?ts" "color_of ?nbrs ?ts a = Some ?max"
    using max_color_attained [of ?ts ?nbrs] by auto
  have "\<exists>b. color_of ?nbrs ?ts b = Some c"
  proof (cases "c = ?max")
    case True
    with a show ?thesis by auto
  next
    case False
    with c a assms(1) show ?thesis
      using color_of_gapless [of ?ts ?nbrs a ?max c] by auto
  qed
  then obtain b where b: "color_of ?nbrs ?ts b = Some c" by auto
  then have "b \<in> set ?ts" using color_of_dom by (metis option.distinct(1))
  then obtain i where "i \<in> set is" "b = ti_TxID i" by auto
  with b show ?thesis
    by (intro bexI [of _ i]) (auto simp: tx_color_def coloring_of_fold)
qed

lemma schedule_dense:
  assumes "distinct (map ti_TxID is)"
  shows "bs_Batches (buildBatchSchedule n is (coloring_of is)) =
    map (\<lambda>c. \<lparr>be_BatchID = of_nat c, be_TxIDs = batch_ids (coloring_of is) is c\<rparr>)
      [0 ..< col_NumColors (coloring_of is)]"
proof -
  have "map_of (fold (\<lambda>i. append_at (tx_color (coloring_of is) i) (ti_TxID i)) is []) c =
      Some (batch_ids (coloring_of is) is c)" if "c < col_NumColors (coloring_of is)" for c
    using color_used [OF assms that] by (auto simp: map_of_fold_append_at batch_ids_def)
  then show ?thesis
    by (simp add: buildBatchSchedule_def) (rule map_filter_all, auto)
qed

lemma coloring_of_degree:
  assumes "distinct (map ti_TxID is)" and "i \<in> set is"
  shows "tx_color (coloring_of is) i \<le> card {j \<in> set is. j \<noteq> i \<and> txsConflict i j}"
proof -
  let ?nbrs = "get_list (cg_Edges (buildConflictGraph is))"
  have "set (?nbrs (ti_TxID i)) \<subseteq> ti_TxID ` {j \<in> set is. j \<noteq> i \<and> txsConflict i j}"
  proof
    fix b
    assume "b \<in> set (?nbrs (ti_TxID i))"
    then obtain i' j where *: "{#i', j#} \<subseteq># mset is" "ti_TxID i' = ti_TxID i" "ti_TxID j = b"
      "txsConflict i' j"
      unfolding buildConflictGraph_edge by auto
    then have mem: "i' \<in> set is" "j \<in> set is" by (auto dest: mset_subset_eqD)
    with assms * have "i' = i" by (metis distinct_map inj_onD)
    moreover have "distinct is" using assms(1) by (simp add: distinct_map)
    then have "count (mset is) i' \<le> 1" by (simp add: distinct_count_atmost_1)
    with * have "i' \<noteq> j" using mset_subset_eq_count [OF *(1), of i'] by auto
    ultimately show "b \<in> ti_TxID ` {j \<in> set is. j \<noteq> i \<and> txsConflict i j}"
      using mem * by auto
  qed
  then have "card (set (?nbrs (ti_TxID i))) \<le> card {j \<in> set is. j \<noteq> i \<and> txsConflict i j}"
    by (intro surj_card_le [of _ _ ti_TxID]) simp_all
  moreover have "tx_color (coloring_of is) i \<le> card (set (?nbrs (ti_TxID i)))"
    using color_of_degree [of ?nbrs "sort_Strings (map ti_TxID is)" "ti_TxID i"]
    by (auto simp: tx_color_def coloring_of_fold split: option.split)
  ultimately show ?thesis by simp
qed

text \<open>The colouring does not depend on the order of the intents.\<close>

lemma coloring_of_perm:
  assumes "mset is = mset js"
  shows "coloring_of is = coloring_of js"
proof -
  have "sort_Strings (map ti_TxID is) = sort_Strings (map ti_TxID js)"
    using assms by (intro sort_Strings_cong) simp
  moreover have "set (get_list (cg_Edges (buildConflictGraph is)) t) =
      set (get_list (cg_Edges (buildConflictGraph js)) t)" for t
    by (rule set_eqI) (simp only: buildConflictGraph_edge assms)
  then have "fold_color (get_list (cg_Edges (buildConflictGraph is))) ts =
      fold_color (get_list (cg_Edges (buildConflictGraph js))) ts" for ts
    by (rule fold_color_cong)
  moreover from assms have "is = [] \<longleftrightarrow> js = []" by auto
  ultimately show ?thesis by (simp add: coloring_of_fold)
qed

section \<open>The schedule's text\<close>

lemma dec_enc_BatchEntry: "dec_BatchEntry (enc_BatchEntry e) zero_BatchEntry = Some e"
proof -
  have "dec_elems dec_string [] (map JStr ids) = Some ids" for ids
    by (rule dec_elems_map) simp
  then show ?thesis
    by (simp add: dec_BatchEntry_def enc_BatchEntry_def dec_struct_def set_BatchEntry_def
        zero_BatchEntry_def)
qed

definition utf8_schedule :: "BatchSchedule \<Rightarrow> bool" where
  "utf8_schedule s \<longleftrightarrow>
     valid_utf8 (bs_Version s) \<and> list_all (\<lambda>e. list_all valid_utf8 (be_TxIDs e)) (bs_Batches s)"

lemma wf_enc_BatchSchedule: "utf8_schedule s \<Longrightarrow> wf_json (enc_BatchSchedule s)"
  by (auto simp: enc_BatchSchedule_def enc_BatchEntry_def utf8_schedule_def list_all_iff byte_in_def
      intro!: valid_utf8_ascii)

lemma unmarshal_marshal_BatchSchedule:
  assumes "utf8_schedule s"
  shows "unmarshal_BatchSchedule (marshal_BatchSchedule s) = Some s"
proof -
  have "dec_elems dec_BatchEntry zero_BatchEntry (map enc_BatchEntry es) = Some es" for es
    by (rule dec_elems_map) (rule dec_enc_BatchEntry)
  then show ?thesis
    using json_parse_print [OF wf_enc_BatchSchedule [OF assms]]
    by (simp add: unmarshal_BatchSchedule_def marshal_BatchSchedule_def)
      (simp add: enc_BatchSchedule_def dec_struct_def set_BatchSchedule_def)
qed

lemma marshal_BatchSchedule_nonempty: "marshal_BatchSchedule s \<noteq> []"
  by (simp add: marshal_BatchSchedule_def enc_BatchSchedule_def)

lemma schedule_ids:
  "e \<in> set (bs_Batches (buildBatchSchedule n is (coloring_of is))) \<Longrightarrow> t \<in> set (be_TxIDs e) \<Longrightarrow>
     t \<in> ti_TxID ` set is"
  by (erule schedule_batch) (auto simp: batch_ids_def)

lemma utf8_buildBatchSchedule:
  "\<forall>i \<in> set is. valid_utf8 (ti_TxID i) \<Longrightarrow>
     utf8_schedule (buildBatchSchedule n is (coloring_of is))"
  unfolding utf8_schedule_def list_all_iff
  by (auto simp: valid_utf8_ascii byte_in_def dest: schedule_ids)

lemma dom_AllTxIDs:
  "map_of (AllTxIDs s) t = (if t \<in> set (concat (map be_TxIDs (bs_Batches s))) then Some True else None)"
proof -
  have one: "map_of (fold (\<lambda>t. AList.update t True) ids m) t =
      (if t \<in> set ids then Some True else map_of m t)" for ids and m :: "(string, bool) gomap"
    by (induction ids arbitrary: m) auto
  have "map_of (fold (\<lambda>e m. fold (\<lambda>t. AList.update t True) (be_TxIDs e) m) es m) t =
      (if t \<in> set (concat (map be_TxIDs es)) then Some True else map_of m t)"
    for es :: "BatchEntry list" and m :: "(string, bool) gomap"
    by (induction es arbitrary: m) (auto simp: one)
  then show ?thesis by (simp add: AllTxIDs_def)
qed

section \<open>Properties\<close>

text \<open>Three deposits, two of them to one account: a block that needs two batches.\<close>

definition sample_intent :: "string \<Rightarrow> string \<Rightarrow> TxIntent" where
  "sample_intent t a =
     (base_intent BenchmarkSmallBank t ''ch'' ''DepositChecking'' [a, ''5''])
       \<lparr>ti_ReadKeys := [''account:'' @ a], ti_WriteKeys := [''account:'' @ a],
        ti_Hypercube := buildPointHypercube [''account:'' @ a] [''account:'' @ a]\<rparr>"

definition sample_intents :: "TxIntent list" where
  "sample_intents = [sample_intent ''t1'' ''x'', sample_intent ''t2'' ''x'', sample_intent ''t3'' ''y'']"

lemma sample_ids [simp]: "ti_TxID (sample_intent t a) = t"
  by (simp add: sample_intent_def base_intent_def)

lemma sample_conflict:
  "txsConflict (sample_intent t a) (sample_intent u b) \<longleftrightarrow> a = b"
  by (auto simp: sample_intent_def txsConflict_def buildPointHypercube_def base_intent_def
      intersects_def point_interval_def)

lemma sample_batches:
  "bs_Batches (buildBatchSchedule 7 sample_intents (greedyGraphColoring (buildConflictGraph sample_intents))) =
     [\<lparr>be_BatchID = 0, be_TxIDs = [''t1'', ''t3'']\<rparr>, \<lparr>be_BatchID = 1, be_TxIDs = [''t2'']\<rparr>]"
  by code_simp

text \<open>C8: The schedule that the orderer builds for a block lists every benchmark transaction of the
  block, and lists it exactly as often as it occurs in the block, for any list of intents.\<close>

theorem schedule_exactly_once:
  "mset (concat (map be_TxIDs (bs_Batches
     (buildBatchSchedule n is (greedyGraphColoring (buildConflictGraph is)))))) =
   mset (map ti_TxID is)"
  using schedule_mset [of n "is"] by (simp add: coloring_of_def)

text \<open>C9: When the transaction ids of a block differ, two different transactions of one batch never
  conflict: no write interval of one meets a read or write interval of the other.\<close>

theorem batch_conflict_free:
  assumes "distinct (map ti_TxID is)"
    and "e \<in> set (bs_Batches (buildBatchSchedule n is (greedyGraphColoring (buildConflictGraph is))))"
    and "i \<in> set is" and "ti_TxID i \<in> set (be_TxIDs e)"
    and "j \<in> set is" and "ti_TxID j \<in> set (be_TxIDs e)" and "i \<noteq> j"
  shows "\<not> txsConflict i j"
proof -
  from assms(2) obtain c where c: "be_TxIDs e = batch_ids (coloring_of is) is c"
    unfolding coloring_of_def [symmetric] by (rule schedule_batch)
  have "tx_color (coloring_of is) i = c" "tx_color (coloring_of is) j = c"
    using assms batch_ids_color [OF assms(1)] unfolding c by auto
  moreover have "ti_TxID i \<noteq> ti_TxID j"
    using assms(1,3,5,7) by (auto simp: distinct_map dest: inj_onD)
  ultimately show ?thesis using assms(3,5) same_batch_no_conflict [of i "is" j] by simp
qed

theorem batch_conflict_free_witness:
  "distinct (map ti_TxID sample_intents) \<and>
   \<not> txsConflict (sample_intent ''t1'' ''x'') (sample_intent ''t3'' ''y'')"
proof -
  have ids: "distinct (map ti_TxID sample_intents)" by (simp add: sample_intents_def)
  have batch: "\<lparr>be_BatchID = 0, be_TxIDs = [''t1'', ''t3'']\<rparr> \<in> set (bs_Batches
      (buildBatchSchedule 7 sample_intents (greedyGraphColoring (buildConflictGraph sample_intents))))"
    by (simp add: sample_batches)
  have "sample_intent ''t1'' ''x'' \<noteq> sample_intent ''t3'' ''y''"
    by (auto dest: arg_cong [of _ _ ti_TxID])
  with batch_conflict_free [OF ids batch, of "sample_intent ''t1'' ''x''" "sample_intent ''t3'' ''y''"]
    ids show ?thesis by (simp add: sample_intents_def)
qed



text \<open>The colouring depends only on which intents a block holds, not on their order: blocks with
  the same transactions in another order get batches with the same transactions.\<close>

theorem schedule_order_independent:
  assumes "mset is = mset js"
  shows "greedyGraphColoring (buildConflictGraph is) = greedyGraphColoring (buildConflictGraph js) \<and>
    map (\<lambda>e. mset (be_TxIDs e)) (bs_Batches (buildBatchSchedule n is (greedyGraphColoring (buildConflictGraph is)))) =
    map (\<lambda>e. mset (be_TxIDs e)) (bs_Batches (buildBatchSchedule n js (greedyGraphColoring (buildConflictGraph js))))"
proof -
  have col: "coloring_of is = coloring_of js" by (rule coloring_of_perm [OF assms])
  have ids: "mset (batch_ids col is c) = mset (batch_ids col js c)" for col c
    using assms by (simp add: batch_ids_def mset_filter)
  have "map (\<lambda>e. mset (be_TxIDs e)) (bs_Batches (buildBatchSchedule n ks col)) =
      filter (\<lambda>m. m \<noteq> {#}) (map (\<lambda>c. mset (batch_ids col ks c)) [0 ..< col_NumColors col])" for ks col
    using arg_cong [OF buildBatchSchedule_batches [of n ks col], of "map mset"]
    by (simp add: filter_map comp_def)
  with ids have "map (\<lambda>e. mset (be_TxIDs e)) (bs_Batches (buildBatchSchedule n is (coloring_of js))) =
      map (\<lambda>e. mset (be_TxIDs e)) (bs_Batches (buildBatchSchedule n js (coloring_of js)))"
    by presburger
  with col show ?thesis by (simp add: coloring_of_def)
qed

theorem schedule_order_independent_witness:
  "mset sample_intents = mset (rev sample_intents) \<and>
   greedyGraphColoring (buildConflictGraph sample_intents) =
     greedyGraphColoring (buildConflictGraph (rev sample_intents))"
  using schedule_order_independent [of sample_intents "rev sample_intents"] by simp

text \<open>The committer reads from the ORDERER metadata of a block exactly the schedule that the
  orderer computed for it, and that schedule covers the block's intents, whenever the orderer wrote
  the analyser's output there in a \<open>Metadata\<close> message that the protobuf runtime decodes to what was
  encoded, and the ids are valid UTF-8.\<close>

theorem schedule_reaches_committer:
  assumes "un_Metadata pc raw = Inr \<lparr>md_Value = data, md_Signatures = sigs\<rparr>" and "raw \<noteq> []"
    and "extractIntentsFromBlock pc block = Ok is"
    and "AnalyzeBatchAndSchedule pc block = Ok (Some data)"
    and "\<forall>i \<in> set is. valid_utf8 (ti_TxID i)"
    and "blk_Metadata block' = Some mds" and "length mds = 4" and "mds ! 3 = raw"
  shows "ParseBatchSchedule pc block' = Some (buildBatchSchedule (bh_Number (blk_Header block)) is
      (greedyGraphColoring (buildConflictGraph is))) \<and>
    (\<forall>i \<in> set is. map_of (AllTxIDs (the (ParseBatchSchedule pc block'))) (ti_TxID i) = Some True)"
proof -
  let ?s = "buildBatchSchedule (bh_Number (blk_Header block)) is (coloring_of is)"
  have data: "data = marshal_BatchSchedule ?s"
    using assms(3,4) by (auto simp: AnalyzeBatchAndSchedule_def coloring_of_def Let_def split: if_splits)
  then have "unmarshal_BatchSchedule data = Some ?s"
    using unmarshal_marshal_BatchSchedule [OF utf8_buildBatchSchedule [OF assms(5)]] by simp
  moreover have "data \<noteq> []" unfolding data by (rule marshal_BatchSchedule_nonempty)
  ultimately have parse: "ParseBatchSchedule pc block' = Some ?s"
    using assms(1,2,6-8) by (simp add: ParseBatchSchedule_def metadata_index_defs)
  have "set (concat (map be_TxIDs (bs_Batches ?s))) = ti_TxID ` set is"
    using arg_cong [OF schedule_mset [of "bh_Number (blk_Header block)" "is"], of set_mset]
    by (simp only: set_mset_mset set_map)
  then show ?thesis
    by (simp only: parse dom_AllTxIDs option.sel) (simp add: coloring_of_def)
qed

text \<open>An envelope whose layers a toy runtime maps to themselves, for concrete instances.\<close>

definition sample_codec :: codec where
  "sample_codec =
     \<lparr>un_Envelope = (\<lambda>b. Inr \<lparr>env_Payload = Some b, env_Signature = []\<rparr>),
      un_Payload = (\<lambda>b. Inr \<lparr>pl_Header = Some \<lparr>hdr_ChannelHeader = take 2 b, hdr_SignatureHeader = []\<rparr>,
        pl_Data = drop 2 b\<rparr>),
      un_ChannelHeader = (\<lambda>b. Inr \<lparr>ch_Type = 3, ch_Version = 0, ch_ChannelId = ''ch'', ch_TxId = b,
        ch_Epoch = 0, ch_Extension = []\<rparr>),
      un_SignatureHeader = (\<lambda>b. Inl ''unused''),
      un_ChaincodeHeaderExtension = (\<lambda>b. Inr \<lparr>che_PayloadVisibility = [],
        che_ChaincodeId = Some \<lparr>ccid_Path = [], ccid_Name = ''smallbank'', ccid_Version = []\<rparr>\<rparr>),
      un_Transaction = (\<lambda>b. Inr \<lparr>tx_Actions = [\<lparr>ta_Header = [], ta_Payload = b\<rparr>]\<rparr>),
      un_ChaincodeActionPayload = (\<lambda>b. Inr \<lparr>cap_ChaincodeProposalPayload = b, cap_Action = None\<rparr>),
      un_ChaincodeProposalPayload = (\<lambda>b. Inr \<lparr>cpp_Input = b, cpp_TransientMap = []\<rparr>),
      un_ChaincodeInvocationSpec = (\<lambda>b. Inr \<lparr>cis_ChaincodeSpec = Some \<lparr>cs_ChaincodeId = None,
        cs_Input = Some \<lparr>ci_Args = [''DepositChecking'', b, ''5'']\<rparr>, cs_Timeout = 0\<rparr>,
        cis_IdGenerationAlg = []\<rparr>),
      un_ProposalResponsePayload = (\<lambda>b. Inl ''unused''),
      un_ChaincodeAction = (\<lambda>b. Inl ''unused''),
      un_Metadata = (\<lambda>b. Inr \<lparr>md_Value = b, md_Signatures = []\<rparr>),
      en_Metadata = md_Value,
      un_LastConfig = (\<lambda>b. Inr \<lparr>lc_Index = 0\<rparr>),
      en_LastConfig = (\<lambda>_. []),
      en_Envelope = (\<lambda>e. slice (env_Payload e)),
      en_SignatureHeader = (\<lambda>_. [])\<rparr>"

definition sample_block :: "bytes list \<Rightarrow> bytes list \<Rightarrow> Block" where
  "sample_block data mds =
     \<lparr>blk_Header = \<lparr>bh_Number = 7, bh_PreviousHash = [], bh_DataHash = []\<rparr>, blk_Data = data,
      blk_Metadata = Some mds\<rparr>"

definition sample_data :: bytes where
  "sample_data = marshal_BatchSchedule (buildBatchSchedule 7 sample_intents
     (greedyGraphColoring (buildConflictGraph sample_intents)))"

lemma sample_extract_env:
  assumes "drop 2 b \<in> {''x'', ''y''}"
  shows "extractIntentFromEnvBytes sample_codec b = Ok (Some (sample_intent (take 2 b) (drop 2 b)))"
proof -
  have "TrimSpace ''x'' = ''x''" "TrimSpace ''y'' = ''y''"
    by (simp_all add: TrimSpace_def strip_seqs.simps space_seqs_def has_prefix_def)
  with assms show ?thesis
    by (auto simp: extractIntentFromEnvBytes_def sample_codec_def GetEnvelopeFromBlock_def
        GetPayload_def UnmarshalChannelHeader_def GetChaincodeHeaderExtension_def
        IsBenchmarkChaincode_def invocation_args_def GetTransaction_def
        GetChaincodeActionPayload_def GetChaincodeProposalPayload_def dispatchIntent_def
        ExtractSmallBankIntent_def smallbank_keys_def sample_intent_def argsToStrings_def
        BenchmarkSmallBank_def HeaderType_ENDORSER_TRANSACTION_def sbAccountKey_def Let_def)
qed

lemma sample_extract:
  "extractIntentsFromBlock sample_codec (sample_block [''t1x'', ''t2x'', ''t3y''] mds) = Ok sample_intents"
  by (simp add: sample_extract_env extractIntentsFromBlock_def sample_block_def sample_intents_def)

theorem schedule_reaches_committer_witness:
  "ParseBatchSchedule sample_codec (sample_block [] [[], [], [], sample_data]) =
     Some (buildBatchSchedule 7 sample_intents (greedyGraphColoring (buildConflictGraph sample_intents)))"
proof -
  let ?block = "sample_block [''t1x'', ''t2x'', ''t3y''] []"
  have "AnalyzeBatchAndSchedule sample_codec ?block = Ok (Some sample_data)"
    by (simp add: AnalyzeBatchAndSchedule_def sample_extract sample_data_def Let_def)
      (simp add: sample_block_def sample_intents_def)
  moreover have "\<forall>i \<in> set sample_intents. valid_utf8 (ti_TxID i)"
    by (simp add: sample_intents_def valid_utf8_ascii byte_in_def)
  moreover have "sample_data \<noteq> []" unfolding sample_data_def by (rule marshal_BatchSchedule_nonempty)
  ultimately show ?thesis
    using sample_extract [of "[]"] schedule_reaches_committer [of sample_codec sample_data sample_data
        "[]" ?block sample_intents "sample_block [] [[], [], [], sample_data]" "[[], [], [], sample_data]"]
    by (simp add: sample_codec_def sample_block_def numeral_3_eq_3)
qed

end
