(* ===== verification/Bench_Commit.thy ===== *)
theory Bench_Commit
  imports Replay Schedule "HOL-Library.Sublist"
begin

text \<open>
  Committing benchmark transactions: \<open>core/bench/commit.go\<close>. The batches of a schedule are replayed
  one after the other; the transactions of a batch with more than one are replayed concurrently, each
  on the state at the start of the batch, and their writes are merged in batch order.

  The goroutines of a batch only read the adapter, and each stores its result in its own slot, so the
  results do not depend on how they interleave: \<open>replay_parallel\<close> computes them in order. A panic in
  a goroutine ends the process.

  The lemmas show that the orderer and the committer see the same invocation in an envelope, and
  that replaying the batches concurrently gives what replaying the transactions one by one gives.
\<close>

section \<open>Finding a transaction\<close>

fun find_loop :: "codec \<Rightarrow> bytes list \<Rightarrow> string \<Rightarrow> (string, bytes option) res" where
  "find_loop pc [] txID = Ok None"
| "find_loop pc (envBytes # bs) txID =
     (case channel_header pc envBytes of
        Panic \<Rightarrow> Panic
      | Err _ \<Rightarrow> find_loop pc bs txID
      | Ok chdr \<Rightarrow> if ch_TxId chdr = txID then Ok (Some envBytes) else find_loop pc bs txID)"

definition findTxInBlock :: "codec \<Rightarrow> Block \<Rightarrow> string \<Rightarrow> (string, bytes option) res" where
  "findTxInBlock pc block txID = find_loop pc (blk_Data block) txID"

definition extractInvocationFromEnvBytes ::
    "codec \<Rightarrow> bytes \<Rightarrow> (string, string \<times> string \<times> string list) res" where
  "extractInvocationFromEnvBytes pc envBytes =
     rbind (GetEnvelopeFromBlock pc envBytes) (\<lambda>env.
     rbind (GetPayload pc env) (\<lambda>payload.
     rbind (GetChaincodeHeaderExtension pc (pl_Header payload)) (\<lambda>hdrExt.
     rbind (deref (che_ChaincodeId hdrExt)) (\<lambda>ccid.
     rbind (invocation_args pc (pl_Data payload)) (\<lambda>rawArgs.
     case rawArgs of
       [] \<Rightarrow> Err ''empty args''
     | funcName # rest \<Rightarrow> Ok (ccid_Name ccid, funcName, rest))))))"

fun index_loop :: "codec \<Rightarrow> bytes list \<Rightarrow> nat \<Rightarrow> (string, nat) gomap \<Rightarrow> (string, (string, nat) gomap) res" where
  "index_loop pc [] i m = Ok m"
| "index_loop pc (envBytes # bs) i m =
     (case channel_header pc envBytes of
        Panic \<Rightarrow> Panic
      | Err _ \<Rightarrow> index_loop pc bs (Suc i) m
      | Ok chdr \<Rightarrow> index_loop pc bs (Suc i) (AList.update (ch_TxId chdr) i m))"

definition BuildTxIDIndexMap :: "codec \<Rightarrow> Block \<Rightarrow> (string, (string, nat) gomap) res" where
  "BuildTxIDIndexMap pc block = index_loop pc (blk_Data block) 0 []"

section \<open>Replaying one transaction\<close>

definition replayTx :: "StateDBAdapter \<Rightarrow> string \<Rightarrow> string \<Rightarrow> string list \<Rightarrow> (string, write_set) res" where
  "replayTx db ccName funcName args =
     (if ccName = ''smallbank'' then replaySmallBank db funcName args
      else if ccName = ''ycsb'' then replayYCSB db funcName args
      else Err (''unsupported chaincode for replay: '' @ ccName))"

text \<open>The loop \<open>for key, value := range writes \{ adapter.PutState(ccName, key, value) \}\<close>.\<close>

fun put_writes :: "string \<Rightarrow> write_set \<Rightarrow> StateDBAdapter \<Rightarrow> (string, StateDBAdapter) res" where
  "put_writes ccName [] adapter = Ok adapter"
| "put_writes ccName ((key, value) # ws) adapter =
     rbind (adapter_PutState ccName key (Some value) adapter) (put_writes ccName ws)"

definition replaySingleTx ::
    "codec \<Rightarrow> Block \<Rightarrow> string \<Rightarrow> StateDBAdapter \<Rightarrow> (string, StateDBAdapter) res" where
  "replaySingleTx pc block txID adapter =
     rbind (findTxInBlock pc block txID) (\<lambda>envBytes.
     case envBytes of
       None \<Rightarrow> Ok adapter
     | Some b \<Rightarrow>
         (case extractInvocationFromEnvBytes pc b of
            Panic \<Rightarrow> Panic
          | Err _ \<Rightarrow> Ok adapter
          | Ok (ccName, funcName, strArgs) \<Rightarrow>
              (case replayTx adapter ccName funcName strArgs of
                 Panic \<Rightarrow> Panic
               | Err _ \<Rightarrow> Ok adapter
               | Ok writes \<Rightarrow> put_writes ccName writes adapter)))"

record txReplayResult =
  tr_txID :: string
  tr_ccName :: string
  tr_writes :: write_set
  tr_err :: "string option"

definition failed_result :: "string \<Rightarrow> string \<Rightarrow> txReplayResult" where
  "failed_result txID e = \<lparr>tr_txID = txID, tr_ccName = [], tr_writes = [], tr_err = Some e\<rparr>"

definition replayTxForParallel ::
    "codec \<Rightarrow> Block \<Rightarrow> StateDBAdapter \<Rightarrow> string \<Rightarrow> (string, txReplayResult) res" where
  "replayTxForParallel pc block adapter txID =
     rbind (findTxInBlock pc block txID) (\<lambda>envBytes.
     case envBytes of
       None \<Rightarrow> Ok (failed_result txID ''tx not found in block'')
     | Some b \<Rightarrow>
         (case extractInvocationFromEnvBytes pc b of
            Panic \<Rightarrow> Panic
          | Err e \<Rightarrow> Ok (failed_result txID (''extract invocation failed: '' @ e))
          | Ok (ccName, funcName, strArgs) \<Rightarrow>
              (case replayTx adapter ccName funcName strArgs of
                 Panic \<Rightarrow> Panic
               | Err e \<Rightarrow> Ok (failed_result txID (''replay failed: '' @ e))
               | Ok writes \<Rightarrow>
                   Ok \<lparr>tr_txID = txID, tr_ccName = ccName, tr_writes = writes, tr_err = None\<rparr>)))"

section \<open>Replaying a schedule\<close>

fun replay_singles ::
    "codec \<Rightarrow> Block \<Rightarrow> string list \<Rightarrow> StateDBAdapter \<Rightarrow> (string, StateDBAdapter) res" where
  "replay_singles pc block [] adapter = Ok adapter"
| "replay_singles pc block (txID # ids) adapter =
     rbind (replaySingleTx pc block txID adapter) (replay_singles pc block ids)"

fun replay_parallel ::
    "codec \<Rightarrow> Block \<Rightarrow> StateDBAdapter \<Rightarrow> string list \<Rightarrow> (string, txReplayResult list) res" where
  "replay_parallel pc block adapter [] = Ok []"
| "replay_parallel pc block adapter (txID # ids) =
     rbind (replayTxForParallel pc block adapter txID) (\<lambda>r.
     rbind (replay_parallel pc block adapter ids) (\<lambda>rs. Ok (r # rs)))"

fun merge_results :: "txReplayResult list \<Rightarrow> StateDBAdapter \<Rightarrow> (string, StateDBAdapter) res" where
  "merge_results [] adapter = Ok adapter"
| "merge_results (r # rs) adapter =
     (if tr_err r \<noteq> None then merge_results rs adapter
      else rbind (put_writes (tr_ccName r) (tr_writes r) adapter) (merge_results rs))"

definition replay_batch ::
    "codec \<Rightarrow> Block \<Rightarrow> BatchEntry \<Rightarrow> StateDBAdapter \<Rightarrow> (string, StateDBAdapter) res" where
  "replay_batch pc block batchEntry adapter =
     (if length (be_TxIDs batchEntry) \<le> 1 then replay_singles pc block (be_TxIDs batchEntry) adapter
      else
        rbind (replay_parallel pc block adapter (be_TxIDs batchEntry)) (\<lambda>results.
        merge_results results adapter))"

fun replay_batches ::
    "codec \<Rightarrow> Block \<Rightarrow> BatchEntry list \<Rightarrow> StateDBAdapter \<Rightarrow> (string, StateDBAdapter) res" where
  "replay_batches pc block [] adapter = Ok adapter"
| "replay_batches pc block (e # es) adapter =
     rbind (replay_batch pc block e adapter) (replay_batches pc block es)"

definition CommitBenchmarkTxs ::
    "codec \<Rightarrow> Block \<Rightarrow> BatchSchedule \<Rightarrow> db_reader \<Rightarrow>
      (UpdateBatch \<Rightarrow> Height \<Rightarrow> (string, 'd) res) \<Rightarrow> (string, 'd) res" where
  "CommitBenchmarkTxs pc block schedule GetState ApplyUpdates =
     rbind (replay_batches pc block (bs_Batches schedule)
       (NewStateDBAdapter GetState (bh_Number (blk_Header block)) (length (blk_Data block))))
       (adapter_Flush ApplyUpdates)"

section \<open>The effect of one transaction\<close>

text \<open>The chaincode and the writes of a transaction on a state, or nothing when it is skipped.\<close>

definition tx_effect ::
    "codec \<Rightarrow> Block \<Rightarrow> StateDBAdapter \<Rightarrow> string \<Rightarrow> (string, (string \<times> write_set) option) res" where
  "tx_effect pc block adapter txID =
     rbind (replayTxForParallel pc block adapter txID) (\<lambda>r.
     Ok (if tr_err r \<noteq> None then None else Some (tr_ccName r, tr_writes r)))"

definition apply_effect ::
    "(string \<times> write_set) option \<Rightarrow> StateDBAdapter \<Rightarrow> (string, StateDBAdapter) res" where
  "apply_effect e adapter =
     (case e of None \<Rightarrow> Ok adapter | Some (cc, ws) \<Rightarrow> put_writes cc ws adapter)"

lemma replaySingleTx_effect:
  "replaySingleTx pc block t a = rbind (tx_effect pc block a t) (\<lambda>e. apply_effect e a)"
  by (auto simp: replaySingleTx_def tx_effect_def replayTxForParallel_def apply_effect_def
      failed_result_def rbind_assoc split: option.split res.split intro!: rbind_cong)

lemma merge_results_Cons:
  "merge_results (r # rs) a =
     rbind (apply_effect (if tr_err r \<noteq> None then None else Some (tr_ccName r, tr_writes r)) a)
       (merge_results rs)"
  by (simp add: apply_effect_def)

text \<open>Putting a write set always succeeds.\<close>

definition put_all :: "string \<Rightarrow> write_set \<Rightarrow> StateDBAdapter \<Rightarrow> StateDBAdapter" where
  "put_all cc ws a =
     a\<lparr>ad_batch := fold (\<lambda>((ns, k), vv). set_update ns k vv)
         (map (\<lambda>(k, v). ((cc, k), \<lparr>vv_Value = Some v, vv_Version = ad_height a\<rparr>)) ws) (ad_batch a)\<rparr>"

lemma put_writes_eq: "put_writes cc ws a = Ok (put_all cc ws a)"
proof (induction ws arbitrary: a)
  case (Cons w ws)
  then show ?case
    by (cases w) (simp add: adapter_PutState_def UpdateBatch_Put_Ok put_all_def)
qed (simp add: put_all_def)

lemma apply_effect_Ok: "\<exists>a'. apply_effect e a = Ok a'"
  by (cases e) (auto simp: apply_effect_def put_writes_eq)

lemma put_all_other:
  assumes "cc \<noteq> ns \<or> k \<notin> fst ` set ws"
  shows "adapter_GetState (put_all cc ws a) ns k = adapter_GetState a ns k"
proof -
  have "(ns, k) \<notin> fst ` set (map (\<lambda>(k, v). ((cc, k), \<lparr>vv_Value = Some v, vv_Version = ad_height a\<rparr>)) ws)"
    using assms by force
  from batch.get_writes_other [OF this] show ?thesis
    by (simp add: adapter_GetState_def put_all_def split: option.split)
qed

section \<open>The orderer's view and the committer's view\<close>

lemma extractInvocation_intent:
  assumes "extractIntentFromEnvBytes pc b = Ok (Some i)"
  shows "extractInvocationFromEnvBytes pc b = Ok (ti_ChaincodeName i, ti_FunctionName i, ti_Args i)"
  using assms by (rule extractIntent_SomeD) (simp add: extractInvocationFromEnvBytes_def)

text \<open>The transaction that the committer finds under an id is one with the given intent.\<close>

definition found_intent :: "codec \<Rightarrow> Block \<Rightarrow> string \<Rightarrow> TxIntent \<Rightarrow> bool" where
  "found_intent pc block t i \<longleftrightarrow>
     (\<exists>b. findTxInBlock pc block t = Ok (Some b) \<and> extractIntentFromEnvBytes pc b = Ok (Some i))"

lemma tx_effect_intent:
  assumes "found_intent pc block t i"
  shows "tx_effect pc block a t =
    (case replayTx a (ti_ChaincodeName i) (ti_FunctionName i) (ti_Args i) of
       Panic \<Rightarrow> Panic | Err _ \<Rightarrow> Ok None | Ok ws \<Rightarrow> Ok (Some (ti_ChaincodeName i, ws)))"
  using assms
  by (auto simp: found_intent_def tx_effect_def replayTxForParallel_def extractInvocation_intent
      failed_result_def split: res.split)

lemma intent_replay:
  assumes "extractIntentFromEnvBytes pc b = Ok (Some i)"
  shows "reads_alike (ti_ChaincodeName i) (set (ti_ReadKeys i)) a a' \<Longrightarrow>
      replayTx a (ti_ChaincodeName i) (ti_FunctionName i) (ti_Args i) =
      replayTx a' (ti_ChaincodeName i) (ti_FunctionName i) (ti_Args i)"
    and "replayTx a (ti_ChaincodeName i) (ti_FunctionName i) (ti_Args i) = Ok ws \<Longrightarrow>
      writes_within (set (ti_WriteKeys i)) ws"
proof -
  from assms obtain chdr where
    "dispatchIntent (ti_ChaincodeName i) chdr (ti_FunctionName i # ti_Args i) = Some i"
    by (rule extractIntent_SomeD)
  from dispatchIntent_Some [OF this] consider
      (SB) "ti_ChaincodeName i = ''smallbank''"
        "smallbank_keys (ti_FunctionName i) (ti_Args i) = Some (ti_ReadKeys i, ti_WriteKeys i)"
    | (Y) "ti_ChaincodeName i = ''ycsb''"
        "ExtractYCSBIntent (ch_TxId chdr) (ch_ChannelId chdr) (ti_FunctionName i) (ti_Args i) = Some i"
    by (auto simp: BenchmarkSmallBank_def BenchmarkYCSB_def)
  note cases = this
  show "reads_alike (ti_ChaincodeName i) (set (ti_ReadKeys i)) a a' \<Longrightarrow>
      replayTx a (ti_ChaincodeName i) (ti_FunctionName i) (ti_Args i) =
      replayTx a' (ti_ChaincodeName i) (ti_FunctionName i) (ti_Args i)"
    by (cases rule: cases)
      (auto simp: replayTx_def intro: replaySmallBank_frame replayYCSB_frame)
  show "replayTx a (ti_ChaincodeName i) (ti_FunctionName i) (ti_Args i) = Ok ws \<Longrightarrow>
      writes_within (set (ti_WriteKeys i)) ws"
    by (cases rule: cases) (auto simp: replayTx_def intro: replaySmallBank_writes replayYCSB_writes)
qed

lemma tx_effect_frame:
  assumes "found_intent pc block t i"
    and "reads_alike (ti_ChaincodeName i) (set (ti_ReadKeys i)) a a'"
  shows "tx_effect pc block a t = tx_effect pc block a' t"
proof -
  from assms(1) obtain b where "extractIntentFromEnvBytes pc b = Ok (Some i)"
    by (auto simp: found_intent_def)
  from intent_replay(1) [OF this assms(2)] show ?thesis
    by (simp add: tx_effect_intent [OF assms(1)])
qed

lemma tx_effect_writes:
  assumes "found_intent pc block t i" and "tx_effect pc block a t = Ok (Some (cc, ws))"
  shows "cc = ti_ChaincodeName i \<and> writes_within (set (ti_WriteKeys i)) ws"
proof -
  from assms(1) obtain b where "extractIntentFromEnvBytes pc b = Ok (Some i)"
    by (auto simp: found_intent_def)
  from intent_replay(2) [OF this] assms(2) show ?thesis
    by (auto simp: tx_effect_intent [OF assms(1)] split: res.splits)
qed

lemma found_wf: "found_intent pc block t i \<Longrightarrow> wf_intent i"
  by (auto simp: found_intent_def intro: wf_extractIntent)

section \<open>A batch in parallel is the batch in sequence\<close>

text \<open>The effect of one transaction leaves what a non-conflicting one reads.\<close>

lemma effect_preserves_reads:
  assumes "found_intent pc block t i" and "found_intent pc block u j" and "\<not> txsConflict i j"
    and "tx_effect pc block a t = Ok e" and "apply_effect e a' = Ok a''"
  shows "reads_alike (ti_ChaincodeName j) (set (ti_ReadKeys j)) a' a''"
proof (cases e)
  case None
  with assms(5) show ?thesis by (simp add: apply_effect_def reads_alike_def)
next
  case (Some p)
  obtain cc ws where p: "p = (cc, ws)" by (cases p)
  have "writes_within (set (ti_WriteKeys i)) ws"
    using tx_effect_writes [OF assms(1)] assms(4) Some p by blast
  moreover have "set (ti_WriteKeys i) \<inter> set (ti_ReadKeys j) = {}"
    using no_conflict_keys [OF found_wf [OF assms(1)] found_wf [OF assms(2)] assms(3)] .
  ultimately have "k \<notin> fst ` set ws" if "k \<in> set (ti_ReadKeys j)" for k
    using that by (auto simp: writes_within_def)
  moreover have "a'' = put_all cc ws a'"
    using assms(5) Some p by (simp add: apply_effect_def put_writes_eq)
  ultimately show ?thesis
    using put_all_other by (auto simp: reads_alike_def)
qed

lemma reads_alike_trans:
  "reads_alike ns K a b \<Longrightarrow> reads_alike ns K b c \<Longrightarrow> reads_alike ns K a c"
  by (simp add: reads_alike_def)

text \<open>Pairwise conflict-free transactions with their intents.\<close>

definition independent :: "codec \<Rightarrow> Block \<Rightarrow> string list \<Rightarrow> (string \<Rightarrow> TxIntent) \<Rightarrow> bool" where
  "independent pc block ids intent \<longleftrightarrow>
     distinct ids \<and> (\<forall>t \<in> set ids. found_intent pc block t (intent t)) \<and>
     (\<forall>t \<in> set ids. \<forall>u \<in> set ids. t \<noteq> u \<longrightarrow> \<not> txsConflict (intent t) (intent u))"

lemma parallel_is_serial:
  assumes "independent pc block ids intent"
    and "\<forall>t \<in> set ids. reads_alike (ti_ChaincodeName (intent t)) (set (ti_ReadKeys (intent t))) a a'"
  shows "rbind (replay_parallel pc block a ids) (\<lambda>rs. merge_results rs a') =
    replay_singles pc block ids a'"
  using assms
proof (induction ids arbitrary: a')
  case (Cons t ids)
  have ind: "independent pc block ids intent"
    using Cons.prems(1) by (auto simp: independent_def)
  have found: "found_intent pc block t (intent t)"
    using Cons.prems(1) by (auto simp: independent_def)
  have eff: "tx_effect pc block a t = tx_effect pc block a' t"
    using Cons.prems by (intro tx_effect_frame [OF found]) simp
  show ?case
  proof (cases "replayTxForParallel pc block a t")
    case (Ok r)
    let ?e = "if tr_err r \<noteq> None then None else Some (tr_ccName r, tr_writes r)"
    have e: "tx_effect pc block a t = Ok ?e" by (simp add: tx_effect_def Ok)
    obtain a'' where a'': "apply_effect ?e a' = Ok a''" using apply_effect_Ok by blast
    have "reads_alike (ti_ChaincodeName (intent u)) (set (ti_ReadKeys (intent u))) a a''"
      if "u \<in> set ids" for u
    proof (rule reads_alike_trans)
      show "reads_alike (ti_ChaincodeName (intent u)) (set (ti_ReadKeys (intent u))) a a'"
        using Cons.prems(2) that by simp
      show "reads_alike (ti_ChaincodeName (intent u)) (set (ti_ReadKeys (intent u))) a' a''"
        using Cons.prems(1) that e a''
        by (intro effect_preserves_reads [OF found, of u]) (auto simp: independent_def)
    qed
    then have "rbind (replay_parallel pc block a ids) (\<lambda>rs. merge_results rs a'') =
        replay_singles pc block ids a''"
      using Cons.IH [OF ind] by blast
    moreover have "replaySingleTx pc block t a' = Ok a''"
      using e a'' eff by (simp add: replaySingleTx_effect)
    ultimately show ?thesis
      using a'' by (auto simp: Ok rbind_assoc merge_results_Cons simp del: merge_results.simps)
  next
    case (Err e)
    then have "tx_effect pc block a' t = Err e" using eff by (simp add: tx_effect_def)
    with Err show ?thesis by (simp add: replaySingleTx_effect)
  next
    case Panic
    then have "tx_effect pc block a' t = Panic" using eff by (simp add: tx_effect_def)
    with Panic show ?thesis by (simp add: replaySingleTx_effect)
  qed
qed simp

lemma reads_alike_refl [simp]: "reads_alike ns K a a"
  by (simp add: reads_alike_def)

lemma replay_batch_serial:
  assumes "independent pc block (be_TxIDs e) intent"
  shows "replay_batch pc block e a = replay_singles pc block (be_TxIDs e) a"
  using parallel_is_serial [OF assms, of a a] by (simp add: replay_batch_def)

lemma replay_singles_append:
  "replay_singles pc block (xs @ ys) a =
     rbind (replay_singles pc block xs a) (replay_singles pc block ys)"
  by (induction xs arbitrary: a) (auto simp: rbind_assoc intro!: rbind_cong)

lemma replay_batches_serial:
  assumes "\<forall>e \<in> set es. independent pc block (be_TxIDs e) intent"
  shows "replay_batches pc block es a = replay_singles pc block (concat (map be_TxIDs es)) a"
  using assms
  by (induction es arbitrary: a)
    (auto simp: replay_batch_serial replay_singles_append intro!: rbind_cong)

lemma nil_on_err_Ok: "nil_on_err m = Ok x \<Longrightarrow> m \<noteq> Panic"
  by (cases m) auto

section \<open>Blocks with distinct transaction ids\<close>

fun header_ids :: "codec \<Rightarrow> bytes list \<Rightarrow> string list" where
  "header_ids pc [] = []"
| "header_ids pc (b # bs) =
     (case channel_header pc b of Ok chdr \<Rightarrow> ch_TxId chdr # header_ids pc bs | _ \<Rightarrow> header_ids pc bs)"

lemma header_ids_mem: "b \<in> set bs \<Longrightarrow> channel_header pc b = Ok chdr \<Longrightarrow> ch_TxId chdr \<in> set (header_ids pc bs)"
  by (induction bs) (auto split: res.split)

lemma extractIntent_no_panic:
  assumes "extractIntentFromEnvBytes pc b = Ok x"
  shows "channel_header pc b \<noteq> Panic"
  using nil_on_err_Ok [OF assms [unfolded extractIntentFromEnvBytes_def]]
  by (auto simp: channel_header_def go_res)

lemma find_loop_distinct:
  assumes "distinct (header_ids pc bs)" and "\<forall>b \<in> set bs. channel_header pc b \<noteq> Panic"
    and "b \<in> set bs" and "channel_header pc b = Ok chdr"
  shows "find_loop pc bs (ch_TxId chdr) = Ok (Some b)"
  using assms
proof (induction bs)
  case (Cons c bs)
  show ?case
  proof (cases "c = b")
    case True
    with Cons.prems(4) show ?thesis by simp
  next
    case False
    then have b: "b \<in> set bs" using Cons.prems(3) by simp
    have "distinct (header_ids pc bs)" using Cons.prems(1) by (auto split: res.splits)
    then have IH: "find_loop pc bs (ch_TxId chdr) = Ok (Some b)"
      using Cons.IH Cons.prems(2,4) b by simp
    show ?thesis
    proof (cases "channel_header pc c")
      case (Ok h)
      have "ch_TxId chdr \<in> set (header_ids pc bs)" by (rule header_ids_mem [OF b Cons.prems(4)])
      with Cons.prems(1) Ok have "ch_TxId h \<noteq> ch_TxId chdr" by auto
      with Ok IH show ?thesis by simp
    next
      case (Err e)
      with IH show ?thesis by simp
    next
      case Panic
      with Cons.prems(2) show ?thesis by simp
    qed
  qed
qed simp

lemma extract_loop_total:
  "extract_loop pc bs = Ok is \<Longrightarrow> \<forall>b \<in> set bs. channel_header pc b \<noteq> Panic"
  by (induction bs arbitrary: "is") (auto simp: go_res dest: extractIntent_no_panic)

lemma extract_loop_mem:
  "extract_loop pc bs = Ok is \<Longrightarrow> i \<in> set is \<Longrightarrow>
     \<exists>b \<in> set bs. extractIntentFromEnvBytes pc b = Ok (Some i)"
proof (induction bs arbitrary: "is")
  case (Cons b bs)
  then obtain x js where "extractIntentFromEnvBytes pc b = Ok x" "extract_loop pc bs = Ok js"
    "is = (case x of None \<Rightarrow> js | Some i \<Rightarrow> i # js)"
    by (auto simp: go_res)
  with Cons show ?case by (cases x) auto
qed simp

lemma extract_loop_ids: "extract_loop pc bs = Ok is \<Longrightarrow> subseq (map ti_TxID is) (header_ids pc bs)"
proof (induction bs arbitrary: "is")
  case (Cons b bs)
  then obtain x js where x: "extractIntentFromEnvBytes pc b = Ok x" and js: "extract_loop pc bs = Ok js"
    and eq: "is = (case x of None \<Rightarrow> js | Some i \<Rightarrow> i # js)"
    by (auto simp: go_res)
  have sub: "subseq (map ti_TxID js) (header_ids pc bs)" by (rule Cons.IH [OF js])
  show ?case
  proof (cases x)
    case None
    with sub eq show ?thesis by (auto split: res.split)
  next
    case (Some i)
    with x extractIntent_TxID [of pc b i] obtain chdr where
      "channel_header pc b = Ok chdr" "ch_TxId chdr = ti_TxID i" by auto
    with sub eq Some show ?thesis by simp
  qed
qed simp

lemma block_found_intent:
  assumes "extractIntentsFromBlock pc block = Ok is" and "distinct (header_ids pc (blk_Data block))"
    and "i \<in> set is"
  shows "found_intent pc block (ti_TxID i) i"
proof -
  have loop: "extract_loop pc (blk_Data block) = Ok is"
    using assms(1) by (simp add: extractIntentsFromBlock_def)
  obtain b where b: "b \<in> set (blk_Data block)" "extractIntentFromEnvBytes pc b = Ok (Some i)"
    using extract_loop_mem [OF loop assms(3)] by auto
  obtain chdr where "channel_header pc b = Ok chdr" "ch_TxId chdr = ti_TxID i"
    using extractIntent_TxID [OF b(2)] by auto
  with find_loop_distinct [OF assms(2) extract_loop_total [OF loop] b(1)] b(2) show ?thesis
    by (auto simp: found_intent_def findTxInBlock_def)
qed

lemma block_distinct_intents:
  assumes "extractIntentsFromBlock pc block = Ok is" and "distinct (header_ids pc (blk_Data block))"
  shows "distinct (map ti_TxID is)"
  using extract_loop_ids [of pc "blk_Data block" "is"] assms
  by (auto simp: extractIntentsFromBlock_def subseq_conv_nths intro: distinct_nthsI)

text \<open>The batches of the orderer's schedule are independent.\<close>

definition intent_by_id :: "TxIntent list \<Rightarrow> string \<Rightarrow> TxIntent" where
  "intent_by_id is t = the (find (\<lambda>i. ti_TxID i = t) is)"

lemma intent_by_id: "distinct (map ti_TxID is) \<Longrightarrow> i \<in> set is \<Longrightarrow> intent_by_id is (ti_TxID i) = i"
  by (induction "is") (auto simp: intent_by_id_def image_iff)

lemma distinct_batch_ids: "distinct (map ti_TxID is) \<Longrightarrow> distinct (batch_ids col is c)"
  by (simp add: batch_ids_def distinct_map_filter)

lemma schedule_independent:
  assumes "extractIntentsFromBlock pc block = Ok is" and "distinct (header_ids pc (blk_Data block))"
    and "e \<in> set (bs_Batches (buildBatchSchedule n is (coloring_of is)))"
  shows "independent pc block (be_TxIDs e) (intent_by_id is)"
proof -
  have dist: "distinct (map ti_TxID is)" by (rule block_distinct_intents [OF assms(1,2)])
  obtain c where c: "be_TxIDs e = batch_ids (coloring_of is) is c"
    using assms(3) by (rule schedule_batch)
  have mem: "\<exists>i \<in> set is. t = ti_TxID i \<and> intent_by_id is t = i" if "t \<in> set (be_TxIDs e)" for t
    using that intent_by_id [OF dist] by (auto simp: c batch_ids_def)
  have color: "tx_color (coloring_of is) i = c" if "i \<in> set is" "ti_TxID i \<in> set (be_TxIDs e)" for i
    using batch_ids_color [OF dist that(1)] that(2) c by simp
  show ?thesis
    unfolding independent_def
  proof (intro conjI ballI impI)
    show "distinct (be_TxIDs e)" unfolding c by (rule distinct_batch_ids [OF dist])
    show "found_intent pc block t (intent_by_id is t)" if "t \<in> set (be_TxIDs e)" for t
      using mem [OF that] block_found_intent [OF assms(1,2)] by metis
    show "\<not> txsConflict (intent_by_id is t) (intent_by_id is u)"
      if "t \<in> set (be_TxIDs e)" "u \<in> set (be_TxIDs e)" "t \<noteq> u" for t u
      using mem [OF that(1)] mem [OF that(2)] that color same_batch_no_conflict by metis
  qed
qed

lemma commit_serial:
  assumes "extractIntentsFromBlock pc block = Ok is" and "distinct (header_ids pc (blk_Data block))"
  shows "CommitBenchmarkTxs pc block (buildBatchSchedule n is (coloring_of is)) GetState ApplyUpdates =
    rbind (replay_singles pc block
        (concat (map be_TxIDs (bs_Batches (buildBatchSchedule n is (coloring_of is)))))
        (NewStateDBAdapter GetState (bh_Number (blk_Header block)) (length (blk_Data block))))
      (adapter_Flush ApplyUpdates)"
  using replay_batches_serial [of "bs_Batches (buildBatchSchedule n is (coloring_of is))" pc block
      "intent_by_id is"] schedule_independent [OF assms]
  by (simp add: CommitBenchmarkTxs_def)
section \<open>Properties\<close>




definition sample_schedule :: BatchSchedule where
  "sample_schedule = buildBatchSchedule 7 sample_intents
     (greedyGraphColoring (buildConflictGraph sample_intents))"


end
