(* ===== verification/RWSet.thy ===== *)
theory RWSet
  imports State_DB
begin

text \<open>
  Read-write sets: the messages of \<open>protos/ledger/rwset\<close>, their conversion to and from bytes
  (\<open>rwsetutil/rwset_proto_util.go\<close>), and the builder that records what a simulation reads, writes
  and scans (\<open>rwsetutil/rwset_builder.go\<close>).

  The protobuf runtime for these messages is an \<open>rw_codec\<close>: marshalling and unmarshalling can both
  fail. What the code relies on, that unmarshalling undoes marshalling, is \<open>rw_codec_laws\<close>.

  The lemmas show that a set survives the trip through bytes, and that the builder hands out, for
  each namespace in order, the last version read and the last value written of each key in order,
  and the first description of each range query.
\<close>

section \<open>Messages\<close>

record ProtoVersion =
  pv_BlockNum :: uint64
  pv_TxNum :: uint64

record KVRead =
  kr_Key :: string
  kr_Version :: "ProtoVersion option"

record KVWrite =
  kw_Key :: string
  kw_IsDelete :: bool
  kw_Value :: "bytes option"

record QueryReadsMerkleSummary =
  ms_MaxDegree :: uint32
  ms_MaxLevel :: uint32
  ms_MaxLevelHashes :: "bytes list"

text \<open>The oneof \<open>reads_info\<close>: raw reads or the summary of their Merkle tree.\<close>

datatype reads_info = RawReads "KVRead list" | ReadsMerkleHashes QueryReadsMerkleSummary

record RangeQueryInfo =
  rq_StartKey :: string
  rq_EndKey :: string
  rq_ItrExhausted :: bool
  rq_ReadsInfo :: "reads_info option"

record KVRWSet =
  kv_Reads :: "KVRead list"
  kv_RangeQueriesInfo :: "RangeQueryInfo list"
  kv_Writes :: "KVWrite list"

record NsReadWriteSet =
  pns_Namespace :: string
  pns_Rwset :: bytes

record TxReadWriteSet =
  ptx_DataModel :: nat
  ptx_NsRwset :: "NsReadWriteSet list"

definition TxReadWriteSet_KV :: nat where "TxReadWriteSet_KV = 0"

record rw_codec =
  un_TxReadWriteSet :: "bytes \<Rightarrow> (string, TxReadWriteSet) res"
  en_TxReadWriteSet :: "TxReadWriteSet \<Rightarrow> (string, bytes) res"
  un_KVRWSet :: "bytes \<Rightarrow> (string, KVRWSet) res"
  en_KVRWSet :: "KVRWSet \<Rightarrow> (string, bytes) res"
  en_QueryReads :: "KVRead list \<Rightarrow> (string, bytes) res"

text \<open>Marshalling then unmarshalling gives the message back.\<close>

definition rw_codec_laws :: "rw_codec \<Rightarrow> bool" where
  "rw_codec_laws rc \<longleftrightarrow>
     (\<forall>m b. en_TxReadWriteSet rc m = Ok b \<longrightarrow> un_TxReadWriteSet rc b = Ok m) \<and>
     (\<forall>m b. en_KVRWSet rc m = Ok b \<longrightarrow> un_KVRWSet rc b = Ok m)"

section \<open>Conversion\<close>

record NsRwSet =
  nrw_NameSpace :: string
  nrw_KvRwSet :: KVRWSet

record TxRwSet =
  trw_NsRwSets :: "NsRwSet list"

fun to_proto_loop :: "rw_codec \<Rightarrow> NsRwSet list \<Rightarrow> NsReadWriteSet list \<Rightarrow> (string, NsReadWriteSet list) res" where
  "to_proto_loop rc [] acc = Ok acc"
| "to_proto_loop rc (nsRwSet # rest) acc =
     rbind (en_KVRWSet rc (nrw_KvRwSet nsRwSet)) (\<lambda>protoRwSetBytes.
     to_proto_loop rc rest
       (acc @ [\<lparr>pns_Namespace = nrw_NameSpace nsRwSet, pns_Rwset = protoRwSetBytes\<rparr>]))"

definition ToProtoBytes :: "rw_codec \<Rightarrow> TxRwSet \<Rightarrow> (string, bytes) res" where
  "ToProtoBytes rc txRwSet =
     rbind (to_proto_loop rc (trw_NsRwSets txRwSet) []) (\<lambda>nss.
     en_TxReadWriteSet rc \<lparr>ptx_DataModel = TxReadWriteSet_KV, ptx_NsRwset = nss\<rparr>)"

fun from_proto_loop :: "rw_codec \<Rightarrow> NsReadWriteSet list \<Rightarrow> NsRwSet list \<Rightarrow> (string, NsRwSet list) res" where
  "from_proto_loop rc [] acc = Ok acc"
| "from_proto_loop rc (protoNsRwSet # rest) acc =
     rbind (un_KVRWSet rc (pns_Rwset protoNsRwSet)) (\<lambda>protoKvRwSet.
     from_proto_loop rc rest
       (acc @ [\<lparr>nrw_NameSpace = pns_Namespace protoNsRwSet, nrw_KvRwSet = protoKvRwSet\<rparr>]))"

text \<open>The loop appends to the receiver's list.\<close>

definition FromProtoBytes :: "rw_codec \<Rightarrow> bytes \<Rightarrow> TxRwSet \<Rightarrow> (string, TxRwSet) res" where
  "FromProtoBytes rc protoBytes txRwSet =
     rbind (un_TxReadWriteSet rc protoBytes) (\<lambda>protoTxRwSet.
     rbind (from_proto_loop rc (ptx_NsRwset protoTxRwSet) (trw_NsRwSets txRwSet)) (\<lambda>nss.
     Ok (txRwSet\<lparr>trw_NsRwSets := nss\<rparr>)))"

definition NewVersion :: "ProtoVersion option \<Rightarrow> Height option" where
  "NewVersion protoVersion =
     (case protoVersion of None \<Rightarrow> None | Some v \<Rightarrow> Some (NewHeight (pv_BlockNum v) (pv_TxNum v)))"

definition newProtoVersion :: "Height option \<Rightarrow> ProtoVersion option" where
  "newProtoVersion height =
     (case height of None \<Rightarrow> None | Some h \<Rightarrow> Some \<lparr>pv_BlockNum = BlockNum h, pv_TxNum = TxNum h\<rparr>)"

definition NewKVRead :: "string \<Rightarrow> Height option \<Rightarrow> KVRead" where
  "NewKVRead key version = \<lparr>kr_Key = key, kr_Version = newProtoVersion version\<rparr>"

definition newKVWrite :: "string \<Rightarrow> bytes option \<Rightarrow> KVWrite" where
  "newKVWrite key value = \<lparr>kw_Key = key, kw_IsDelete = (value = None), kw_Value = value\<rparr>"

section \<open>The builder\<close>

record rangeQueryKey =
  rqk_startKey :: string
  rqk_endKey :: string
  rqk_itrExhausted :: bool

record nsRWs =
  rw_readMap :: "(string, KVRead) gomap"
  rw_writeMap :: "(string, KVWrite) gomap"
  rw_rangeQueriesMap :: "(rangeQueryKey, RangeQueryInfo) gomap"
  rw_rangeQueriesKeys :: "rangeQueryKey list"

definition newNsRWs :: nsRWs where
  "newNsRWs = \<lparr>rw_readMap = [], rw_writeMap = [], rw_rangeQueriesMap = [], rw_rangeQueriesKeys = []\<rparr>"

type_synonym RWSetBuilder = "(string, nsRWs) gomap"

definition NewRWSetBuilder :: RWSetBuilder where
  "NewRWSetBuilder = []"

definition getOrCreateNsRW :: "RWSetBuilder \<Rightarrow> string \<Rightarrow> nsRWs" where
  "getOrCreateNsRW rws ns = (case map_of rws ns of Some n \<Rightarrow> n | None \<Rightarrow> newNsRWs)"

definition AddToReadSet :: "string \<Rightarrow> string \<Rightarrow> Height option \<Rightarrow> RWSetBuilder \<Rightarrow> RWSetBuilder" where
  "AddToReadSet ns key version rws =
     (let n = getOrCreateNsRW rws ns
      in AList.update ns (n\<lparr>rw_readMap := AList.update key (NewKVRead key version) (rw_readMap n)\<rparr>) rws)"

definition AddToWriteSet :: "string \<Rightarrow> string \<Rightarrow> bytes option \<Rightarrow> RWSetBuilder \<Rightarrow> RWSetBuilder" where
  "AddToWriteSet ns key value rws =
     (let n = getOrCreateNsRW rws ns
      in AList.update ns (n\<lparr>rw_writeMap := AList.update key (newKVWrite key value) (rw_writeMap n)\<rparr>) rws)"

definition rqi_key :: "RangeQueryInfo \<Rightarrow> rangeQueryKey" where
  "rqi_key rqi = \<lparr>rqk_startKey = rq_StartKey rqi, rqk_endKey = rq_EndKey rqi,
     rqk_itrExhausted = rq_ItrExhausted rqi\<rparr>"

definition AddToRangeQuerySet :: "string \<Rightarrow> RangeQueryInfo \<Rightarrow> RWSetBuilder \<Rightarrow> RWSetBuilder" where
  "AddToRangeQuerySet ns rqi rws =
     (let n = getOrCreateNsRW rws ns; key = rqi_key rqi
      in AList.update ns
           (if map_of (rw_rangeQueriesMap n) key = None
            then n\<lparr>rw_rangeQueriesMap := AList.update key rqi (rw_rangeQueriesMap n),
                   rw_rangeQueriesKeys := rw_rangeQueriesKeys n @ [key]\<rparr>
            else n) rws)"

text \<open>
  The values of a map at keys of its own; a lookup of the loops below never misses.
\<close>

definition values_at :: "('k, 'v) gomap \<Rightarrow> 'k list \<Rightarrow> 'v list" where
  "values_at m ks = List.map_filter (map_of m) ks"

definition ns_rw_set :: "string \<Rightarrow> nsRWs \<Rightarrow> NsRwSet" where
  "ns_rw_set ns n =
     \<lparr>nrw_NameSpace = ns,
      nrw_KvRwSet =
        \<lparr>kv_Reads = values_at (rw_readMap n) (GetSortedKeys (rw_readMap n)),
         kv_RangeQueriesInfo = values_at (rw_rangeQueriesMap n) (rw_rangeQueriesKeys n),
         kv_Writes = values_at (rw_writeMap n) (GetSortedKeys (rw_writeMap n))\<rparr>\<rparr>"

definition GetTxReadWriteSet :: "RWSetBuilder \<Rightarrow> TxRwSet" where
  "GetTxReadWriteSet rws =
     \<lparr>trw_NsRwSets = List.map_filter (\<lambda>ns. map_option (ns_rw_set ns) (map_of rws ns)) (GetSortedKeys rws)\<rparr>"

section \<open>Round trip\<close>

lemma from_to_proto_loop:
  assumes "rw_codec_laws rc" and "to_proto_loop rc xs acc = Ok ps"
  shows "\<exists>ys. ps = acc @ ys \<and> (\<forall>zs. from_proto_loop rc ys zs = Ok (zs @ xs))"
  using assms(2)
proof (induction xs arbitrary: acc)
  case (Cons x xs)
  then obtain b where b: "en_KVRWSet rc (nrw_KvRwSet x) = Ok b"
    and rest: "to_proto_loop rc xs (acc @ [\<lparr>pns_Namespace = nrw_NameSpace x, pns_Rwset = b\<rparr>]) = Ok ps"
    by (auto simp: go_res)
  from Cons.IH [OF rest] obtain ys where ys:
      "ps = acc @ \<lparr>pns_Namespace = nrw_NameSpace x, pns_Rwset = b\<rparr> # ys"
      "\<forall>zs. from_proto_loop rc ys zs = Ok (zs @ xs)"
    by auto
  moreover have "un_KVRWSet rc b = Ok (nrw_KvRwSet x)" using assms(1) b by (auto simp: rw_codec_laws_def)
  ultimately show ?case by (auto intro!: exI [of _ "\<lparr>pns_Namespace = nrw_NameSpace x, pns_Rwset = b\<rparr> # ys"])
qed simp

section \<open>What the builder hands out\<close>

text \<open>The calls of a simulation, in order.\<close>

datatype rw_event =
    EvRead string string "Height option"
  | EvWrite string string "bytes option"
  | EvRange string RangeQueryInfo

fun ev_ns :: "rw_event \<Rightarrow> string" where
  "ev_ns (EvRead ns k v) = ns"
| "ev_ns (EvWrite ns k v) = ns"
| "ev_ns (EvRange ns q) = ns"

fun ev_step :: "rw_event \<Rightarrow> RWSetBuilder \<Rightarrow> RWSetBuilder" where
  "ev_step (EvRead ns k v) = AddToReadSet ns k v"
| "ev_step (EvWrite ns k v) = AddToWriteSet ns k v"
| "ev_step (EvRange ns q) = AddToRangeQuerySet ns q"

definition build :: "rw_event list \<Rightarrow> RWSetBuilder" where
  "build es = fold ev_step es NewRWSetBuilder"

text \<open>The calls on one namespace, by kind.\<close>

definition reads_of :: "string \<Rightarrow> rw_event list \<Rightarrow> (string \<times> Height option) list" where
  "reads_of ns es =
     List.map_filter (\<lambda>e. case e of EvRead n k v \<Rightarrow> if n = ns then Some (k, v) else None | _ \<Rightarrow> None) es"

definition writes_of :: "string \<Rightarrow> rw_event list \<Rightarrow> (string \<times> bytes option) list" where
  "writes_of ns es =
     List.map_filter (\<lambda>e. case e of EvWrite n k v \<Rightarrow> if n = ns then Some (k, v) else None | _ \<Rightarrow> None) es"

definition ranges_of :: "string \<Rightarrow> rw_event list \<Rightarrow> RangeQueryInfo list" where
  "ranges_of ns es =
     List.map_filter (\<lambda>e. case e of EvRange n q \<Rightarrow> if n = ns then Some q else None | _ \<Rightarrow> None) es"

text \<open>The elements of a list whose key occurs for the first time.\<close>

definition keep_first :: "('a \<Rightarrow> 'k) \<Rightarrow> 'a list \<Rightarrow> 'a list" where
  "keep_first f xs = fold (\<lambda>x acc. if f x \<in> f ` set acc then acc else acc @ [x]) xs []"

lemma keep_first_snoc:
  "keep_first f (xs @ [x]) =
     (if f x \<in> f ` set (keep_first f xs) then keep_first f xs else keep_first f xs @ [x])"
  by (simp add: keep_first_def)

lemma distinct_keep_first: "distinct (map f (keep_first f xs))"
  by (induction xs rule: rev_induct) (auto simp: keep_first_snoc, simp add: keep_first_def)

text \<open>The contents of a namespace after a sequence of calls.\<close>

definition built_ns :: "string \<Rightarrow> rw_event list \<Rightarrow> nsRWs" where
  "built_ns ns es =
     \<lparr>rw_readMap = go_map_of (map (\<lambda>(k, v). (k, NewKVRead k v)) (reads_of ns es)),
      rw_writeMap = go_map_of (map (\<lambda>(k, v). (k, newKVWrite k v)) (writes_of ns es)),
      rw_rangeQueriesMap = map (\<lambda>q. (rqi_key q, q)) (keep_first rqi_key (ranges_of ns es)),
      rw_rangeQueriesKeys = map rqi_key (keep_first rqi_key (ranges_of ns es))\<rparr>"

lemma go_map_of_snoc: "go_map_of (ps @ [(k, v)]) = AList.update k v (go_map_of ps)"
  by (simp add: go_map_of_def)

lemma update_fresh: "k \<notin> fst ` set m \<Longrightarrow> AList.update k v m = m @ [(k, v)]"
  by (induction m) auto

lemma map_filter_append: "List.map_filter f (xs @ ys) = List.map_filter f xs @ List.map_filter f ys"
  by (simp add: List.map_filter_def)

lemmas event_lists = reads_of_def writes_of_def ranges_of_def map_filter_append map_filter_simps

lemma step_built:
  assumes "\<And>ns. getOrCreateNsRW rws ns = built_ns ns es"
  shows "getOrCreateNsRW (ev_step e rws) ns = built_ns ns (es @ [e])"
proof (cases e)
  case (EvRead n k v)
  with assms [of n] assms [of ns] show ?thesis
    by (auto simp: AddToReadSet_def Let_def getOrCreateNsRW_def [of "AList.update _ _ _"]
        getOrCreateNsRW_def [symmetric] built_ns_def event_lists go_map_of_snoc)
next
  case (EvWrite n k v)
  with assms [of n] assms [of ns] show ?thesis
    by (auto simp: AddToWriteSet_def Let_def getOrCreateNsRW_def [of "AList.update _ _ _"]
        getOrCreateNsRW_def [symmetric] built_ns_def event_lists go_map_of_snoc)
next
  case (EvRange n q)
  with assms [of n] assms [of ns] show ?thesis
    by (auto simp: AddToRangeQuerySet_def Let_def getOrCreateNsRW_def [of "AList.update _ _ _"]
        getOrCreateNsRW_def [symmetric] built_ns_def event_lists keep_first_snoc map_of_eq_None_iff
        image_image update_fresh)
qed

lemma build_ns: "getOrCreateNsRW (build es) ns = built_ns ns es"
proof (induction es arbitrary: ns rule: rev_induct)
  case Nil
  then show ?case
    by (simp add: build_def NewRWSetBuilder_def getOrCreateNsRW_def newNsRWs_def built_ns_def
        event_lists go_map_of_def keep_first_def)
next
  case (snoc e es)
  then show ?case using step_built [of "build es" es e ns] by (simp add: build_def)
qed

lemma build_dom: "fst ` set (build es) = ev_ns ` set es \<and> distinct (map fst (build es))"
proof (induction es rule: rev_induct)
  case Nil
  then show ?case by (simp add: build_def NewRWSetBuilder_def)
next
  case (snoc e es)
  then show ?case
    by (cases e) (auto simp: build_def AddToReadSet_def AddToWriteSet_def AddToRangeQuerySet_def
        Let_def distinct_update dom_update)
qed

lemma build_lookup: "ns \<in> ev_ns ` set es \<Longrightarrow> map_of (build es) ns = Some (built_ns ns es)"
  using build_dom [of es] build_ns [of es ns]
  by (auto simp: getOrCreateNsRW_def map_of_eq_None_iff split: option.splits)

lemma GetSortedKeys_set: "distinct (map fst m) \<Longrightarrow> GetSortedKeys m = sorted_list_of_set (fst ` set m)"
  using sorted_list_of_set_sort_remdups [of "map fst m"]
  by (simp add: GetSortedKeys_def sort_Strings_def distinct_remdups_id)

lemma map_filter_Some: "(\<And>x. x \<in> set xs \<Longrightarrow> f x = Some (g x)) \<Longrightarrow> List.map_filter f xs = map g xs"
  by (induction xs) (simp_all add: map_filter_simps)

lemma values_at_go_map:
  "values_at (go_map_of ps) (GetSortedKeys (go_map_of ps)) =
     map (\<lambda>k. the (map_of (rev ps) k)) (sorted_list_of_set (fst ` set ps))"
proof -
  have dom: "fst ` set (go_map_of ps) = fst ` set ps"
    using arg_cong [OF map_of_go_map_of [of ps], of dom] by (simp add: dom_map_of_conv_image_fst)
  show ?thesis
    unfolding values_at_def GetSortedKeys_set [OF distinct_go_map_of] dom
    by (intro map_filter_Some)
      (simp add: map_of_go_map_of, metis dom_map_of_conv_image_fst domD option.sel set_rev)
qed

lemma values_at_self: 
  assumes "distinct (map fst m)"
  shows "values_at m (map fst m) = map snd m"
proof -
  have "values_at m (map fst m) = map (\<lambda>k. the (map_of m k)) (map fst m)"
    unfolding values_at_def
    by (rule map_filter_Some) (use map_of_eq_None_iff [of m] in fastforce)
  with assms show ?thesis by auto
qed

text \<open>The set for one namespace, from the calls.\<close>

definition spec_ns :: "rw_event list \<Rightarrow> string \<Rightarrow> NsRwSet" where
  "spec_ns es ns =
     \<lparr>nrw_NameSpace = ns,
      nrw_KvRwSet =
        \<lparr>kv_Reads = map (\<lambda>k. NewKVRead k (the (map_of (rev (reads_of ns es)) k)))
           (sorted_list_of_set (fst ` set (reads_of ns es))),
         kv_RangeQueriesInfo = keep_first rqi_key (ranges_of ns es),
         kv_Writes = map (\<lambda>k. newKVWrite k (the (map_of (rev (writes_of ns es)) k)))
           (sorted_list_of_set (fst ` set (writes_of ns es)))\<rparr>\<rparr>"

lemma map_of_pairs: "map_of (rev (map (\<lambda>(k, v). (k, f k v)) ps)) k = map_option (f k) (map_of (rev ps) k)"
  by (induction ps rule: rev_induct) auto

lemma values_at_pairs:
  "values_at (go_map_of (map (\<lambda>(k, v). (k, f k v)) ps))
     (GetSortedKeys (go_map_of (map (\<lambda>(k, v). (k, f k v)) ps))) =
   map (\<lambda>k. f k (the (map_of (rev ps) k))) (sorted_list_of_set (fst ` set ps))"
proof -
  have "fst ` set (map (\<lambda>(k, v). (k, f k v)) ps) = fst ` set ps" by force
  moreover have "the (map_of (rev (map (\<lambda>(k, v). (k, f k v)) ps)) k) = f k (the (map_of (rev ps) k))"
    if "k \<in> fst ` set ps" for k
    using that unfolding map_of_pairs
    by (metis dom_map_of_conv_image_fst domD option.map_sel option.sel option.simps(3) set_rev)
  ultimately show ?thesis by (simp only: values_at_go_map) simp
qed

lemma ns_rw_set_built: "ns_rw_set ns (built_ns ns es) = spec_ns es ns"
  using values_at_self [of "map (\<lambda>q. (rqi_key q, q)) (keep_first rqi_key (ranges_of ns es))"]
  by (simp add: ns_rw_set_def spec_ns_def built_ns_def values_at_pairs comp_def distinct_keep_first)

lemma GetTxReadWriteSet_build:
  "GetTxReadWriteSet (build es) =
     \<lparr>trw_NsRwSets = map (spec_ns es) (sorted_list_of_set (ev_ns ` set es))\<rparr>"
proof -
  have "GetSortedKeys (build es) = sorted_list_of_set (ev_ns ` set es)"
    using build_dom [of es] GetSortedKeys_set [of "build es"] by simp
  moreover have "List.map_filter (\<lambda>ns. map_option (ns_rw_set ns) (map_of (build es) ns))
      (sorted_list_of_set (ev_ns ` set es)) = map (spec_ns es) (sorted_list_of_set (ev_ns ` set es))"
    by (intro map_filter_Some) (simp add: build_lookup ns_rw_set_built)
  ultimately show ?thesis by (simp add: GetTxReadWriteSet_def)
qed

section \<open>Properties\<close>

text \<open>C18: the read-write set of a simulation is canonical. It has one entry per namespace touched, in
ascending order; the reads of an entry are in ascending key order, one per key read, with the version
of the last read; the writes likewise with the last value; and the range queries are in the order of
their first occurrence, one per start key, end key and exhaustion flag.\<close>

theorem builder_canonical:
  "GetTxReadWriteSet (build es) =
     \<lparr>trw_NsRwSets = map (spec_ns es) (sorted_list_of_set (ev_ns ` set es))\<rparr>"
  by (rule GetTxReadWriteSet_build)


text \<open>A runtime that knows one set, of one read and one write.\<close>

definition sample_kvrwset :: KVRWSet where
  "sample_kvrwset =
     \<lparr>kv_Reads = [\<lparr>kr_Key = ''k'', kr_Version = Some \<lparr>pv_BlockNum = 1, pv_TxNum = 0\<rparr>\<rparr>],
      kv_RangeQueriesInfo = [], kv_Writes = [newKVWrite ''k'' (Some ''v'')]\<rparr>"

definition sample_rw_codec :: rw_codec where
  "sample_rw_codec =
     \<lparr>un_TxReadWriteSet = (\<lambda>b. if b = ''tx'' then
        Ok \<lparr>ptx_DataModel = 0, ptx_NsRwset = [\<lparr>pns_Namespace = ''ns'', pns_Rwset = ''kv''\<rparr>]\<rparr>
        else Err ''unexpected''),
      en_TxReadWriteSet = (\<lambda>m. if m = \<lparr>ptx_DataModel = 0,
        ptx_NsRwset = [\<lparr>pns_Namespace = ''ns'', pns_Rwset = ''kv''\<rparr>]\<rparr> then Ok ''tx'' else Err ''unexpected''),
      un_KVRWSet = (\<lambda>b. if b = ''kv'' then Ok sample_kvrwset else Err ''unexpected''),
      en_KVRWSet = (\<lambda>m. if m = sample_kvrwset then Ok ''kv'' else Err ''unexpected''),
      en_QueryReads = (\<lambda>rs. Ok (concat (map kr_Key rs)))\<rparr>"

lemma sample_rw_codec_laws: "rw_codec_laws sample_rw_codec"
  by (simp add: rw_codec_laws_def sample_rw_codec_def)


end
