(* ===== verification/Merkle.thy ===== *)
theory Merkle
  imports RWSet "HOL-Library.Sublist"
begin

text \<open>
  The summary of a range query's results: \<open>rwsetutil/query_results_helper.go\<close>. The results are
  hashed in groups of \<open>maxDegree + 1\<close> into the leaves of a tree that is built from the left: a level
  that holds more than \<open>maxDegree\<close> hashes is replaced by one hash on the level above.

  The hash of the crypto provider (\<open>bccspfactory.GetDefault().Hash\<close>) is the argument \<open>H\<close>; like every
  Go call it may fail. The levels of the tree, a \<open>uint32\<close> in the code, are natural numbers: their
  number is logarithmic in the number of results. The loop of \<open>update\<close> takes fuel for one level more
  than the tree has; the lemmas show that this is enough for every degree that \<open>newMerkleTree\<close>
  accepts.

  The lemmas show that no level keeps more than \<open>maxDegree\<close> hashes, that adding results only extends
  the top level or starts a new one, and which results a summary is made for.
\<close>

type_synonym hasher = "bytes \<Rightarrow> string + bytes"

section \<open>The tree\<close>

record merkleTree =
  mt_tree :: "(nat, bytes list) gomap"
  mt_maxLevel :: nat
  mt_maxDegree :: uint32

definition leafLevel :: nat where "leafLevel = 1"

definition newMerkleTree :: "uint32 \<Rightarrow> (string, merkleTree) res" where
  "newMerkleTree maxDegree =
     (if maxDegree < 2 then 
        Err (''maxDegree [is '' @ FormatUint (unat maxDegree) @ ''] should not be less than 2 in the merkle tree'')
      else Ok \<lparr>mt_tree = [], mt_maxLevel = 1, mt_maxDegree = maxDegree\<rparr>)"

definition computeCombinedHash :: "hasher \<Rightarrow> bytes list \<Rightarrow> string + bytes" where
  "computeCombinedHash H hashes = H (concat hashes)"

text \<open>Both operations return the tree as they leave it, with the error if there is one.\<close>

fun update_loop :: "hasher \<Rightarrow> nat \<Rightarrow> nat \<Rightarrow> merkleTree \<Rightarrow> (merkleTree \<times> string option) option" where
  "update_loop H 0 currentLevel m = None"
| "update_loop H (Suc n) currentLevel m =
     (let currentLevelHashes = get_list (mt_tree m) currentLevel
      in if of_nat (length currentLevelHashes) \<le> mt_maxDegree m then Some (m, None)
      else
        (case computeCombinedHash H currentLevelHashes of
           Inl err \<Rightarrow> Some (m, Some err)
         | Inr nextLevelHash \<Rightarrow>
             (let nextLevel = currentLevel + 1
              in update_loop H n nextLevel
                   (m\<lparr>mt_tree := append_at nextLevel nextLevelHash (AList.delete currentLevel (mt_tree m)),
                      mt_maxLevel := (if nextLevel > mt_maxLevel m then nextLevel else mt_maxLevel m)\<rparr>))))"

definition mt_update :: "hasher \<Rightarrow> bytes \<Rightarrow> merkleTree \<Rightarrow> merkleTree \<times> string option" where
  "mt_update H nextLeafLevelHash m =
     (let m1 = m\<lparr>mt_tree := append_at leafLevel nextLeafLevelHash (mt_tree m)\<rparr>
      in case update_loop H (mt_maxLevel m1 + 2) leafLevel m1 of Some r \<Rightarrow> r | None \<Rightarrow> (m1, None))"

function done_loop :: "hasher \<Rightarrow> nat \<Rightarrow> merkleTree \<Rightarrow> merkleTree \<times> string option" where
  "done_loop H currentLevel m =
     (if currentLevel < mt_maxLevel m then
        (case get_list (mt_tree m) currentLevel of
           [] \<Rightarrow> done_loop H (currentLevel + 1) m
         | h # rest \<Rightarrow>
             (case (if rest = [] then Inr h else computeCombinedHash H (h # rest)) of
                Inl err \<Rightarrow> (m, Some err)
              | Inr h' \<Rightarrow>
                  done_loop H (currentLevel + 1)
                    (m\<lparr>mt_tree := append_at (currentLevel + 1) h' (AList.delete currentLevel (mt_tree m))\<rparr>)))
      else (m, None))"
  by pat_completeness auto
termination
  by (relation "measure (\<lambda>(H, l, m). mt_maxLevel m - l)") auto

declare done_loop.simps [simp del]

definition mt_done :: "hasher \<Rightarrow> merkleTree \<Rightarrow> merkleTree \<times> string option" where
  "mt_done H m =
     (case done_loop H leafLevel m of
        (m1, Some err) \<Rightarrow> (m1, Some err)
      | (m1, None) \<Rightarrow>
          (let finalHashes = get_list (mt_tree m1) (mt_maxLevel m1)
           in if of_nat (length finalHashes) > mt_maxDegree m1 then
                (let m2 = m1\<lparr>mt_tree := AList.delete (mt_maxLevel m1) (mt_tree m1),
                             mt_maxLevel := mt_maxLevel m1 + 1\<rparr>
                 in case computeCombinedHash H finalHashes of
                      Inl err \<Rightarrow> (m2, Some err)
                    | Inr combinedHash \<Rightarrow>
                        (m2\<lparr>mt_tree := AList.update (mt_maxLevel m2) [combinedHash] (mt_tree m2)\<rparr>, None))
              else (m1, None)))"

definition getMaxLevelHashes :: "merkleTree \<Rightarrow> bytes list" where
  "getMaxLevelHashes m = get_list (mt_tree m) (mt_maxLevel m)"

definition getSummery :: "merkleTree \<Rightarrow> QueryReadsMerkleSummary" where
  "getSummery m =
     \<lparr>ms_MaxDegree = mt_maxDegree m, ms_MaxLevel = of_nat (mt_maxLevel m),
      ms_MaxLevelHashes = getMaxLevelHashes m\<rparr>"

definition mt_isEmpty :: "merkleTree \<Rightarrow> bool" where
  "mt_isEmpty m \<longleftrightarrow> mt_maxLevel m = 1 \<and> length (get_list (mt_tree m) (mt_maxLevel m)) = 0"

section \<open>The helper\<close>

record RangeQueryResultsHelper =
  rh_pendingResults :: "KVRead list"
  rh_mt :: "merkleTree option"
  rh_maxDegree :: uint32
  rh_hashingEnabled :: bool

definition NewRangeQueryResultsHelper :: "bool \<Rightarrow> uint32 \<Rightarrow> (string, RangeQueryResultsHelper) res" where
  "NewRangeQueryResultsHelper enableHashing maxDegree =
     (let helper = \<lparr>rh_pendingResults = [], rh_mt = None, rh_maxDegree = maxDegree,
                    rh_hashingEnabled = enableHashing\<rparr>
      in if enableHashing
         then rbind (newMerkleTree maxDegree) (\<lambda>mt. Ok (helper\<lparr>rh_mt := Some mt\<rparr>))
         else Ok helper)"

definition serializeKVReads :: "rw_codec \<Rightarrow> KVRead list \<Rightarrow> (string, bytes) res" where
  "serializeKVReads rc kvReads = en_QueryReads rc kvReads"

text \<open>
  The helper as it is left, with the error if there is one; the error of \<open>mt.update\<close> is dropped.
\<close>

definition processPendingResults ::
    "rw_codec \<Rightarrow> hasher \<Rightarrow> RangeQueryResultsHelper \<Rightarrow>
      (string, RangeQueryResultsHelper \<times> string option) res" where
  "processPendingResults rc H helper =
     (case serializeKVReads rc (rh_pendingResults helper) of
        Panic \<Rightarrow> Panic
      | Err err \<Rightarrow> Ok (helper, Some err)
      | Ok b \<Rightarrow>
          (let helper1 = helper\<lparr>rh_pendingResults := []\<rparr>
           in case H b of
                Inl err \<Rightarrow> Ok (helper1, Some err)
              | Inr hash \<Rightarrow>
                  rbind (deref (rh_mt helper1)) (\<lambda>mt.
                  Ok (helper1\<lparr>rh_mt := Some (fst (mt_update H hash mt))\<rparr>, None))))"

definition AddResult ::
    "rw_codec \<Rightarrow> hasher \<Rightarrow> KVRead \<Rightarrow> RangeQueryResultsHelper \<Rightarrow>
      (string, RangeQueryResultsHelper \<times> string option) res" where
  "AddResult rc H kvRead helper =
     (let helper1 = helper\<lparr>rh_pendingResults := rh_pendingResults helper @ [kvRead]\<rparr>
      in if rh_hashingEnabled helper1 \<and>
            (of_nat (length (rh_pendingResults helper1)) :: uint32) > rh_maxDegree helper1
         then processPendingResults rc H helper1
         else Ok (helper1, None))"

text \<open>The raw results and the summary; the error of \<open>mt.done\<close> is dropped.\<close>

definition helper_Done ::
    "rw_codec \<Rightarrow> hasher \<Rightarrow> RangeQueryResultsHelper \<Rightarrow>
      (string, KVRead list \<times> QueryReadsMerkleSummary option) res" where
  "helper_Done rc H helper =
     (if \<not> rh_hashingEnabled helper then Ok (rh_pendingResults helper, None)
      else
        rbind (deref (rh_mt helper)) (\<lambda>mt.
        if mt_isEmpty mt then Ok (rh_pendingResults helper, None)
        else
          rbind (if rh_pendingResults helper \<noteq> [] then processPendingResults rc H helper
                 else Ok (helper, None)) (\<lambda>(helper1, err).
          case err of
            Some e \<Rightarrow> Err e
          | None \<Rightarrow>
              rbind (deref (rh_mt helper1)) (\<lambda>mt1.
              Ok (rh_pendingResults helper1, Some (getSummery (fst (mt_done H mt1))))))))"

definition GetMerkleSummary ::
    "RangeQueryResultsHelper \<Rightarrow> (string, QueryReadsMerkleSummary option) res" where
  "GetMerkleSummary helper =
     (if \<not> rh_hashingEnabled helper then Ok None
      else rbind (deref (rh_mt helper)) (\<lambda>mt. Ok (Some (getSummery mt))))"

section \<open>Levels\<close>

abbreviation level :: "merkleTree \<Rightarrow> nat \<Rightarrow> bytes list" where
  "level m l \<equiv> get_list (mt_tree m) l"

lemma get_list_delete [go_map, simp]:
  "get_list (AList.delete k m) l = (if l = k then [] else get_list m l)"
  by (simp add: get_list_def delete_conv)

lemma get_list_update [go_map, simp]:
  "get_list (AList.update k v m) l = (if l = k then v else get_list m l)"
  by (simp add: get_list_def)

text \<open>
  A degree for which lengths up to one more than it are compared exactly: from 2 up to two below the
  largest \<open>uint32\<close>.
\<close>

definition degree_ok :: "uint32 \<Rightarrow> bool" where
  "degree_ok d \<longleftrightarrow> 2 \<le> d \<and> unat d + 1 < 2 ^ 32"

lemma degree_ge: "degree_ok d \<Longrightarrow> 2 \<le> unat d"
  by (simp add: degree_ok_def word_le_nat_alt)

lemma length_le_degree:
  assumes "degree_ok d" and "n \<le> unat d + 1"
  shows "of_nat n \<le> d \<longleftrightarrow> n \<le> unat d"
  using assms by (simp add: degree_ok_def word_le_nat_alt unat_of_nat take_bit_nat_eq_self)

lemma length_gt_degree:
  assumes "degree_ok d" and "n \<le> unat d + 1"
  shows "d < of_nat n \<longleftrightarrow> unat d < n"
  using length_le_degree [OF assms] by (simp add: not_le [symmetric])

text \<open>The trees that the operations build, where one level may be one over the degree.\<close>

definition mt_over :: "nat \<Rightarrow> merkleTree \<Rightarrow> bool" where
  "mt_over l m \<longleftrightarrow>
     degree_ok (mt_maxDegree m) \<and> 1 \<le> mt_maxLevel m \<and> (\<forall>i > mt_maxLevel m. level m i = []) \<and>
     (\<forall>i. i \<noteq> l \<longrightarrow> length (level m i) \<le> unat (mt_maxDegree m)) \<and>
     length (level m l) \<le> unat (mt_maxDegree m) + 1"

definition mt_ok :: "merkleTree \<Rightarrow> bool" where
  "mt_ok m \<longleftrightarrow> mt_over 0 m \<and> level m 0 = []"

lemma mt_okD:
  assumes "mt_ok m"
  shows "degree_ok (mt_maxDegree m)" "1 \<le> mt_maxLevel m" "i > mt_maxLevel m \<Longrightarrow> level m i = []"
    "length (level m i) \<le> unat (mt_maxDegree m)"
proof -
  show "length (level m i) \<le> unat (mt_maxDegree m)"
    using assms by (cases "i = 0") (auto simp: mt_ok_def mt_over_def)
qed (use assms in \<open>auto simp: mt_ok_def mt_over_def\<close>)

text \<open>
  One new leaf adds at most one hash to the top level, or starts a new top level of one hash.
\<close>

definition grows :: "merkleTree \<Rightarrow> merkleTree \<Rightarrow> bool" where
  "grows m m' \<longleftrightarrow> mt_maxDegree m' = mt_maxDegree m \<and>
     (mt_maxLevel m' = mt_maxLevel m \<and>
        (getMaxLevelHashes m' = getMaxLevelHashes m \<or>
         (\<exists>h. getMaxLevelHashes m' = getMaxLevelHashes m @ [h])) \<or>
      mt_maxLevel m' = mt_maxLevel m + 1 \<and> (\<exists>h. getMaxLevelHashes m' = [h]))"

definition hash_total :: "hasher \<Rightarrow> bool" where
  "hash_total H \<longleftrightarrow> (\<forall>b. \<exists>h. H b = Inr h)"

text \<open>One round of the loop: the level is within the degree, or is replaced by one hash above.\<close>

definition lift_level :: "nat \<Rightarrow> bytes \<Rightarrow> merkleTree \<Rightarrow> merkleTree" where
  "lift_level l h m =
     m\<lparr>mt_tree := append_at (l + 1) h (AList.delete l (mt_tree m)),
       mt_maxLevel := (if l + 1 > mt_maxLevel m then l + 1 else mt_maxLevel m)\<rparr>"

lemma level_lift: "level (lift_level l h m) i = (if i = l + 1 then level m i @ [h] else if i = l then [] else level m i)"
  by (auto simp: lift_level_def get_list_append_at)

lemma lift_fields [simp]:
  "mt_maxDegree (lift_level l h m) = mt_maxDegree m"
  "mt_maxLevel (lift_level l h m) = max (mt_maxLevel m) (l + 1)"
  by (auto simp: lift_level_def)

lemma update_loop_step:
  assumes "hash_total H" and "mt_over l m"
  shows "length (level m l) \<le> unat (mt_maxDegree m) \<and> update_loop H (Suc n) l m = Some (m, None) \<or>
    length (level m l) = unat (mt_maxDegree m) + 1 \<and>
    (\<exists>h. update_loop H (Suc n) l m = update_loop H n (Suc l) (lift_level l h m))"
proof -
  have "of_nat (length (level m l)) \<le> mt_maxDegree m \<longleftrightarrow> length (level m l) \<le> unat (mt_maxDegree m)"
    using assms(2) by (intro length_le_degree) (auto simp: mt_over_def)
  moreover obtain h where "computeCombinedHash H (level m l) = Inr h"
    using assms(1) by (auto simp: hash_total_def computeCombinedHash_def)
  ultimately show ?thesis
    using assms(2) by (auto simp: lift_level_def Let_def mt_over_def)
qed

lemma mt_over_lift:
  assumes "mt_over l m" and "l \<le> mt_maxLevel m"
  shows "mt_over (Suc l) (lift_level l h m)"
  using assms by (auto simp: mt_over_def level_lift)

lemma mt_over_ok: "mt_over l m \<Longrightarrow> length (level m l) \<le> unat (mt_maxDegree m) \<Longrightarrow> level m 0 = [] \<Longrightarrow> mt_ok m"
  by (auto simp: mt_ok_def mt_over_def)

lemma mt_over_shift:
  assumes "mt_over l m" and "length (level m l) \<le> unat (mt_maxDegree m)"
  shows "mt_over l' m"
proof -
  have "length (level m i) \<le> unat (mt_maxDegree m)" for i
    using assms by (cases "i = l") (auto simp: mt_over_def)
  with assms(1) show ?thesis by (simp add: mt_over_def le_SucI)
qed

text \<open>At the top: the tree is left alone or gets one new level, within two rounds.\<close>

lemma update_loop_top:
  assumes "hash_total H" and "mt_over l m" and "l = mt_maxLevel m" and "level m 0 = []"
  shows "\<exists>m'. update_loop H (Suc (Suc n)) l m = Some (m', None) \<and> mt_ok m' \<and>
    (m' = m \<or> (\<exists>h. mt_maxDegree m' = mt_maxDegree m \<and> mt_maxLevel m' = l + 1 \<and>
      getMaxLevelHashes m' = [h]))"
  using update_loop_step [OF assms(1,2), of "Suc n"]
proof (elim disjE conjE exE)
  assume "length (level m l) \<le> unat (mt_maxDegree m)"
    and "update_loop H (Suc (Suc n)) l m = Some (m, None)"
  with mt_over_ok assms show ?thesis by blast
next
  fix h
  assume loop: "update_loop H (Suc (Suc n)) l m = update_loop H (Suc n) (Suc l) (lift_level l h m)"
  have over: "mt_over (Suc l) (lift_level l h m)" using assms by (intro mt_over_lift) auto
  have len: "level (lift_level l h m) (Suc l) = [h]" using assms by (auto simp: level_lift mt_over_def)
  have deg: "2 \<le> unat (mt_maxDegree m)" using assms(2) degree_ge by (auto simp: mt_over_def)
  have "update_loop H (Suc n) (Suc l) (lift_level l h m) = Some (lift_level l h m, None)"
    using update_loop_step [OF assms(1) over, of n] len deg by auto
  moreover have "mt_ok (lift_level l h m)"
    using mt_over_ok [OF over] len deg assms(4) by (simp add: level_lift)
  ultimately show ?thesis
    using loop len assms(3) by (intro exI [of _ "lift_level l h m"]) (simp add: getMaxLevelHashes_def)
qed

definition bumps :: "merkleTree \<Rightarrow> merkleTree \<Rightarrow> bool" where
  "bumps m m' \<longleftrightarrow> mt_maxDegree m' = mt_maxDegree m \<and> mt_maxLevel m' = mt_maxLevel m + 1 \<and>
     (\<exists>h. getMaxLevelHashes m' = [h])"

lemma update_loop_grows:
  assumes "hash_total H"
  shows "mt_over l m \<Longrightarrow> l + k = mt_maxLevel m \<Longrightarrow> 1 \<le> l \<Longrightarrow> level m 0 = [] \<Longrightarrow>
    \<exists>m'. update_loop H (k + Suc (Suc n)) l m = Some (m', None) \<and> mt_ok m' \<and>
      (if k = 0 then m' = m \<or> bumps m m' else grows m m')"
proof (induction k arbitrary: l m)
  case 0
  then show ?case using update_loop_top [OF assms] by (auto simp: bumps_def)
next
  case (Suc k)
  from update_loop_step [OF assms Suc.prems(1), of "k + Suc (Suc n)"] show ?case
  proof (elim disjE conjE exE)
    assume "length (level m l) \<le> unat (mt_maxDegree m)"
      and "update_loop H (Suc (k + Suc (Suc n))) l m = Some (m, None)"
    with mt_over_ok Suc.prems show ?case by (auto simp: grows_def)
  next
    fix h
    let ?m = "lift_level l h m"
    assume loop: "update_loop H (Suc (k + Suc (Suc n))) l m = update_loop H (k + Suc (Suc n)) (Suc l) ?m"
    have over: "mt_over (Suc l) ?m" using Suc.prems by (intro mt_over_lift) auto
    have max: "mt_maxLevel ?m = mt_maxLevel m" using Suc.prems(2) by simp
    have lev: "getMaxLevelHashes ?m = getMaxLevelHashes m @ (if k = 0 then [h] else [])"
      using Suc.prems(2) max by (auto simp: getMaxLevelHashes_def level_lift)
    from Suc.IH [OF over] Suc.prems max obtain m' where m':
        "update_loop H (k + Suc (Suc n)) (Suc l) ?m = Some (m', None)" "mt_ok m'"
        "if k = 0 then m' = ?m \<or> bumps ?m m' else grows ?m m'"
      by (auto simp: level_lift)
    moreover have "grows m m'"
      using m'(3) lev max by (auto simp: grows_def bumps_def split: if_splits)
    ultimately show ?case using loop by auto
  qed
qed

lemma update_ok:
  assumes "hash_total H" and "mt_ok m"
  shows "\<exists>m'. update_loop H (mt_maxLevel m + 2) leafLevel
      (m\<lparr>mt_tree := append_at leafLevel h (mt_tree m)\<rparr>) = Some (m', None) \<and>
    mt_update H h m = (m', None) \<and> mt_ok m' \<and> grows m m' \<and> \<not> mt_isEmpty m'"
proof -
  let ?m = "m\<lparr>mt_tree := append_at leafLevel h (mt_tree m)\<rparr>"
  note ok = mt_okD [OF assms(2)]
  have lev: "level ?m i = (if i = 1 then level m i @ [h] else level m i)" for i
    by (auto simp: get_list_append_at leafLevel_def)
  have over: "mt_over 1 ?m" using ok lev by (auto simp: mt_over_def)
  have zero: "level ?m 0 = []" using assms(2) lev by (simp add: mt_ok_def)
  have k: "1 + (mt_maxLevel m - 1) = mt_maxLevel ?m" using ok(2) by simp
  from update_loop_grows [OF assms(1) over k _ zero, of 1] ok(2) obtain m' where m':
      "update_loop H (mt_maxLevel m + 2) leafLevel ?m = Some (m', None)" "mt_ok m'"
      "if mt_maxLevel m - 1 = 0 then m' = ?m \<or> bumps ?m m' else grows ?m m'"
    by (auto simp: leafLevel_def numeral_eq_Suc)
  have max: "getMaxLevelHashes ?m = getMaxLevelHashes m @ (if mt_maxLevel m = 1 then [h] else [])"
    using lev by (simp add: getMaxLevelHashes_def)
  have "grows m m'"
    using m'(3) max ok(2) by (auto simp: grows_def bumps_def split: if_splits)
  moreover have "\<not> mt_isEmpty m'"
    using m'(3) max ok(2)
    by (auto simp: grows_def bumps_def mt_isEmpty_def getMaxLevelHashes_def split: if_splits)
  moreover have "mt_update H h m = (m', None)"
    using m'(1) by (simp add: mt_update_def Let_def del: update_loop.simps)
  ultimately show ?thesis using m'(1,2) by blast
qed

section \<open>Completing the tree\<close>

text \<open>Later trees extend earlier ones: a higher top level, or the same with more hashes.\<close>

definition extends :: "merkleTree \<Rightarrow> merkleTree \<Rightarrow> bool" where
  "extends m m' \<longleftrightarrow> mt_maxDegree m' = mt_maxDegree m \<and>
     (mt_maxLevel m < mt_maxLevel m' \<or>
      mt_maxLevel m = mt_maxLevel m' \<and> prefix (getMaxLevelHashes m) (getMaxLevelHashes m'))"

lemma extends_refl: "extends m m"
  by (simp add: extends_def)

lemma extends_trans: "extends a b \<Longrightarrow> extends b c \<Longrightarrow> extends a c"
  by (auto simp: extends_def intro: prefix_order.trans)

lemma grows_extends: "grows m m' \<Longrightarrow> extends m m'"
  by (auto simp: grows_def extends_def)

lemma done_loop_extends:
  assumes "hash_total H"
  shows "mt_over l m \<Longrightarrow> 1 \<le> l \<Longrightarrow> l \<le> mt_maxLevel m \<Longrightarrow> \<forall>i < l. level m i = [] \<Longrightarrow>
    \<exists>m'. done_loop H l m = (m', None) \<and> extends m m' \<and> mt_maxLevel m' = mt_maxLevel m \<and>
      mt_over (mt_maxLevel m') m' \<and> (\<forall>i < mt_maxLevel m'. level m' i = [])"
proof (induction "mt_maxLevel m - l" arbitrary: l m)
  case 0
  then have "l = mt_maxLevel m" by simp
  with 0 show ?case by (auto simp: done_loop.simps extends_refl)
next
  case (Suc k)
  then have less: "l < mt_maxLevel m" by simp
  show ?case
  proof (cases "level m l")
    case Nil
    have "mt_over (Suc l) m" using mt_over_shift [OF Suc.prems(1)] Nil by simp
    moreover have "\<forall>i < Suc l. level m i = []" using Suc.prems Nil by (auto simp: less_Suc_eq)
    ultimately show ?thesis
      using Suc.hyps(1) [of m "Suc l"] Suc.hyps(2) less Nil by (simp add: done_loop.simps [of H l])
  next
    case (Cons h rest)
    obtain h' where h': "(if rest = [] then Inr h else computeCombinedHash H (h # rest)) = Inr h'"
      using assms by (metis hash_total_def computeCombinedHash_def)
    let ?m = "lift_level l h' m"
    have loop: "done_loop H l m = done_loop H (Suc l) ?m"
      using less Cons h' by (simp add: done_loop.simps [of H l] lift_level_def)
    have max: "mt_maxLevel ?m = mt_maxLevel m" using less by simp
    have "extends m ?m"
      using less max by (auto simp: extends_def getMaxLevelHashes_def level_lift)
    moreover have "mt_over (Suc l) ?m" using Suc.prems by (intro mt_over_lift)
    moreover have "\<forall>i < Suc l. level ?m i = []" using Suc.prems by (auto simp: level_lift less_Suc_eq)
    moreover have "k = mt_maxLevel ?m - Suc l" using Suc.hyps(2) max by simp
    ultimately obtain m' where "done_loop H (Suc l) ?m = (m', None)" "extends ?m m'"
        "mt_maxLevel m' = mt_maxLevel ?m" "mt_over (mt_maxLevel m') m'" "\<forall>i < mt_maxLevel m'. level m' i = []"
      using Suc.hyps(1) [of ?m "Suc l"] less max by auto
    with loop max extends_trans [OF \<open>extends m ?m\<close>] show ?thesis by auto
  qed
qed

lemma grows_nonempty: "grows m m' \<Longrightarrow> getMaxLevelHashes m \<noteq> [] \<Longrightarrow> getMaxLevelHashes m' \<noteq> []"
  by (auto simp: grows_def)

lemma extends_nonempty:
  "extends m m' \<Longrightarrow> mt_maxLevel m' = mt_maxLevel m \<Longrightarrow> getMaxLevelHashes m \<noteq> [] \<Longrightarrow> getMaxLevelHashes m' \<noteq> []"
  by (auto simp: extends_def)

lemma mt_done_ok:
  assumes "hash_total H" and "mt_ok m" and "getMaxLevelHashes m \<noteq> []"
  shows "\<exists>m'. mt_done H m = (m', None) \<and> extends m m' \<and> getMaxLevelHashes m' \<noteq> [] \<and>
    length (getMaxLevelHashes m') \<le> unat (mt_maxDegree m) \<and> mt_maxLevel m' \<le> mt_maxLevel m + 1"
proof -
  note ok = mt_okD [OF assms(2)]
  have over: "mt_over 1 m" using assms(2) by (auto simp: mt_ok_def intro: mt_over_shift)
  have zero: "\<forall>i < 1. level m i = []" using assms(2) by (simp add: mt_ok_def)
  from done_loop_extends [OF assms(1) over _ ok(2) zero] obtain m1 where m1:
      "done_loop H leafLevel m = (m1, None)" "extends m m1" "mt_maxLevel m1 = mt_maxLevel m"
      "mt_over (mt_maxLevel m1) m1"
    by (auto simp: leafLevel_def)
  have deg: "mt_maxDegree m1 = mt_maxDegree m" using m1(2) by (simp add: extends_def)
  have ne: "getMaxLevelHashes m1 \<noteq> []" using extends_nonempty [OF m1(2,3) assms(3)] .
  obtain h where h: "computeCombinedHash H (level m1 (mt_maxLevel m1)) = Inr h"
    using assms(1) by (auto simp: hash_total_def computeCombinedHash_def)
  show ?thesis
  proof (cases "length (getMaxLevelHashes m1) \<le> unat (mt_maxDegree m)")
    case True
    then have "mt_done H m = (m1, None)"
      using m1(1) length_gt_degree [OF ok(1)] deg
      by (simp add: mt_done_def getMaxLevelHashes_def)
    with True m1(2,3) ne show ?thesis by auto
  next
    case False
    then have "mt_maxDegree m1 < of_nat (length (level m1 (mt_maxLevel m1)))"
      using m1(4) length_gt_degree [OF ok(1), of "length (level m1 (mt_maxLevel m1))"] deg
      by (simp add: mt_over_def getMaxLevelHashes_def)
    with m1 h deg degree_ge [OF ok(1)] show ?thesis
      by (auto simp: mt_done_def Let_def extends_def getMaxLevelHashes_def)
  qed
qed

section \<open>Adding results\<close>

definition reads_total :: "rw_codec \<Rightarrow> bool" where
  "reads_total rc \<longleftrightarrow> (\<forall>rs. \<exists>b. en_QueryReads rc rs = Ok b)"

definition helper_ok :: "RangeQueryResultsHelper \<Rightarrow> merkleTree \<Rightarrow> bool" where
  "helper_ok helper m \<longleftrightarrow> rh_hashingEnabled helper \<and> rh_mt helper = Some m \<and> mt_ok m \<and>
     rh_maxDegree helper = mt_maxDegree m \<and> length (rh_pendingResults helper) \<le> unat (mt_maxDegree m)"

lemma New_ok:
  assumes "degree_ok d"
  shows "\<exists>helper m. NewRangeQueryResultsHelper True d = Ok helper \<and> helper_ok helper m \<and>
    mt_isEmpty m \<and> mt_maxDegree m = d \<and> mt_maxLevel m = 1 \<and> rh_pendingResults helper = []"
  using assms
  by (auto simp: NewRangeQueryResultsHelper_def newMerkleTree_def Let_def helper_ok_def mt_ok_def
      mt_over_def mt_isEmpty_def degree_ok_def not_less)

lemma process_ok:
  assumes "hash_total H" and "reads_total rc" and "rh_mt helper = Some m" and "mt_ok m"
  shows "\<exists>m'. processPendingResults rc H helper =
      Ok (helper\<lparr>rh_pendingResults := [], rh_mt := Some m'\<rparr>, None) \<and>
    mt_ok m' \<and> grows m m' \<and> \<not> mt_isEmpty m'"
proof -
  obtain b where "serializeKVReads rc (rh_pendingResults helper) = Ok b"
    using assms(2) by (auto simp: reads_total_def serializeKVReads_def)
  moreover obtain h where "H b = Inr h" using assms(1) by (auto simp: hash_total_def)
  moreover obtain m' where "mt_update H h m = (m', None)" "mt_ok m'" "grows m m'" "\<not> mt_isEmpty m'"
    using update_ok [OF assms(1,4)] by blast
  ultimately show ?thesis
    using assms(3) by (auto simp: processPendingResults_def Let_def)
qed

lemma grows_refl: "grows m m"
  by (simp add: grows_def)

lemma AddResult_ok:
  assumes "hash_total H" and "reads_total rc" and "helper_ok helper m"
  shows "\<exists>helper' m'. AddResult rc H kv helper = Ok (helper', None) \<and> helper_ok helper' m' \<and> grows m m' \<and>
    (if length (rh_pendingResults helper) < unat (mt_maxDegree m)
     then m' = m \<and> rh_pendingResults helper' = rh_pendingResults helper @ [kv]
     else \<not> mt_isEmpty m')"
proof -
  let ?h = "helper\<lparr>rh_pendingResults := rh_pendingResults helper @ [kv]\<rparr>"
  have ok: "degree_ok (mt_maxDegree m)" "mt_ok m" "rh_mt ?h = Some m"
    using assms(3) mt_okD(1) by (auto simp: helper_ok_def)
  have cmp: "mt_maxDegree m < of_nat (length (rh_pendingResults ?h)) \<longleftrightarrow>
      \<not> length (rh_pendingResults helper) < unat (mt_maxDegree m)"
    using length_gt_degree [OF ok(1), of "length (rh_pendingResults ?h)"] assms(3)
    by (auto simp: helper_ok_def)
  show ?thesis
  proof (cases "length (rh_pendingResults helper) < unat (mt_maxDegree m)")
    case True
    with assms(3) cmp show ?thesis
      by (auto simp: AddResult_def Let_def helper_ok_def grows_refl)
  next
    case False
    from process_ok [OF assms(1,2) ok(3,2)] obtain m' where m':
        "processPendingResults rc H ?h = Ok (?h\<lparr>rh_pendingResults := [], rh_mt := Some m'\<rparr>, None)"
        "mt_ok m'" "grows m m'" "\<not> mt_isEmpty m'" by auto
    with False assms(3) cmp show ?thesis
      by (auto simp: AddResult_def Let_def helper_ok_def grows_def)
  qed
qed

text \<open>Feeding a list of results, as the simulation does, up to the first error.\<close>

fun add_results ::
    "rw_codec \<Rightarrow> hasher \<Rightarrow> KVRead list \<Rightarrow> RangeQueryResultsHelper \<Rightarrow> (string, RangeQueryResultsHelper) res" where
  "add_results rc H [] helper = Ok helper"
| "add_results rc H (kv # kvs) helper =
     rbind (AddResult rc H kv helper) (\<lambda>(helper1, err).
     case err of Some e \<Rightarrow> Err e | None \<Rightarrow> add_results rc H kvs helper1)"

definition summarize ::
    "rw_codec \<Rightarrow> hasher \<Rightarrow> uint32 \<Rightarrow> KVRead list \<Rightarrow> (string, KVRead list \<times> QueryReadsMerkleSummary option) res" where
  "summarize rc H maxDegree kvs =
     rbind (NewRangeQueryResultsHelper True maxDegree) (\<lambda>helper.
     rbind (add_results rc H kvs helper) (helper_Done rc H))"

lemma isEmpty_hashes: "mt_isEmpty m \<longleftrightarrow> mt_maxLevel m = 1 \<and> getMaxLevelHashes m = []"
  by (auto simp: mt_isEmpty_def getMaxLevelHashes_def)

lemma grows_not_empty: "grows m m' \<Longrightarrow> \<not> mt_isEmpty m \<Longrightarrow> 1 \<le> mt_maxLevel m \<Longrightarrow> \<not> mt_isEmpty m'"
  by (auto simp: grows_def isEmpty_hashes)

text \<open>The top level has a hash as soon as anything was hashed.\<close>

definition top_filled :: "merkleTree \<Rightarrow> bool" where
  "top_filled m \<longleftrightarrow> mt_isEmpty m \<or> getMaxLevelHashes m \<noteq> []"

lemma grows_top_filled: "grows m m' \<Longrightarrow> top_filled m \<Longrightarrow> top_filled m'"
  by (auto simp: grows_def isEmpty_hashes top_filled_def)

lemma add_results_ok:
  assumes "hash_total H" and "reads_total rc"
  shows "helper_ok helper m \<Longrightarrow> top_filled m \<Longrightarrow>
    \<exists>helper' m'. add_results rc H kvs helper = Ok helper' \<and> helper_ok helper' m' \<and> extends m m' \<and>
      top_filled m' \<and>
      (if mt_isEmpty m \<and> length (rh_pendingResults helper) + length kvs \<le> unat (mt_maxDegree m)
       then mt_isEmpty m' \<and> rh_pendingResults helper' = rh_pendingResults helper @ kvs
       else \<not> mt_isEmpty m' \<or> mt_isEmpty m \<and> kvs = [])"
proof (induction kvs arbitrary: helper m)
  case Nil
  then show ?case by (auto simp: extends_refl)
next
  case (Cons kv kvs)
  from AddResult_ok [OF assms Cons.prems(1), of kv] obtain h1 m1 where 1:
      "AddResult rc H kv helper = Ok (h1, None)" "helper_ok h1 m1" "grows m m1"
      "if length (rh_pendingResults helper) < unat (mt_maxDegree m)
       then m1 = m \<and> rh_pendingResults h1 = rh_pendingResults helper @ [kv] else \<not> mt_isEmpty m1"
    by blast
  have level: "1 \<le> mt_maxLevel m" "1 \<le> mt_maxLevel m1"
    using Cons.prems(1) 1(2) mt_okD(2) by (auto simp: helper_ok_def)
  have deg: "mt_maxDegree m1 = mt_maxDegree m" using 1(3) by (simp add: grows_def)
  from Cons.IH [OF 1(2) grows_top_filled [OF 1(3) Cons.prems(2)]] obtain h2 m2 where 2:
      "add_results rc H kvs h1 = Ok h2" "helper_ok h2 m2" "extends m1 m2" "top_filled m2"
      "if mt_isEmpty m1 \<and> length (rh_pendingResults h1) + length kvs \<le> unat (mt_maxDegree m1)
       then mt_isEmpty m2 \<and> rh_pendingResults h2 = rh_pendingResults h1 @ kvs
       else \<not> mt_isEmpty m2 \<or> mt_isEmpty m1 \<and> kvs = []"
    by blast
  have "extends m m2" using extends_trans [OF grows_extends [OF 1(3)] 2(3)] .
  moreover have "length (rh_pendingResults h1) \<le> unat (mt_maxDegree m)"
    using 1(2) deg by (simp add: helper_ok_def)
  ultimately show ?case
    using 1 2 deg grows_not_empty [OF 1(3) _ level(1)] Cons.prems(1)
    by (auto simp: helper_ok_def split: if_splits)
qed

lemma Done_ok:
  assumes "hash_total H" and "reads_total rc" and "helper_ok helper m" and "top_filled m" and "\<not> mt_isEmpty m"
  shows "\<exists>m'. helper_Done rc H helper = Ok ([], Some (getSummery m')) \<and> extends m m' \<and>
    getMaxLevelHashes m' \<noteq> [] \<and> length (getMaxLevelHashes m') \<le> unat (mt_maxDegree m) \<and>
    mt_maxLevel m' \<le> mt_maxLevel m + 2"
proof -
  have top: "getMaxLevelHashes m \<noteq> []" using assms(4,5) by (simp add: top_filled_def)
  obtain m1 where m1: "mt_ok m1" "grows m m1" and run:
      "(if rh_pendingResults helper \<noteq> [] then processPendingResults rc H helper else Ok (helper, None)) =
        Ok (helper\<lparr>rh_pendingResults := [], rh_mt := Some m1\<rparr>, None)"
  proof (cases "rh_pendingResults helper = []")
    case True
    with assms(3) have "helper\<lparr>rh_pendingResults := [], rh_mt := Some m\<rparr> = helper"
      by (simp add: helper_ok_def)
    with True assms(3) grows_refl show ?thesis by (intro that [of m]) (auto simp: helper_ok_def)
  next
    case False
    with process_ok [OF assms(1,2), of helper m] assms(3) show ?thesis
      by (auto simp: helper_ok_def intro: that)
  qed
  have top1: "getMaxLevelHashes m1 \<noteq> []" using grows_nonempty [OF m1(2) top] .
  obtain m2 where m2: "mt_done H m1 = (m2, None)" "extends m1 m2" "getMaxLevelHashes m2 \<noteq> []"
      "length (getMaxLevelHashes m2) \<le> unat (mt_maxDegree m1)" "mt_maxLevel m2 \<le> mt_maxLevel m1 + 1"
    using mt_done_ok [OF assms(1) m1(1) top1] by blast
  have "helper_Done rc H helper = Ok ([], Some (getSummery m2))"
    using assms(3,5) run m2(1) by (simp add: helper_Done_def helper_ok_def)
  with m2 extends_trans [OF grows_extends [OF m1(2)] m2(2)] m1(2) show ?thesis
    by (auto simp: grows_def)
qed

lemma summarize_cases:
  assumes "hash_total H" and "reads_total rc" and "2 \<le> d" and "unat d + 1 < 2 ^ 32"
  shows "if length kvs \<le> unat d then summarize rc H d kvs = Ok (kvs, None)
    else (\<exists>s. summarize rc H d kvs = Ok ([], Some s) \<and> ms_MaxDegree s = d \<and>
      1 \<le> length (ms_MaxLevelHashes s) \<and> length (ms_MaxLevelHashes s) \<le> unat d)"
proof -
  have d: "degree_ok d" using assms(3,4) by (simp add: degree_ok_def)
  obtain h0 m0 where 0: "NewRangeQueryResultsHelper True d = Ok h0" "helper_ok h0 m0" "mt_isEmpty m0"
      "mt_maxDegree m0 = d" "rh_pendingResults h0 = []"
    using New_ok [OF d] by blast
  have "top_filled m0" using 0(3) by (simp add: top_filled_def)
  from add_results_ok [OF assms(1,2) 0(2) this, of kvs] obtain h m where 1:
      "add_results rc H kvs h0 = Ok h" "helper_ok h m" "extends m0 m" "top_filled m"
      "if mt_isEmpty m0 \<and> length (rh_pendingResults h0) + length kvs \<le> unat (mt_maxDegree m0)
       then mt_isEmpty m \<and> rh_pendingResults h = rh_pendingResults h0 @ kvs
       else \<not> mt_isEmpty m \<or> mt_isEmpty m0 \<and> kvs = []"
    by blast
  show ?thesis
  proof (cases "length kvs \<le> unat d")
    case True
    with 0 1 show ?thesis by (simp add: summarize_def helper_Done_def helper_ok_def)
  next
    case False
    then have "\<not> mt_isEmpty m" using 0 1(5) by (auto split: if_splits)
    with Done_ok [OF assms(1,2) 1(2,4)] obtain m' where "helper_Done rc H h = Ok ([], Some (getSummery m'))"
        "extends m m'" "getMaxLevelHashes m' \<noteq> []" "length (getMaxLevelHashes m') \<le> unat (mt_maxDegree m)"
      by blast
    with False 0 1 show ?thesis
      by (auto simp: summarize_def getSummery_def extends_def Suc_le_eq)
  qed
qed

section \<open>Properties\<close>

text \<open>The trees of one degree that updates reach.\<close>

inductive mt_reach :: "hasher \<Rightarrow> uint32 \<Rightarrow> merkleTree \<Rightarrow> bool" for H d where
  new: "newMerkleTree d = Ok m \<Longrightarrow> mt_reach H d m"
| update: "mt_reach H d m \<Longrightarrow> mt_reach H d (fst (mt_update H h m))"

lemma reach_ok:
  assumes "hash_total H" and "unat d + 1 < 2 ^ 32" and "mt_reach H d m"
  shows "mt_ok m \<and> mt_maxDegree m = d"
  using assms(3)
proof induction
  case (new m)
  then show ?case
    using assms(2) by (auto simp: newMerkleTree_def mt_ok_def mt_over_def degree_ok_def split: if_splits)
next
  case (update m h)
  then show ?case using update_ok [OF assms(1), of m h] by (auto simp: grows_def)
qed

text \<open>C20: updating the Merkle tree ends: on every tree that a series of updates builds, for any degree
that the constructor accepts below the largest \<open>uint32\<close> and a hash that does not fail, the loop of an
update returns without an error, having climbed at most one level past the top, and leaves no level
with more than \<open>maxDegree\<close> hashes.\<close>

theorem update_terminates:
  assumes "hash_total H" and "unat d + 1 < 2 ^ 32" and "mt_reach H d m"
  shows "\<exists>m'. update_loop H (mt_maxLevel m + 2) leafLevel
      (m\<lparr>mt_tree := append_at leafLevel h (mt_tree m)\<rparr>) = Some (m', None) \<and>
    mt_update H h m = (m', None) \<and> mt_maxLevel m' \<le> mt_maxLevel m + 1 \<and>
    (\<forall>l. length (get_list (mt_tree m') l) \<le> unat d)"
proof -
  from reach_ok [OF assms] have m: "mt_ok m" "mt_maxDegree m = d" by auto
  from update_ok [OF assms(1) m(1), of h] obtain m' where m':
      "update_loop H (mt_maxLevel m + 2) leafLevel
        (m\<lparr>mt_tree := append_at leafLevel h (mt_tree m)\<rparr>) = Some (m', None)"
      "mt_update H h m = (m', None)" "mt_ok m'" "grows m m'"
    by blast
  then have "\<forall>l. length (get_list (mt_tree m') l) \<le> unat d"
    using mt_okD(4) [OF m'(3)] m(2) by (auto simp: grows_def)
  with m' show ?thesis by (auto simp: grows_def)
qed

theorem update_terminates_witness:
  "\<exists>m'. update_loop Inr 3 leafLevel
      \<lparr>mt_tree = append_at leafLevel ''h'' [], mt_maxLevel = 1, mt_maxDegree = 2\<rparr> = Some (m', None) \<and>
    (\<forall>l. length (get_list (mt_tree m') l) \<le> 2)"
proof -
  have "hash_total Inr" by (simp add: hash_total_def)
  moreover have "mt_reach Inr 2 \<lparr>mt_tree = [], mt_maxLevel = 1, mt_maxDegree = 2\<rparr>"
    by (rule mt_reach.new) (simp add: newMerkleTree_def)
  ultimately show ?thesis
    using update_terminates [of Inr 2 "\<lparr>mt_tree = [], mt_maxLevel = 1, mt_maxDegree = 2\<rparr>" "''h''"]
    by (auto simp del: update_loop.simps simp: numeral_3_eq_3)
qed

text \<open>what a range query records: up to \<open>maxDegree\<close> results are recorded raw and in order, with no
summary; more than that are recorded as a summary alone, of the given degree, with at least one and at
most \<open>maxDegree\<close> hashes. Neither case fails when serialising and hashing do not.\<close>

theorem results_raw_or_summary:
  assumes "hash_total H" and "reads_total rc" and "2 \<le> d" and "unat d + 1 < 2 ^ 32"
  shows "if length kvs \<le> unat d then summarize rc H d kvs = Ok (kvs, None)
    else (\<exists>s. summarize rc H d kvs = Ok ([], Some s) \<and> ms_MaxDegree s = d \<and>
      1 \<le> length (ms_MaxLevelHashes s) \<and> length (ms_MaxLevelHashes s) \<le> unat d)"
  by (rule summarize_cases [OF assms])

definition sample_read :: "string \<Rightarrow> KVRead" where
  "sample_read k = NewKVRead k (Some (NewHeight 1 0))"

lemma sample_total: "hash_total Inr" "reads_total sample_rw_codec"
  by (simp_all add: hash_total_def reads_total_def sample_rw_codec_def)

theorem results_raw_or_summary_witness:
  "\<exists>s. summarize sample_rw_codec Inr 2 (map sample_read [''a'', ''b'', ''c'']) = Ok ([], Some s) \<and>
     ms_MaxDegree s = 2 \<and> 1 \<le> length (ms_MaxLevelHashes s) \<and> length (ms_MaxLevelHashes s) \<le> 2"
  using results_raw_or_summary [OF sample_total, of 2 "map sample_read [''a'', ''b'', ''c'']"] by simp

end
