(* ===== verification/Combined_Iterator.thy ===== *)
theory Combined_Iterator
  imports State_DB
begin

text \<open>
  The iterator over the database and the pending updates of a block:
  \<open>validator/statebasedval/combined_iterator.go\<close>. It merges a range scan of the LevelDB state
  database with a scan of the update batch, prefers the update where both have a key, skips
  deletions, and at the end serves the end key itself when asked to.

  The lemmas show that it yields exactly what a scan of the database would yield after the updates
  were applied to it.
\<close>

section \<open>The iterator\<close>

record combinedIterator =
  ci_ns :: string
  ci_db :: db_reader
  ci_updates :: UpdateBatch
  ci_endKey :: string
  ci_includeEndKey :: bool
  ci_dbItr :: kvScanner
  ci_updatesItr :: nsIterator
  ci_dbItem :: "VersionedKV option"
  ci_updatesItem :: "VersionedKV option"
  ci_endKeyServed :: bool

definition newCombinedIterator ::
    "'d leveldb \<Rightarrow> string \<Rightarrow> 'd \<Rightarrow> UpdateBatch \<Rightarrow> string \<Rightarrow> string \<Rightarrow> string \<Rightarrow> bool \<Rightarrow>
      (string, combinedIterator) res" where
  "newCombinedIterator L dbName d updates ns startKey endKey includeEndKey =
     rbind (kvScanner_Next (vdb_GetStateRangeScanIterator L dbName d ns startKey endKey)) (\<lambda>(dbItem, dbItr).
     rbind (nsIterator_Next (GetRangeScanIterator updates ns startKey endKey)) (\<lambda>(updatesItem, updatesItr).
     Ok \<lparr>ci_ns = ns, ci_db = vdb_GetState L dbName d, ci_updates = updates, ci_endKey = endKey,
         ci_includeEndKey = includeEndKey, ci_dbItr = dbItr, ci_updatesItr = updatesItr,
         ci_dbItem = dbItem, ci_updatesItem = updatesItem, ci_endKeyServed = False\<rparr>))"

text \<open>\<open>strings.Compare\<close> on the keys, with nil after every key.\<close>

definition compareKeys :: "VersionedKV option \<Rightarrow> VersionedKV option \<Rightarrow> int" where
  "compareKeys item1 item2 =
     (case item1 of
        None \<Rightarrow> (if item2 = None then 0 else 1)
      | Some a \<Rightarrow>
          (case item2 of
             None \<Rightarrow> -1
           | Some b \<Rightarrow> if vkv_Key a < vkv_Key b then -1 else if vkv_Key a = vkv_Key b then 0 else 1))"

definition isDelete :: "VersionedKV option \<Rightarrow> (string, bool) res" where
  "isDelete item = rbind (deref item) (\<lambda>kv. Ok (vkv_Value kv = None))"

definition serveEndKeyIfNeeded ::
    "combinedIterator \<Rightarrow> (string, VersionedKV option \<times> combinedIterator) res" where
  "serveEndKeyIfNeeded itr =
     (if \<not> ci_includeEndKey itr \<or> ci_endKeyServed itr then Ok (None, itr)
      else
        rbind (case UpdateBatch_Get (ci_updates itr) (ci_ns itr) (ci_endKey itr) of
                 Some vv \<Rightarrow> Ok (Some vv)
               | None \<Rightarrow> ci_db itr (ci_ns itr) (ci_endKey itr)) (\<lambda>vv.
        let itr1 = itr\<lparr>ci_endKeyServed := True\<rparr>
        in case vv of
             None \<Rightarrow> Ok (None, itr1)
           | Some v \<Rightarrow>
               (let vkv = \<lparr>vkv_Namespace = ci_ns itr, vkv_Key = ci_endKey itr, vkv_Value = vv_Value v,
                           vkv_Version = vv_Version v\<rparr>
                in rbind (isDelete (Some vkv)) (\<lambda>del.
                   Ok (if del then None else Some vkv, itr1)))))"

text \<open>The middle of \<open>Next\<close>: select the smaller item and move the iterators it came from.\<close>

definition select_and_move ::
    "combinedIterator \<Rightarrow> (string, VersionedKV option \<times> combinedIterator) res" where
  "select_and_move itr =
     (let compResult = compareKeys (ci_dbItem itr) (ci_updatesItem itr);
          selectedItem = (if compResult = -1 then ci_dbItem itr else ci_updatesItem itr);
          moveDBItr = (compResult \<le> 0);
          moveUpdatesItr = (compResult \<ge> 0)
      in rbind (if moveDBItr
                then rbind (kvScanner_Next (ci_dbItr itr)) (\<lambda>(item, it).
                     Ok (itr\<lparr>ci_dbItem := item, ci_dbItr := it\<rparr>))
                else Ok itr) (\<lambda>itr1.
         rbind (if moveUpdatesItr
                then rbind (nsIterator_Next (ci_updatesItr itr1)) (\<lambda>(item, it).
                     Ok (itr1\<lparr>ci_updatesItem := item, ci_updatesItr := it\<rparr>))
                else Ok itr1) (\<lambda>itr2.
         Ok (selectedItem, itr2))))"

text \<open>The items that the two iterators still have to give, counting those already fetched.\<close>

definition items_left :: "combinedIterator \<Rightarrow> nat" where
  "items_left itr =
     length (ks_dbItr (ci_dbItr itr)) + (if ci_dbItem itr = None then 0 else 1) +
     (ni_lastIndex (ci_updatesItr itr) - ni_nextIndex (ci_updatesItr itr)) +
     (if ci_updatesItem itr = None then 0 else 1)"

lemma kvScanner_Next_left:
  "kvScanner_Next it = Ok (x, it') \<Longrightarrow>
     length (ks_dbItr it') + (if x = None then 0 else 1) = length (ks_dbItr it)"
  by (auto simp: kvScanner_Next_def go_res split: list.splits)

lemma nsIterator_Next_left:
  "nsIterator_Next it = Ok (x, it') \<Longrightarrow>
     ni_lastIndex it' - ni_nextIndex it' + (if x = None then 0 else 1) = ni_lastIndex it - ni_nextIndex it"
  by (auto simp: nsIterator_Next_def go_res split: if_splits)

lemma select_and_move_left:
  assumes "select_and_move itr = Ok (x, itr')"
    and "\<not> (ci_dbItem itr = None \<and> ci_updatesItem itr = None)"
  shows "items_left itr' < items_left itr"
  using assms
  by (auto simp: select_and_move_def items_left_def compareKeys_def Let_def go_res
      split: if_splits option.splits dest!: kvScanner_Next_left nsIterator_Next_left)

function combinedIterator_Next ::
    "combinedIterator \<Rightarrow> (string, VersionedKV option \<times> combinedIterator) res" where
  "combinedIterator_Next itr =
     (if ci_dbItem itr = None \<and> ci_updatesItem itr = None then serveEndKeyIfNeeded itr
      else
        rbind (select_and_move itr) (\<lambda>r.
        rbind (isDelete (fst r)) (\<lambda>del.
        if del then combinedIterator_Next (snd r) else Ok r)))"
  by pat_completeness auto
termination
  by (relation "measure items_left") (auto dest: select_and_move_left)

declare combinedIterator_Next.simps [simp del]

section \<open>What the iterator yields\<close>

text \<open>The merge of two ascending lists, the second winning on equal keys.\<close>

fun merge_items :: "VersionedKV list \<Rightarrow> VersionedKV list \<Rightarrow> VersionedKV list" where
  "merge_items [] us = us"
| "merge_items ds [] = ds"
| "merge_items (d # ds) (u # us) =
     (if vkv_Key d < vkv_Key u then d # merge_items ds (u # us)
      else if vkv_Key d = vkv_Key u then u # merge_items ds us
      else u # merge_items (d # ds) us)"

lemma merge_items_Nil [simp]: "merge_items ds [] = ds"
  by (cases ds) simp_all

definition db_items :: "combinedIterator \<Rightarrow> VersionedKV list" where
  "db_items itr = (case ci_dbItem itr of None \<Rightarrow> [] | Some x \<Rightarrow> x # scan_contents (ci_dbItr itr))"

definition update_items :: "combinedIterator \<Rightarrow> VersionedKV list" where
  "update_items itr = (case ci_updatesItem itr of None \<Rightarrow> [] | Some x \<Rightarrow> x # ns_contents (ci_updatesItr itr))"

definition live :: "VersionedKV list \<Rightarrow> VersionedKV list" where
  "live kvs = filter (\<lambda>kv. vkv_Value kv \<noteq> None) kvs"

text \<open>The end key as read through the updates.\<close>

definition read_through :: "db_reader \<Rightarrow> UpdateBatch \<Rightarrow> db_reader" where
  "read_through db updates ns key =
     (case UpdateBatch_Get updates ns key of Some vv \<Rightarrow> Ok (committed vv) | None \<Rightarrow> db ns key)"

definition entry_of :: "string \<Rightarrow> string \<Rightarrow> (string, VersionedValue option) res \<Rightarrow> VersionedKV list" where
  "entry_of ns key r =
     (case r of
        Ok (Some v) \<Rightarrow> [\<lparr>vkv_Namespace = ns, vkv_Key = key, vkv_Value = vv_Value v, vkv_Version = vv_Version v\<rparr>]
      | _ \<Rightarrow> [])"

definition end_items :: "combinedIterator \<Rightarrow> VersionedKV list" where
  "end_items itr =
     (if \<not> ci_includeEndKey itr \<or> ci_endKeyServed itr then []
      else live (entry_of (ci_ns itr) (ci_endKey itr)
        (read_through (ci_db itr) (ci_updates itr) (ci_ns itr) (ci_endKey itr))))"

definition comb_contents :: "combinedIterator \<Rightarrow> VersionedKV list" where
  "comb_contents itr = live (merge_items (db_items itr) (update_items itr)) @ end_items itr"

definition comb_ready :: "combinedIterator \<Rightarrow> bool" where
  "comb_ready itr \<longleftrightarrow> scan_ready (ci_dbItr itr) \<and> ns_ready (ci_updatesItr itr) \<and>
     (\<exists>r. ci_db itr (ci_ns itr) (ci_endKey itr) = Ok r)"

lemma scan_move:
  assumes "scan_ready (ci_dbItr itr)"
  obtains x it where "kvScanner_Next (ci_dbItr itr) = Ok (x, it)" "scan_ready it"
    "db_items (itr\<lparr>ci_dbItem := x, ci_dbItr := it\<rparr>) = scan_contents (ci_dbItr itr)"
proof (rule scan_iter.nxt_step [OF assms])
  fix x it
  assume "kvScanner_Next (ci_dbItr itr) = Ok (x, it)" "scan_ready it"
    "scan_contents (ci_dbItr itr) = (case x of None \<Rightarrow> [] | Some y \<Rightarrow> y # scan_contents it)"
  then show thesis by (intro that) (auto simp: db_items_def split: option.split)
qed

lemma update_move:
  assumes "ns_ready (ci_updatesItr itr)"
  obtains x it where "nsIterator_Next (ci_updatesItr itr) = Ok (x, it)" "ns_ready it"
    "update_items (itr\<lparr>ci_updatesItem := x, ci_updatesItr := it\<rparr>) = ns_contents (ci_updatesItr itr)"
proof (rule ns_iter.nxt_step [OF assms])
  fix x it
  assume "nsIterator_Next (ci_updatesItr itr) = Ok (x, it)" "ns_ready it"
    "ns_contents (ci_updatesItr itr) = (case x of None \<Rightarrow> [] | Some y \<Rightarrow> y # ns_contents it)"
  then show thesis by (intro that) (auto simp: update_items_def split: option.split)
qed

lemma items_simps [simp]:
  "db_items (itr\<lparr>ci_updatesItem := x, ci_updatesItr := u\<rparr>) = db_items itr"
  "update_items (itr\<lparr>ci_dbItem := x, ci_dbItr := d\<rparr>) = update_items itr"
  "end_items (itr\<lparr>ci_updatesItem := x, ci_updatesItr := u\<rparr>) = end_items itr"
  "end_items (itr\<lparr>ci_dbItem := x, ci_dbItr := d\<rparr>) = end_items itr"
  by (simp_all add: db_items_def update_items_def end_items_def split: option.split)


lemma compareKeys_simps:
  "compareKeys (Some a) None = -1" "compareKeys None (Some b) = 1"
  "vkv_Key a < vkv_Key b \<Longrightarrow> compareKeys (Some a) (Some b) = -1"
  "vkv_Key a = vkv_Key b \<Longrightarrow> compareKeys (Some a) (Some b) = 0"
  "vkv_Key b < vkv_Key a \<Longrightarrow> compareKeys (Some a) (Some b) = 1"
  by (auto simp: compareKeys_def)

text \<open>One selection takes the first item of the merge.\<close>

lemma select_step:
  assumes "comb_ready itr" and "\<not> (ci_dbItem itr = None \<and> ci_updatesItem itr = None)"
  shows "\<exists>kv itr'. select_and_move itr = Ok (Some kv, itr') \<and> comb_ready itr' \<and>
    end_items itr' = end_items itr \<and>
    merge_items (db_items itr) (update_items itr) = kv # merge_items (db_items itr') (update_items itr')"
proof -
  have rdy: "scan_ready (ci_dbItr itr)" "ns_ready (ci_updatesItr itr)"
    using assms(1) by (auto simp: comb_ready_def)
  obtain x s where x: "kvScanner_Next (ci_dbItr itr) = Ok (x, s)" "scan_ready s"
      "db_items (itr\<lparr>ci_dbItem := x, ci_dbItr := s\<rparr>) = scan_contents (ci_dbItr itr)"
    using scan_move [OF rdy(1)] by blast
  obtain y u where y: "nsIterator_Next (ci_updatesItr itr) = Ok (y, u)" "ns_ready u"
      "update_items (itr\<lparr>ci_updatesItem := y, ci_updatesItr := u\<rparr>) = ns_contents (ci_updatesItr itr)"
    using update_move [OF rdy(2)] by blast
  have both_items: "update_items (itr\<lparr>ci_dbItem := x, ci_dbItr := s, ci_updatesItem := y, ci_updatesItr := u\<rparr>) =
      ns_contents (ci_updatesItr itr)"
    using y(3) by (simp add: update_items_def split: option.splits)
  have dbi: "ci_dbItem itr = Some a \<Longrightarrow> db_items itr = a # scan_contents (ci_dbItr itr)" for a
    by (simp add: db_items_def)
  have upi: "ci_updatesItem itr = Some b \<Longrightarrow> update_items itr = b # ns_contents (ci_updatesItr itr)" for b
    by (simp add: update_items_def)
  consider (db) a where "ci_dbItem itr = Some a" "compareKeys (ci_dbItem itr) (ci_updatesItem itr) = -1"
      "ci_updatesItem itr = None \<or> (\<exists>b. ci_updatesItem itr = Some b \<and> vkv_Key a < vkv_Key b)"
    | (both) a b where "ci_dbItem itr = Some a" "ci_updatesItem itr = Some b" "vkv_Key a = vkv_Key b"
      "compareKeys (ci_dbItem itr) (ci_updatesItem itr) = 0"
    | (upd) b where "ci_updatesItem itr = Some b" "compareKeys (ci_dbItem itr) (ci_updatesItem itr) = 1"
      "ci_dbItem itr = None \<or> (\<exists>a. ci_dbItem itr = Some a \<and> vkv_Key b < vkv_Key a)"
    using assms(2) linorder_less_linear [of "vkv_Key (the (ci_dbItem itr))" "vkv_Key (the (ci_updatesItem itr))"]
    by (cases "ci_dbItem itr"; cases "ci_updatesItem itr") (auto simp: compareKeys_simps)
  then show ?thesis
  proof cases
    case db
    moreover have "ci_updatesItem itr = None \<Longrightarrow> update_items itr = []" by (simp add: update_items_def)
    ultimately show ?thesis
      using x assms(1) dbi upi
      by (auto simp: select_and_move_def Let_def comb_ready_def)
  next
    case both
    with x y assms(1) dbi upi both_items show ?thesis
      by (auto simp: select_and_move_def Let_def comb_ready_def)
  next
    case upd
    moreover have "ci_dbItem itr = None \<Longrightarrow> db_items itr = []" by (simp add: db_items_def)
    ultimately show ?thesis
      using y assms(1) dbi upi
      by (auto simp: select_and_move_def Let_def comb_ready_def)
  qed
qed

lemma serve_end:
  assumes "comb_ready itr"
  shows "\<exists>itr'. serveEndKeyIfNeeded itr =
      Ok (case end_items itr of [] \<Rightarrow> None | kv # _ \<Rightarrow> Some kv, itr') \<and> comb_ready itr' \<and>
    end_items itr' = [] \<and> ci_dbItem itr' = ci_dbItem itr \<and> ci_updatesItem itr' = ci_updatesItem itr \<and>
    length (end_items itr) \<le> 1"
proof (cases "\<not> ci_includeEndKey itr \<or> ci_endKeyServed itr")
  case True
  with assms show ?thesis by (simp add: serveEndKeyIfNeeded_def end_items_def)
next
  case False
  let ?itr = "itr\<lparr>ci_endKeyServed := True\<rparr>"
  have new: "comb_ready ?itr" "end_items ?itr = []"
    using assms by (simp_all add: comb_ready_def end_items_def)
  from assms obtain r where r: "ci_db itr (ci_ns itr) (ci_endKey itr) = Ok r" by (auto simp: comb_ready_def)
  define vv where "vv = (case UpdateBatch_Get (ci_updates itr) (ci_ns itr) (ci_endKey itr) of
      Some vv \<Rightarrow> Some vv | None \<Rightarrow> r)"
  have get: "(case UpdateBatch_Get (ci_updates itr) (ci_ns itr) (ci_endKey itr) of
      Some vv \<Rightarrow> Ok (Some vv) | None \<Rightarrow> ci_db itr (ci_ns itr) (ci_endKey itr)) = Ok vv"
    using r by (simp add: vv_def split: option.split)
  have items: "end_items itr = (case vv of
      Some v \<Rightarrow> live [\<lparr>vkv_Namespace = ci_ns itr, vkv_Key = ci_endKey itr, vkv_Value = vv_Value v,
        vkv_Version = vv_Version v\<rparr>] | None \<Rightarrow> [])"
    using False r
    by (simp add: end_items_def read_through_def vv_def entry_of_def committed_def live_def split: option.split)
  have serve: "serveEndKeyIfNeeded itr = Ok (case end_items itr of [] \<Rightarrow> None | kv # _ \<Rightarrow> Some kv, ?itr)"
    using False get items by (cases vv) (simp_all add: serveEndKeyIfNeeded_def isDelete_def live_def)
  have "length (end_items itr) \<le> 1" using items by (cases vv) (simp_all add: live_def)
  with new serve show ?thesis by (intro exI [of _ ?itr]) simp
qed

lemma Next_contents:
  "comb_ready itr \<Longrightarrow>
     \<exists>itr'. combinedIterator_Next itr =
         Ok (case comb_contents itr of [] \<Rightarrow> None | kv # _ \<Rightarrow> Some kv, itr') \<and>
       comb_ready itr' \<and> comb_contents itr' = tl (comb_contents itr)"
proof (induction itr rule: combinedIterator_Next.induct)
  case (1 itr)
  show ?case
  proof (cases "ci_dbItem itr = None \<and> ci_updatesItem itr = None")
    case True
    then have items: "comb_contents itr = end_items itr"
      by (simp add: comb_contents_def db_items_def update_items_def live_def)
    from serve_end [OF 1(2)] obtain itr' where *: "serveEndKeyIfNeeded itr =
        Ok (case end_items itr of [] \<Rightarrow> None | kv # _ \<Rightarrow> Some kv, itr')" "comb_ready itr'" "end_items itr' = []"
        "ci_dbItem itr' = None" "ci_updatesItem itr' = None" "length (end_items itr) \<le> 1"
      using True by auto
    then have "comb_contents itr' = []"
      by (simp add: comb_contents_def db_items_def update_items_def live_def)
    moreover have "tl (end_items itr) = []" using *(6) by (cases "end_items itr") auto
    ultimately show ?thesis using * True items by (simp add: combinedIterator_Next.simps [of itr])
  next
    case False
    from select_step [OF 1(2) False] obtain kv itr1 where *: "select_and_move itr = Ok (Some kv, itr1)"
        "comb_ready itr1" "end_items itr1 = end_items itr"
        "merge_items (db_items itr) (update_items itr) = kv # merge_items (db_items itr1) (update_items itr1)"
      by blast
    have "comb_contents itr = live [kv] @ comb_contents itr1"
      using * by (simp add: comb_contents_def live_def)
    with 1(1) [OF False *(1), of True] *(1,2) False show ?thesis
      by (auto simp: combinedIterator_Next.simps [of itr] isDelete_def live_def)
  qed
qed

interpretation comb_iter: results_iterator combinedIterator_Next comb_contents comb_ready
proof unfold_locales
  fix it
  assume "comb_ready it" "comb_contents it = []"
  with Next_contents [of it] show "\<exists>it'. combinedIterator_Next it = Ok (None, it') \<and> comb_ready it' \<and> comb_contents it' = []"
    by auto
next
  fix it x xs
  assume "comb_ready it" "comb_contents it = x # xs"
  with Next_contents [of it] show "\<exists>it'. combinedIterator_Next it = Ok (Some x, it') \<and> comb_ready it' \<and> comb_contents it' = xs"
    by auto
qed

section \<open>The merge as a scan\<close>

abbreviation ascending :: "VersionedKV list \<Rightarrow> bool" where
  "ascending kvs \<equiv> sorted_wrt (\<lambda>a b. vkv_Key a < vkv_Key b) kvs"

lemma set_merge:
  "ascending ds \<Longrightarrow> ascending us \<Longrightarrow>
     set (merge_items ds us) = set us \<union> {d \<in> set ds. vkv_Key d \<notin> vkv_Key ` set us}"
  by (induction ds us rule: merge_items.induct) (fastforce split: if_splits)+

lemma ascending_merge:
  "ascending ds \<Longrightarrow> ascending us \<Longrightarrow> ascending (merge_items ds us)"
  by (induction ds us rule: merge_items.induct) (fastforce simp: set_merge split: if_splits)+

lemma ascending_unique: "ascending xs \<Longrightarrow> ascending ys \<Longrightarrow> set xs = set ys \<Longrightarrow> xs = ys"
proof (induction xs arbitrary: ys)
  case (Cons x xs)
  then obtain y ys' where ys: "ys = y # ys'" by (cases ys) auto
  have "x = y"
  proof (rule ccontr)
    assume "x \<noteq> y"
    then have "x \<in> set ys'" "y \<in> set xs" using Cons.prems(3) ys by auto
    with Cons.prems(1,2) ys show False by (auto dest: less_asym)
  qed
  moreover have "x \<notin> set xs" "y \<notin> set ys'" using Cons.prems(1,2) ys by auto
  ultimately have "set xs = set ys'" using Cons.prems(3) ys by auto
  with Cons \<open>x = y\<close> ys show ?case by auto
qed simp

lemma GetState_Ok:
  assumes "ldb_laws L" and "wf_level L n d" and "zero_free ns" and "ns \<noteq> []"
  shows "\<exists>r. vdb_GetState L n d ns key = Ok r"
proof -
  let ?k = "constructLevelKey n (constructCompositeKey ns key)"
  have "ldb_Get L d ?k = Err ErrNotFound \<or> (\<exists>v. ldb_Get L d ?k = Ok v)"
    using assms(1) unfolding ldb_laws_def by (elim conjE allE [where x = d] allE [where x = ?k])
  then show ?thesis
  proof (elim disjE exE)
    fix v
    assume v: "ldb_Get L d ?k = Ok v"
    then obtain val h where "v = EncodeValue (Some val) h"
      using assms(2-4) unfolding wf_level_def DBHandle_Get_Some_iff by metis
    with v show ?thesis
      by (simp add: vdb_GetState_def DBHandle_Get_def DB_Get_def DecodeValue_EncodeValue)
  qed (simp add: vdb_GetState_def DBHandle_Get_def DB_Get_def)
qed

lemma GetUpdates_lookup: "map_of (GetUpdates batch ns) k = UpdateBatch_Get batch ns k"
  by (simp add: GetUpdates_def UpdateBatch_Get_def split: option.split)

lemma update_scan:
  assumes "wf_batch batch"
  shows "ascending (ns_contents (newNsIterator ns s e batch)) \<and>
    (\<forall>kv. kv \<in> set (ns_contents (newNsIterator ns s e batch)) \<longleftrightarrow>
      vkv_Namespace kv = ns \<and> in_range s e (vkv_Key kv) \<and>
      UpdateBatch_Get batch ns (vkv_Key kv) = Some \<lparr>vv_Value = vkv_Value kv, vv_Version = vkv_Version kv\<rparr>)"
proof -
  let ?u = "GetUpdates batch ns"
  have "distinct (map fst ?u)"
    using assms by (auto simp: wf_batch_def GetUpdates_def split: option.split dest!: map_of_SomeD)
  then have "sorted_wrt (<) (GetSortedKeys ?u)"
    by (simp add: strict_sorted_iff GetSortedKeys_def)
  then have "ascending (map (ns_entry ns ?u) (filter (in_range s e) (GetSortedKeys ?u)))"
    by (simp add: sorted_wrt_map ns_entry_def sorted_wrt_filter)
  moreover have "kv \<in> set (map (ns_entry ns ?u) (filter (in_range s e) (GetSortedKeys ?u))) \<longleftrightarrow>
      vkv_Namespace kv = ns \<and> in_range s e (vkv_Key kv) \<and>
      UpdateBatch_Get batch ns (vkv_Key kv) = Some \<lparr>vv_Value = vkv_Value kv, vv_Version = vkv_Version kv\<rparr>"
    (is "?l \<longleftrightarrow> ?r") for kv
  proof
    assume ?l
    then obtain k where "kv = ns_entry ns ?u k" "in_range s e k" "k \<in> fst ` set ?u"
      by (auto simp: GetSortedKeys_def)
    moreover from this(3) obtain vv where "map_of ?u k = Some vv"
      by (metis map_of_eq_None_iff not_None_eq)
    ultimately show ?r by (simp add: ns_entry_def GetUpdates_lookup)
  next
    assume r: ?r
    then have m: "map_of ?u (vkv_Key kv) = Some \<lparr>vv_Value = vkv_Value kv, vv_Version = vkv_Version kv\<rparr>"
      by (simp add: GetUpdates_lookup)
    then have "vkv_Key kv \<in> fst ` set ?u" by (force dest: map_of_SomeD)
    moreover have "kv = ns_entry ns ?u (vkv_Key kv)" using r m by (simp add: ns_entry_def)
    ultimately show ?l using r by (auto simp: GetSortedKeys_def)
  qed
  ultimately show ?thesis using newNsIterator_contents [of ns s e batch] by simp
qed

lemma new_combined:
  assumes "scan_ready (vdb_GetStateRangeScanIterator L n d ns s e)"
    and "vdb_GetState L n d ns e = Ok r"
  shows "\<exists>itr. newCombinedIterator L n d updates ns s e inc = Ok itr \<and> comb_ready itr \<and>
    comb_contents itr =
      live (merge_items (scan_contents (vdb_GetStateRangeScanIterator L n d ns s e))
        (ns_contents (newNsIterator ns s e updates))) @
      (if inc then live (entry_of ns e (read_through (vdb_GetState L n d) updates ns e)) else [])"
proof -
  obtain x it where x: "kvScanner_Next (vdb_GetStateRangeScanIterator L n d ns s e) = Ok (x, it)"
      "scan_ready it" "scan_contents (vdb_GetStateRangeScanIterator L n d ns s e) =
        (case x of None \<Rightarrow> [] | Some y \<Rightarrow> y # scan_contents it)"
    by (rule scan_iter.nxt_step [OF assms(1)])
  have "ns_ready (newNsIterator ns s e updates)" using newNsIterator_contents by blast
  then obtain y u where y: "nsIterator_Next (newNsIterator ns s e updates) = Ok (y, u)" "ns_ready u"
      "ns_contents (newNsIterator ns s e updates) = (case y of None \<Rightarrow> [] | Some z \<Rightarrow> z # ns_contents u)"
    by (rule ns_iter.nxt_step)
  show ?thesis
    using x y assms(2)
    by (simp add: newCombinedIterator_def GetRangeScanIterator_def comb_ready_def comb_contents_def
        db_items_def update_items_def end_items_def cong: option.case_cong)
qed

text \<open>Reading through the updates is reading the database they were applied to.\<close>

lemma read_through_apply:
  assumes "ldb_laws L" and "wf_batch updates" and "zero_free_batch updates"
    and "vdb_ApplyUpdates L n d updates h = Ok d'" and "zero_free ns" and "ns \<noteq> []"
  shows "read_through (vdb_GetState L n d) updates ns key = vdb_GetState L n d' ns key"
proof -
  obtain d'' where "vdb_ApplyUpdates L n d updates h = Ok d''"
      "vdb_GetState L n d'' ns key = (case UpdateBatch_Get updates ns key of
        None \<Rightarrow> vdb_GetState L n d ns key | Some vv \<Rightarrow> Ok (committed vv))"
    using apply_updates_read [OF assms(1-3), of n d h] assms(5,6) by metis
  with assms(4) show ?thesis by (simp add: read_through_def split: option.split)
qed

lemma merge_is_scan:
  assumes "ldb_laws L" and "zero_free n" and "zero_free ns" and "ns \<noteq> []" and "wf_level L n d"
    and "wf_batch updates" and "zero_free_batch updates" and "vdb_ApplyUpdates L n d updates h = Ok d'"
  shows "live (merge_items (scan_contents (vdb_GetStateRangeScanIterator L n d ns s e))
      (ns_contents (newNsIterator ns s e updates))) =
    scan_contents (vdb_GetStateRangeScanIterator L n d' ns s e)"
proof (rule ascending_unique)
  let ?D = "scan_contents (vdb_GetStateRangeScanIterator L n d ns s e)"
  let ?U = "ns_contents (newNsIterator ns s e updates)"
  have wf': "wf_level L n d'" using wf_level_apply [OF assms(1,6,7,5,8)] .
  note D = range_scan_contents [OF assms(1-5), of s e]
  note D' = range_scan_contents [OF assms(1-4) wf', of s e]
  note U = update_scan [OF assms(6), of ns s e]
  have asc: "ascending ?D" "ascending ?U" using D U by (simp_all add: sorted_wrt_map)
  show "ascending (live (merge_items ?D ?U))"
    using ascending_merge [OF asc] by (simp add: live_def sorted_wrt_filter)
  show "ascending (scan_contents (vdb_GetStateRangeScanIterator L n d' ns s e))"
    using D' by (simp add: sorted_wrt_map)
  have keys: "k \<in> vkv_Key ` set ?U \<longleftrightarrow> in_range s e k \<and> UpdateBatch_Get updates ns k \<noteq> None" for k
  proof
    assume "in_range s e k \<and> UpdateBatch_Get updates ns k \<noteq> None"
    then obtain vv where "in_range s e k" "UpdateBatch_Get updates ns k = Some vv" by auto
    then have "\<lparr>vkv_Namespace = ns, vkv_Key = k, vkv_Value = vv_Value vv, vkv_Version = vv_Version vv\<rparr> \<in> set ?U"
      using U by simp
    then show "k \<in> vkv_Key ` set ?U" by force
  qed (use U in auto)
  have "kv \<in> set (live (merge_items ?D ?U)) \<longleftrightarrow>
      vkv_Namespace kv = ns \<and> in_range s e (vkv_Key kv) \<and> vkv_Value kv \<noteq> None \<and>
      read_through (vdb_GetState L n d) updates ns (vkv_Key kv) =
        Ok (Some \<lparr>vv_Value = vkv_Value kv, vv_Version = vkv_Version kv\<rparr>)" for kv
    using D U keys [of "vkv_Key kv"]
    by (auto simp: live_def set_merge [OF asc] read_through_def committed_def split: option.splits)
  then show "set (live (merge_items ?D ?U)) = set (scan_contents (vdb_GetStateRangeScanIterator L n d' ns s e))"
    using D' read_through_apply [OF assms(1,6-8,3,4)] by auto
qed

lemma live_entry_of:
  "live (entry_of ns k r) = entry_of ns k r \<longleftrightarrow> (\<forall>v. r = Ok (Some v) \<longrightarrow> vv_Value v \<noteq> None)"
  by (auto simp: live_def entry_of_def split: res.split option.split)

lemma GetState_value: "vdb_GetState L n d ns k = Ok (Some v) \<Longrightarrow> vv_Value v \<noteq> None"
  by (auto simp: vdb_GetState_def go_res split: option.splits)

text \<open>The results of a range query on a database, with the end key when asked for.\<close>

definition query_results ::
    "'d leveldb \<Rightarrow> string \<Rightarrow> 'd \<Rightarrow> string \<Rightarrow> string \<Rightarrow> string \<Rightarrow> bool \<Rightarrow> VersionedKV list" where
  "query_results L n d ns s e inc =
     scan_contents (vdb_GetStateRangeScanIterator L n d ns s e) @
     (if inc then entry_of ns e (vdb_GetState L n d ns e) else [])"

lemma combined_contents:
  assumes "ldb_laws L" and "zero_free n" and "zero_free ns" and "ns \<noteq> []" and "wf_level L n d"
    and "wf_batch updates" and "zero_free_batch updates" and "vdb_ApplyUpdates L n d updates h = Ok d'"
  shows "\<exists>itr. newCombinedIterator L n d updates ns s e inc = Ok itr \<and> comb_ready itr \<and>
    comb_contents itr = query_results L n d' ns s e inc"
proof -
  obtain r where "vdb_GetState L n d ns e = Ok r" using GetState_Ok [OF assms(1,5,3,4)] by blast
  from new_combined [OF conjunct1 [OF range_scan_contents [OF assms(1-5)]] this] obtain itr where
      "newCombinedIterator L n d updates ns s e inc = Ok itr" "comb_ready itr"
      "comb_contents itr =
        live (merge_items (scan_contents (vdb_GetStateRangeScanIterator L n d ns s e))
          (ns_contents (newNsIterator ns s e updates))) @
        (if inc then live (entry_of ns e (read_through (vdb_GetState L n d) updates ns e)) else [])"
    by blast
  moreover have "live (entry_of ns e (vdb_GetState L n d' ns e)) = entry_of ns e (vdb_GetState L n d' ns e)"
    unfolding live_entry_of by (intro allI impI) (rule GetState_value)
  ultimately show ?thesis
    by (simp add: query_results_def merge_is_scan [OF assms] read_through_apply [OF assms(1,6-8,3,4)])
qed

section \<open>Properties\<close>

text \<open>C5: the combined iterator shows the database as it will be once the pending updates are applied:
created over a database and a batch, it yields exactly the results that a range scan of the database
after \<open>ApplyUpdates\<close> of the batch yields, followed, when the end key is to be included, by the entry
of the end key there if it has one; then it returns nil.\<close>

theorem combined_iterator_exact:
  assumes "ldb_laws L" and "zero_free n" and "zero_free ns" and "ns \<noteq> []" and "wf_level L n d"
    and "wf_batch updates" and "zero_free_batch updates" and "vdb_ApplyUpdates L n d updates h = Ok d'"
  shows "\<exists>itr. newCombinedIterator L n d updates ns startKey endKey includeEndKey = Ok itr \<and>
    yields combinedIterator_Next itr (query_results L n d' ns startKey endKey includeEndKey)"
  using combined_contents [OF assms] comb_iter.yields_contents by blast

lemma empty_level: "wf_level mem_leveldb n []"
  by (simp add: wf_level_def DBHandle_Get_def DB_Get_def mem_leveldb_def)

theorem combined_iterator_exact_witness:
  "\<exists>d' itr. vdb_ApplyUpdates mem_leveldb ''ch'' [] sample_batch (Height 3 1) = Ok d' \<and>
     newCombinedIterator mem_leveldb ''ch'' [] sample_batch ''smallbank'' ''a'' ''b'' True = Ok itr \<and>
     yields combinedIterator_Next itr (query_results mem_leveldb ''ch'' d' ''smallbank'' ''a'' ''b'' True)"
proof -
  obtain d' where "vdb_ApplyUpdates mem_leveldb ''ch'' [] sample_batch (Height 3 1) = Ok d'"
    using apply_updates_read [OF mem_leveldb_laws sample_batch_wf] by blast
  with combined_iterator_exact [OF mem_leveldb_laws _ _ _ empty_level sample_batch_wf this,
      of "''smallbank''" "''a''" "''b''" True]
  show ?thesis by (simp add: zero_free_def)
qed

end
