(* ===== verification/Range_Query.thy ===== *)
theory Range_Query
  imports Merkle Combined_Iterator
begin

text \<open>
  Phantom detection: \<open>validator/statebasedval/range_query_validator.go\<close>, the setters and the
  comparison of \<open>protos/ledger/rwset/kvrwset/helper.go\<close>, and \<open>validateRangeQuery\<close> of
  \<open>state_based_validator.go\<close>. A range query recorded in a read-write set is run again on the
  database and the pending updates, and its results are compared with the raw reads or with the
  Merkle summary.

  The lemmas show when each comparison succeeds, and on which inputs it panics.
\<close>

section \<open>Read information\<close>

definition SetRawReads :: "KVRead list \<Rightarrow> RangeQueryInfo \<Rightarrow> RangeQueryInfo" where
  "SetRawReads kvReads rqi = rqi\<lparr>rq_ReadsInfo := Some (RawReads kvReads)\<rparr>"

definition SetMerkelSummary :: "QueryReadsMerkleSummary \<Rightarrow> RangeQueryInfo \<Rightarrow> RangeQueryInfo" where
  "SetMerkelSummary merkleSummary rqi = rqi\<lparr>rq_ReadsInfo := Some (ReadsMerkleHashes merkleSummary)\<rparr>"

definition GetReadsMerkleHashes :: "RangeQueryInfo \<Rightarrow> QueryReadsMerkleSummary option" where
  "GetReadsMerkleHashes rqi = (case rq_ReadsInfo rqi of Some (ReadsMerkleHashes s) \<Rightarrow> Some s | _ \<Rightarrow> None)"

text \<open>\<open>GetRawReads().GetKvReads()\<close>: empty when there are none.\<close>

definition GetKvReads :: "RangeQueryInfo \<Rightarrow> KVRead list" where
  "GetKvReads rqi = (case rq_ReadsInfo rqi of Some (RawReads rs) \<Rightarrow> rs | _ \<Rightarrow> [])"

definition summary_Equal :: "QueryReadsMerkleSummary \<Rightarrow> QueryReadsMerkleSummary option \<Rightarrow> bool" where
  "summary_Equal ms anotherMS =
     (case anotherMS of
        None \<Rightarrow> False
      | Some other \<Rightarrow>
          if ms_MaxDegree ms \<noteq> ms_MaxDegree other \<or> ms_MaxLevel ms \<noteq> ms_MaxLevel other \<or>
             length (ms_MaxLevelHashes ms) \<noteq> length (ms_MaxLevelHashes other) then False
          else list_all (\<lambda>i. ms_MaxLevelHashes ms ! i = ms_MaxLevelHashes other ! i)
                 [0 ..< length (ms_MaxLevelHashes ms)])"

section \<open>Raw results\<close>

text \<open>A read without a version panics here.\<close>

definition convertToVersionHeight :: "ProtoVersion option \<Rightarrow> (string, Height) res" where
  "convertToVersionHeight v = rbind (deref v) (\<lambda>p. Ok (NewHeight (pv_BlockNum p) (pv_TxNum p)))"

fun raw_loop ::
    "KVRead list \<Rightarrow> VersionedKV option \<Rightarrow> combinedIterator \<Rightarrow> (string, bool) res" where
  "raw_loop [] result itr = Ok (result = None)"
| "raw_loop (kvRead # rest) result itr =
     (case result of
        None \<Rightarrow> Ok False
      | Some versionedKV \<Rightarrow>
          if vkv_Key versionedKV \<noteq> kr_Key kvRead then Ok False
          else
            rbind (convertToVersionHeight (kr_Version kvRead)) (\<lambda>h.
            if \<not> AreSame (Some (vkv_Version versionedKV)) (Some h) then Ok False
            else rbind (combinedIterator_Next itr) (\<lambda>(result1, itr1). raw_loop rest result1 itr1)))"

definition results_validate :: "RangeQueryInfo \<Rightarrow> combinedIterator \<Rightarrow> (string, bool) res" where
  "results_validate rqInfo itr =
     (let rqResults = GetKvReads rqInfo
      in rbind (combinedIterator_Next itr) (\<lambda>(result, itr1).
         if length rqResults = 0 then Ok (result = None)
         else raw_loop rqResults result itr1))"

section \<open>Hashed results\<close>

text \<open>What an iterator has left, the end key included.\<close>

definition comb_left :: "combinedIterator \<Rightarrow> nat" where
  "comb_left itr = items_left itr + (if ci_includeEndKey itr \<and> \<not> ci_endKeyServed itr then 1 else 0)"

lemma select_and_move_end:
  "select_and_move itr = Ok (x, itr') \<Longrightarrow>
     ci_includeEndKey itr' = ci_includeEndKey itr \<and> ci_endKeyServed itr' = ci_endKeyServed itr"
  by (auto simp: select_and_move_def Let_def go_res split: if_splits)

lemma serveEndKey_left: "serveEndKeyIfNeeded itr = Ok (Some x, itr') \<Longrightarrow> comb_left itr' < comb_left itr"
  by (auto simp: serveEndKeyIfNeeded_def Let_def comb_left_def items_left_def go_res
      split: if_splits option.splits)

lemma Next_left: "combinedIterator_Next itr = Ok (Some x, itr') \<Longrightarrow> comb_left itr' < comb_left itr"
proof (induction itr rule: combinedIterator_Next.induct)
  case (1 itr)
  show ?case
  proof (cases "ci_dbItem itr = None \<and> ci_updatesItem itr = None")
    case True
    with 1(2) show ?thesis using serveEndKey_left by (simp add: combinedIterator_Next.simps [of itr])
  next
    case False
    then obtain r del where r: "select_and_move itr = Ok r" "isDelete (fst r) = Ok del"
        "(if del then combinedIterator_Next (snd r) else Ok r) = Ok (Some x, itr')"
      using 1(2) by (auto simp: combinedIterator_Next.simps [of itr] go_res)
    have "comb_left (snd r) < comb_left itr"
      using select_and_move_left [OF _ False, of "fst r" "snd r"] select_and_move_end [of itr "fst r" "snd r"] r(1)
      by (simp add: comb_left_def)
    then show ?thesis
      using 1(1) [OF False r(1,2)] r(3) by (cases del) auto
  qed
qed

text \<open>
  The loop of the hash validator. \<open>resultsHelper\<close> is nil when the recorded degree was refused, since
  the error of \<open>init\<close> is not looked at; the error of \<open>AddResult\<close> is not looked at either.
\<close>

function hash_loop ::
    "rw_codec \<Rightarrow> hasher \<Rightarrow> QueryReadsMerkleSummary \<Rightarrow> int \<Rightarrow> RangeQueryResultsHelper option \<Rightarrow>
      combinedIterator \<Rightarrow> (string, bool) res" where
  "hash_loop rc H inMerkle lastMatchedIndex resultsHelper itr =
     rbind (combinedIterator_Next itr) (\<lambda>r.
     case fst r of
       None \<Rightarrow>
         rbind (deref resultsHelper) (\<lambda>helper.
         rbind (helper_Done rc H helper) (\<lambda>(_, merkle).
         Ok (summary_Equal inMerkle merkle)))
     | Some versionedKV \<Rightarrow>
         rbind (deref resultsHelper) (\<lambda>helper.
         rbind (AddResult rc H (NewKVRead (vkv_Key versionedKV) (Some (vkv_Version versionedKV))) helper)
           (\<lambda>(helper1, _).
         rbind (GetMerkleSummary helper1) (\<lambda>summary.
         rbind (deref summary) (\<lambda>merkle.
         if ms_MaxLevel merkle < ms_MaxLevel inMerkle
         then hash_loop rc H inMerkle lastMatchedIndex (Some helper1) (snd r)
         else if lastMatchedIndex = int (length (ms_MaxLevelHashes merkle)) - 1
         then hash_loop rc H inMerkle lastMatchedIndex (Some helper1) (snd r)
         else if length (ms_MaxLevelHashes merkle) > length (ms_MaxLevelHashes inMerkle) then Ok False
         else
           rbind (index (ms_MaxLevelHashes merkle) (nat (lastMatchedIndex + 1))) (\<lambda>a.
           rbind (index (ms_MaxLevelHashes inMerkle) (nat (lastMatchedIndex + 1))) (\<lambda>b.
           if a \<noteq> b then Ok False
           else hash_loop rc H inMerkle (lastMatchedIndex + 1) (Some helper1) (snd r))))))))"
  by pat_completeness auto
termination
proof (relation "measure (\<lambda>(rc, H, m, i, h, itr). comb_left itr)", goal_cases)
  case 1
  show ?case by (rule wf_measure)
qed (simp_all, (metis Next_left prod.collapse)+)

declare hash_loop.simps [simp del]

definition hash_validate ::
    "rw_codec \<Rightarrow> hasher \<Rightarrow> QueryReadsMerkleSummary \<Rightarrow> combinedIterator \<Rightarrow> (string, bool) res" where
  "hash_validate rc H inMerkle itr =
     (let resultsHelper = (case NewRangeQueryResultsHelper True (ms_MaxDegree inMerkle) of
                             Ok helper \<Rightarrow> Some helper | _ \<Rightarrow> None)
      in hash_loop rc H inMerkle (-1) resultsHelper itr)"

definition validateRangeQuery ::
    "rw_codec \<Rightarrow> hasher \<Rightarrow> 'd leveldb \<Rightarrow> string \<Rightarrow> 'd \<Rightarrow> string \<Rightarrow> RangeQueryInfo \<Rightarrow> UpdateBatch \<Rightarrow>
      (string, bool) res" where
  "validateRangeQuery rc H L dbName d ns rangeQueryInfo updates =
     (let includeEndKey = (\<not> rq_ItrExhausted rangeQueryInfo)
      in rbind (newCombinedIterator L dbName d updates ns (rq_StartKey rangeQueryInfo)
                  (rq_EndKey rangeQueryInfo) includeEndKey) (\<lambda>combinedItr.
         case GetReadsMerkleHashes rangeQueryInfo of
           Some inMerkle \<Rightarrow> hash_validate rc H inMerkle combinedItr
         | None \<Rightarrow> results_validate rangeQueryInfo combinedItr))"

section \<open>Comparing with raw reads\<close>

lemma AreSame_iff: "AreSame (Some a) (Some b) \<longleftrightarrow> a = b"
  by (simp add: AreSame_def Compare_zero)

lemma summary_Equal_iff: "summary_Equal ms other \<longleftrightarrow> other = Some ms"
proof (cases other)
  case (Some o')
  have "list_all (\<lambda>i. xs ! i = ys ! i) [0 ..< length xs] \<longleftrightarrow> xs = ys" if "length xs = length ys" for xs ys :: "bytes list"
    using that by (auto simp: list_all_iff intro: nth_equalityI)
  with Some show ?thesis
    by (cases ms; cases o') (auto simp: summary_Equal_def)
qed (simp add: summary_Equal_def)

text \<open>What the comparison looks at in a result and in a recorded read.\<close>

definition kv_stamp :: "VersionedKV \<Rightarrow> string \<times> Height option" where
  "kv_stamp kv = (vkv_Key kv, Some (vkv_Version kv))"

definition read_stamp :: "KVRead \<Rightarrow> string \<times> Height option" where
  "read_stamp r = (kr_Key r, NewVersion (kr_Version r))"

lemma Next_step:
  assumes "comb_ready itr"
  obtains x itr' where "combinedIterator_Next itr = Ok (x, itr')" "comb_ready itr'"
    "comb_contents itr = (case x of None \<Rightarrow> [] | Some y \<Rightarrow> y # comb_contents itr')"
  by (rule comb_iter.nxt_step [OF assms])

lemma raw_loop_exact:
  assumes "comb_ready itr" and "list_all (\<lambda>r. kr_Version r \<noteq> None) reads"
  shows "raw_loop reads result itr =
    Ok (map kv_stamp (case result of None \<Rightarrow> [] | Some kv \<Rightarrow> kv # comb_contents itr) = map read_stamp reads)"
  using assms
proof (induction reads arbitrary: result itr)
  case Nil
  then show ?case by (simp split: option.split)
next
  case (Cons r reads)
  show ?case
  proof (cases result)
    case None
    then show ?thesis by simp
  next
    case (Some kv)
    obtain v where v: "kr_Version r = Some v" using Cons.prems(2) by auto
    obtain x itr' where x: "combinedIterator_Next itr = Ok (x, itr')" "comb_ready itr'"
        "comb_contents itr = (case x of None \<Rightarrow> [] | Some y \<Rightarrow> y # comb_contents itr')"
      by (rule Next_step [OF Cons.prems(1)])
    show ?thesis
      using Some v x Cons.IH [OF x(2), of x] Cons.prems(2)
      by (auto simp: convertToVersionHeight_def AreSame_iff kv_stamp_def read_stamp_def NewVersion_def)
  qed
qed

lemma results_validate_exact:
  assumes "comb_ready itr" and "list_all (\<lambda>r. kr_Version r \<noteq> None) (GetKvReads rqi)"
  shows "results_validate rqi itr = Ok (map kv_stamp (comb_contents itr) = map read_stamp (GetKvReads rqi))"
proof -
  obtain x itr' where x: "combinedIterator_Next itr = Ok (x, itr')" "comb_ready itr'"
      "comb_contents itr = (case x of None \<Rightarrow> [] | Some y \<Rightarrow> y # comb_contents itr')"
    by (rule Next_step [OF assms(1)])
  have "results_validate rqi itr =
      (if GetKvReads rqi = [] then Ok (x = None) else raw_loop (GetKvReads rqi) x itr')"
    using x(1) by (simp add: results_validate_def Let_def)
  also have "\<dots> = raw_loop (GetKvReads rqi) x itr'"
    by simp
  finally show ?thesis
    unfolding raw_loop_exact [OF x(2) assms(2)] x(3) .
qed

section \<open>Comparing with a summary\<close>

definition kv_read :: "VersionedKV \<Rightarrow> KVRead" where
  "kv_read kv = NewKVRead (vkv_Key kv) (Some (vkv_Version kv))"

text \<open>The summary of the remaining results, from a state of the helper.\<close>

definition finish ::
    "rw_codec \<Rightarrow> hasher \<Rightarrow> VersionedKV list \<Rightarrow> RangeQueryResultsHelper \<Rightarrow>
      (string, KVRead list \<times> QueryReadsMerkleSummary option) res" where
  "finish rc H kvs helper = rbind (add_results rc H (map kv_read kvs) helper) (helper_Done rc H)"

lemma finish_Cons:
  assumes "AddResult rc H (kv_read kv) helper = Ok (helper', None)"
  shows "finish rc H (kv # kvs) helper = finish rc H kvs helper'"
  using assms by (simp add: finish_def)

text \<open>The final summary extends the tree built so far.\<close>

lemma finish_extends:
  assumes "hash_total H" and "reads_total rc" and "helper_ok helper m" and "top_filled m"
    and "mt_maxLevel m + length kvs + 2 < 2 ^ 32" and "finish rc H kvs helper = Ok (rs, Some s)"
  shows "\<exists>mf. s = getSummery mf \<and> extends m mf \<and> mt_maxLevel mf < 2 ^ 32"
  using assms(3-6)
proof (induction kvs arbitrary: helper m)
  case Nil
  show ?case
  proof (cases "mt_isEmpty m")
    case True
    with Nil show ?thesis by (auto simp: finish_def helper_Done_def helper_ok_def)
  next
    case False
    from Done_ok [OF assms(1,2) Nil(1,2) False] Nil(3,4) show ?thesis
      by (auto simp: finish_def)
  qed
next
  case (Cons kv kvs)
  from AddResult_ok [OF assms(1,2) Cons.prems(1), of "kv_read kv"] obtain h1 m1 where 1:
      "AddResult rc H (kv_read kv) helper = Ok (h1, None)" "helper_ok h1 m1" "grows m m1"
    by blast
  have "mt_maxLevel m1 \<le> mt_maxLevel m + 1" using 1(3) by (auto simp: grows_def)
  then have "\<exists>mf. s = getSummery mf \<and> extends m1 mf \<and> mt_maxLevel mf < 2 ^ 32"
    using Cons.prems(3,4) finish_Cons [OF 1(1)]
    by (intro Cons.IH [OF 1(2) grows_top_filled [OF 1(3) Cons.prems(2)]]) auto
  with extends_trans [OF grows_extends [OF 1(3)]] show ?case by blast
qed

text \<open>A result processed: the helper has a new tree, and the loop compares or goes on.\<close>

lemma hash_loop_None:
  assumes "combinedIterator_Next itr = Ok (None, itr')"
  shows "hash_loop rc H inM i (Some helper) itr =
    rbind (helper_Done rc H helper) (\<lambda>(_, merkle). Ok (summary_Equal inM merkle))"
  using assms by (simp add: hash_loop.simps [of rc H inM i])

lemma hash_loop_Some:
  assumes "combinedIterator_Next itr = Ok (Some kv, itr')"
    and "AddResult rc H (kv_read kv) helper = Ok (helper', None)" and "helper_ok helper' m"
  shows "hash_loop rc H inM i (Some helper) itr =
    (if of_nat (mt_maxLevel m) < ms_MaxLevel inM \<or> i = int (length (getMaxLevelHashes m)) - 1
     then hash_loop rc H inM i (Some helper') itr'
     else if length (getMaxLevelHashes m) > length (ms_MaxLevelHashes inM) then Ok False
     else rbind (index (getMaxLevelHashes m) (nat (i + 1))) (\<lambda>a.
          rbind (index (ms_MaxLevelHashes inM) (nat (i + 1))) (\<lambda>b.
          if a \<noteq> b then Ok False else hash_loop rc H inM (i + 1) (Some helper') itr')))"
  using assms
  by (subst hash_loop.simps)
    (simp add: GetMerkleSummary_def helper_ok_def getSummery_def kv_read_def cong: if_cong)

text \<open>
  A tree that disagrees with a summary at or above its level never becomes it.
\<close>

definition mismatch :: "merkleTree \<Rightarrow> QueryReadsMerkleSummary \<Rightarrow> bool" where
  "mismatch m s \<longleftrightarrow> \<not> of_nat (mt_maxLevel m) < ms_MaxLevel s \<and>
     (length (ms_MaxLevelHashes s) < length (getMaxLevelHashes m) \<or>
      (\<exists>j < length (getMaxLevelHashes m). j < length (ms_MaxLevelHashes s) \<and>
         getMaxLevelHashes m ! j \<noteq> ms_MaxLevelHashes s ! j))"

lemma of_nat_less: "a < 2 ^ 32 \<Longrightarrow> b < 2 ^ 32 \<Longrightarrow> (of_nat a :: uint32) < of_nat b \<longleftrightarrow> a < b"
  by (simp add: word_less_nat_alt unat_of_nat take_bit_nat_eq_self)

lemma mismatch_final:
  assumes "mismatch m s" and "extends m mf" and "mt_maxLevel m < 2 ^ 32" and "mt_maxLevel mf < 2 ^ 32"
  shows "s \<noteq> getSummery mf"
proof
  assume s: "s = getSummery mf"
  with assms have "mt_maxLevel m = mt_maxLevel mf" "prefix (getMaxLevelHashes m) (getMaxLevelHashes mf)"
    by (auto simp: mismatch_def getSummery_def of_nat_less extends_def)
  with assms(1) s show False
    by (auto simp: mismatch_def getSummery_def prefix_def nth_append)
qed

lemma hash_loop_sound:
  assumes "hash_total H" and "reads_total rc"
  shows "comb_ready itr \<Longrightarrow> helper_ok helper m \<Longrightarrow> top_filled m \<Longrightarrow>
    mt_maxLevel m + length (comb_contents itr) + 2 < 2 ^ 32 \<Longrightarrow>
    hash_loop rc H inM i (Some helper) itr = Ok b \<Longrightarrow>
    b \<longleftrightarrow> (\<exists>rs. finish rc H (comb_contents itr) helper = Ok (rs, Some inM))"
proof (induction "comb_contents itr" arbitrary: itr helper m i)
  case Nil
  obtain x itr' where x: "combinedIterator_Next itr = Ok (x, itr')"
      "comb_contents itr = (case x of None \<Rightarrow> [] | Some y \<Rightarrow> y # comb_contents itr')"
    by (rule Next_step [OF Nil(2)])
  with Nil(1) have "x = None" by (cases x) auto
  with x(1) Nil(1,6) show ?case
    by (auto simp: hash_loop_None finish_def summary_Equal_iff go_res)
next
  case (Cons kv kvs)
  obtain x itr' where x: "combinedIterator_Next itr = Ok (x, itr')" "comb_ready itr'"
      "comb_contents itr = (case x of None \<Rightarrow> [] | Some y \<Rightarrow> y # comb_contents itr')"
    by (rule Next_step [OF Cons.prems(1)])
  with Cons.hyps(2) have kvs: "x = Some kv" "kvs = comb_contents itr'" by (cases x; auto)+
  from AddResult_ok [OF assms Cons.prems(2), of "kv_read kv"] obtain h1 m1 where 1:
      "AddResult rc H (kv_read kv) helper = Ok (h1, None)" "helper_ok h1 m1" "grows m m1" by blast
  have top: "top_filled m1" using grows_top_filled [OF 1(3) Cons.prems(3)] .
  have cons: "comb_contents itr = kv # comb_contents itr'" using Cons.hyps(2) kvs(2) by simp
  then have len: "length (comb_contents itr) = Suc (length (comb_contents itr'))" by simp
  have lev: "mt_maxLevel m1 + length (comb_contents itr') + 2 < 2 ^ 32"
    using 1(3) Cons.prems(4) len by (auto simp: grows_def)
  have fin: "finish rc H (comb_contents itr) helper = finish rc H (comb_contents itr') h1"
    unfolding cons by (rule finish_Cons [OF 1(1)])
  note IH = Cons.hyps(1) [OF kvs(2) x(2) 1(2) top lev]
  have no: "finish rc H (comb_contents itr') h1 \<noteq> Ok (rs, Some inM)" if "mismatch m1 inM" for rs
  proof
    assume "finish rc H (comb_contents itr') h1 = Ok (rs, Some inM)"
    from finish_extends [OF assms 1(2) top lev this] obtain mf where
      mf: "inM = getSummery mf" "extends m1 mf" "mt_maxLevel mf < 2 ^ 32" by blast
    have "mt_maxLevel m1 < 2 ^ 32" using lev by simp
    from mismatch_final [OF that mf(2) this mf(3)] mf(1) show False by contradiction
  qed
  show ?case
    using Cons.prems(5) x(1) kvs(1) hash_loop_Some [of itr kv itr' rc H helper h1 m1 inM i] 1 fin IH no
    by (auto simp: mismatch_def go_res split: if_splits)
qed

text \<open>What the loop has matched so far.\<close>

definition matched :: "merkleTree \<Rightarrow> nat \<Rightarrow> int \<Rightarrow> bool" where
  "matched m target i \<longleftrightarrow>
     mt_maxLevel m < target \<and> i = -1 \<or> mt_maxLevel m = target \<and> i = int (length (getMaxLevelHashes m)) - 1"

lemma matched_step:
  assumes "matched m (mt_maxLevel mf) i" and "grows m m1" and "extends m1 mf"
  shows "mt_maxLevel m1 < mt_maxLevel mf \<and> i = -1 \<or>
    mt_maxLevel m1 = mt_maxLevel mf \<and> prefix (getMaxLevelHashes m1) (getMaxLevelHashes mf) \<and>
    (i = int (length (getMaxLevelHashes m1)) - 1 \<or> i + 1 = int (length (getMaxLevelHashes m1)) - 1 \<and> -1 \<le> i)"
  using assms by (auto simp: matched_def grows_def extends_def)

lemma hash_loop_complete:
  assumes "hash_total H" and "reads_total rc"
  shows "comb_ready itr \<Longrightarrow> helper_ok helper m \<Longrightarrow> top_filled m \<Longrightarrow>
    mt_maxLevel m + length (comb_contents itr) + 2 < 2 ^ 32 \<Longrightarrow>
    finish rc H (comb_contents itr) helper = Ok (rs, Some (getSummery mf)) \<Longrightarrow>
    mt_maxLevel mf < 2 ^ 32 \<Longrightarrow> matched m (mt_maxLevel mf) i \<Longrightarrow>
    hash_loop rc H (getSummery mf) i (Some helper) itr = Ok True"
proof (induction "comb_contents itr" arbitrary: itr helper m i)
  case Nil
  obtain x itr' where x: "combinedIterator_Next itr = Ok (x, itr')"
      "comb_contents itr = (case x of None \<Rightarrow> [] | Some y \<Rightarrow> y # comb_contents itr')"
    by (rule Next_step [OF Nil(2)])
  with Nil(1) have "x = None" by (cases x) auto
  with x(1) Nil(1) Nil(6) show ?case
    by (auto simp: hash_loop_None finish_def summary_Equal_iff)
next
  case (Cons kv kvs)
  obtain x itr' where x: "combinedIterator_Next itr = Ok (x, itr')" "comb_ready itr'"
      "comb_contents itr = (case x of None \<Rightarrow> [] | Some y \<Rightarrow> y # comb_contents itr')"
    by (rule Next_step [OF Cons.prems(1)])
  with Cons.hyps(2) have kvs: "x = Some kv" "kvs = comb_contents itr'" by (cases x; auto)+
  from AddResult_ok [OF assms Cons.prems(2), of "kv_read kv"] obtain h1 m1 where 1:
      "AddResult rc H (kv_read kv) helper = Ok (h1, None)" "helper_ok h1 m1" "grows m m1" by blast
  have top: "top_filled m1" using grows_top_filled [OF 1(3) Cons.prems(3)] .
  have cons: "comb_contents itr = kv # comb_contents itr'" using Cons.hyps(2) kvs(2) by simp
  then have len: "length (comb_contents itr) = Suc (length (comb_contents itr'))" by simp
  have lev: "mt_maxLevel m1 + length (comb_contents itr') + 2 < 2 ^ 32"
    using 1(3) Cons.prems(4) len by (auto simp: grows_def)
  have fin: "finish rc H (comb_contents itr') h1 = Ok (rs, Some (getSummery mf))"
    using Cons.prems(5) unfolding cons finish_Cons [OF 1(1)] .
  obtain mg where mg: "getSummery mf = getSummery mg" "extends m1 mg" "mt_maxLevel mg < 2 ^ 32"
    using finish_extends [OF assms 1(2) top lev fin] by blast
  have "mt_maxLevel mg = mt_maxLevel mf" "getMaxLevelHashes mg = getMaxLevelHashes mf"
      "mt_maxDegree mg = mt_maxDegree mf"
    using mg(1,3) Cons.prems(6) of_nat_less [of "mt_maxLevel mg" "mt_maxLevel mf"]
      of_nat_less [of "mt_maxLevel mf" "mt_maxLevel mg"]
    by (auto simp: getSummery_def)
  then have ext: "extends m1 mf" using mg(2) by (simp add: extends_def)
  note IH = Cons.hyps(1) [OF kvs(2) x(2) 1(2) top lev fin Cons.prems(6)]
  have word: "(of_nat (mt_maxLevel m1) :: uint32) < of_nat (mt_maxLevel mf) \<longleftrightarrow> mt_maxLevel m1 < mt_maxLevel mf"
    using lev Cons.prems(6) by (intro of_nat_less) auto
  note step = hash_loop_Some [OF x(1) [unfolded kvs(1)] 1(1,2), of "getSummery mf" i]
  from matched_step [OF Cons.prems(7) 1(3) ext] show ?case
  proof (elim disjE conjE)
    assume "mt_maxLevel m1 < mt_maxLevel mf" "i = -1"
    with IH [of i] word show ?case unfolding step by (simp add: getSummery_def matched_def)
  next
    assume "mt_maxLevel m1 = mt_maxLevel mf" "i = int (length (getMaxLevelHashes m1)) - 1"
    with IH [of i] show ?case unfolding step by (simp add: matched_def)
  next
    assume eq: "mt_maxLevel m1 = mt_maxLevel mf" "prefix (getMaxLevelHashes m1) (getMaxLevelHashes mf)"
      and i: "i + 1 = int (length (getMaxLevelHashes m1)) - 1" "-1 \<le> i"
    define j where "j = nat (i + 1)"
    have j: "j < length (getMaxLevelHashes m1)" using i by (simp add: j_def)
    from eq(2) have "length (getMaxLevelHashes m1) \<le> length (getMaxLevelHashes mf)"
        "getMaxLevelHashes mf ! j = getMaxLevelHashes m1 ! j"
      using j by (auto simp: prefix_def nth_append)
    moreover have "matched m1 (mt_maxLevel mf) (i + 1)" using eq(1) i by (simp add: matched_def)
    moreover have "i \<noteq> int (length (getMaxLevelHashes m1)) - 1" using i by simp
    moreover note IH [OF \<open>matched m1 _ _\<close>]
    ultimately show ?case
      using j word eq(1) unfolding step by (simp add: getSummery_def index_def j_def [symmetric])
  qed
qed

lemma hash_validate_exact:
  assumes "hash_total H" and "reads_total rc" and "degree_ok (ms_MaxDegree s)" and "comb_ready itr"
    and "length (comb_contents itr) + 3 < 2 ^ 32"
  shows "hash_validate rc H s itr = Ok b \<Longrightarrow>
      b \<longleftrightarrow> (\<exists>rs. summarize rc H (ms_MaxDegree s) (map kv_read (comb_contents itr)) = Ok (rs, Some s))"
    and "summarize rc H (ms_MaxDegree s) (map kv_read (comb_contents itr)) = Ok (rs, Some s) \<Longrightarrow>
      hash_validate rc H s itr = Ok True"
proof -
  from New_ok [OF assms(3)] obtain helper m where new: "NewRangeQueryResultsHelper True (ms_MaxDegree s) = Ok helper"
      "helper_ok helper m" "mt_isEmpty m" "mt_maxLevel m = 1"
    by blast
  have top: "top_filled m" using new(3) by (simp add: top_filled_def)
  have lev: "mt_maxLevel m + length (comb_contents itr) + 2 < 2 ^ 32" using assms(5) new(4) by simp
  have sum: "summarize rc H (ms_MaxDegree s) (map kv_read (comb_contents itr)) = finish rc H (comb_contents itr) helper"
    by (simp add: summarize_def new(1) finish_def)
  have val: "hash_validate rc H s itr = hash_loop rc H s (-1) (Some helper) itr"
    by (simp add: hash_validate_def new(1))
  show "hash_validate rc H s itr = Ok b \<Longrightarrow>
      b \<longleftrightarrow> (\<exists>rs. summarize rc H (ms_MaxDegree s) (map kv_read (comb_contents itr)) = Ok (rs, Some s))"
    unfolding sum val by (rule hash_loop_sound [OF assms(1,2,4) new(2) top lev])
  assume fin: "summarize rc H (ms_MaxDegree s) (map kv_read (comb_contents itr)) = Ok (rs, Some s)"
  then obtain mf where mf: "s = getSummery mf" "extends m mf" "mt_maxLevel mf < 2 ^ 32"
    using finish_extends [OF assms(1,2) new(2) top lev] unfolding sum by blast
  have "matched m (mt_maxLevel mf) (-1)"
    using new(3,4) mf(2) by (auto simp: matched_def isEmpty_hashes extends_def)
  moreover have "finish rc H (comb_contents itr) helper = Ok (rs, Some (getSummery mf))"
    using fin [unfolded sum] unfolding mf(1) .
  ultimately have "hash_loop rc H (getSummery mf) (-1) (Some helper) itr = Ok True"
    by (intro hash_loop_complete [OF assms(1,2,4) new(2) top lev _ mf(3)])
  then show "hash_validate rc H s itr = Ok True" using val mf(1) by simp
qed

section \<open>Properties\<close>

text \<open>A lawful store with well-formed contents, a well-formed batch, and a usable namespace.\<close>

definition db_ok :: "'d leveldb \<Rightarrow> string \<Rightarrow> 'd \<Rightarrow> bool" where
  "db_ok L n d \<longleftrightarrow> ldb_laws L \<and> zero_free n \<and> wf_level L n d"

definition batch_ok :: "UpdateBatch \<Rightarrow> bool" where
  "batch_ok updates \<longleftrightarrow> wf_batch updates \<and> zero_free_batch updates"

definition ns_ok :: "string \<Rightarrow> bool" where
  "ns_ok ns \<longleftrightarrow> zero_free ns \<and> ns \<noteq> []"

text \<open>The results that a recorded query has on a database.\<close>

definition rerun :: "'d leveldb \<Rightarrow> string \<Rightarrow> 'd \<Rightarrow> string \<Rightarrow> RangeQueryInfo \<Rightarrow> VersionedKV list" where
  "rerun L n d ns rqi = query_results L n d ns (rq_StartKey rqi) (rq_EndKey rqi) (\<not> rq_ItrExhausted rqi)"

lemma combined_rerun:
  assumes "db_ok L n d" and "batch_ok updates" and "ns_ok ns" and "vdb_ApplyUpdates L n d updates h = Ok d'"
  obtains itr where "newCombinedIterator L n d updates ns (rq_StartKey rqi) (rq_EndKey rqi)
      (\<not> rq_ItrExhausted rqi) = Ok itr" "comb_ready itr" "comb_contents itr = rerun L n d' ns rqi"
  using combined_contents [of L n ns d updates h d'] assms
  unfolding db_ok_def batch_ok_def ns_ok_def rerun_def by blast

lemma apply_defined:
  assumes "db_ok L n d" and "batch_ok updates"
  shows "\<exists>d'. vdb_ApplyUpdates L n d updates h = Ok d'"
  by (rule apply_updates_read [of L updates n d h]) (use assms in \<open>auto simp: db_ok_def batch_ok_def\<close>)

text \<open>C6: validating a range query recorded with raw reads detects every phantom and nothing else: on
a lawful store the check returns true exactly when the keys and versions recorded, in order, are those
of the query run on the database with the updates of the preceding transactions applied.\<close>

theorem raw_range_query_exact:
  assumes "db_ok L n d" and "batch_ok updates" and "ns_ok ns" and "vdb_ApplyUpdates L n d updates h = Ok d'"
    and "GetReadsMerkleHashes rqi = None" and "list_all (\<lambda>r. kr_Version r \<noteq> None) (GetKvReads rqi)"
  shows "validateRangeQuery rc H L n d ns rqi updates =
    Ok (map kv_stamp (rerun L n d' ns rqi) = map read_stamp (GetKvReads rqi))"
proof -
  obtain itr where "newCombinedIterator L n d updates ns (rq_StartKey rqi) (rq_EndKey rqi)
      (\<not> rq_ItrExhausted rqi) = Ok itr" "comb_ready itr" "comb_contents itr = rerun L n d' ns rqi"
    by (rule combined_rerun [OF assms(1-4)])
  with results_validate_exact [OF _ assms(6)] assms(5) show ?thesis
    by (simp add: validateRangeQuery_def)
qed


text \<open>a transaction can crash every committing peer: a recorded range query whose Merkle summary
has a degree below 2 makes the validator panic, whatever the results are, because the error of
\<open>init\<close> is dropped and the nil helper is used.\<close>

theorem low_degree_panics:
  assumes "db_ok L n d" and "batch_ok updates" and "ns_ok ns"
    and "GetReadsMerkleHashes rqi = Some s" and "ms_MaxDegree s < 2"
  shows "validateRangeQuery rc H L n d ns rqi updates = Panic"
proof -
  obtain d' where "vdb_ApplyUpdates L n d updates (Height 0 0) = Ok d'"
    using apply_defined [OF assms(1,2)] by blast
  from combined_rerun [OF assms(1-3) this] obtain itr where itr:
      "newCombinedIterator L n d updates ns (rq_StartKey rqi) (rq_EndKey rqi) (\<not> rq_ItrExhausted rqi) = Ok itr"
      "comb_ready itr" by blast
  obtain x itr' where "combinedIterator_Next itr = Ok (x, itr')" using Next_step [OF itr(2)] by blast
  then have "hash_loop rc H s (-1) None itr = Panic"
    by (subst hash_loop.simps) (simp split: option.split)
  with itr(1) assms(4,5) show ?thesis
    by (simp add: validateRangeQuery_def hash_validate_def NewRangeQueryResultsHelper_def newMerkleTree_def)
qed

text \<open>A store with one account, a recorded query over it, and its summary.\<close>

definition sample_query :: "reads_info \<Rightarrow> RangeQueryInfo" where
  "sample_query info = \<lparr>rq_StartKey = ''a'', rq_EndKey = ''b'', rq_ItrExhausted = True, rq_ReadsInfo = Some info\<rparr>"

definition sample_summary :: QueryReadsMerkleSummary where
  "sample_summary = \<lparr>ms_MaxDegree = 2, ms_MaxLevel = 1, ms_MaxLevelHashes = [''h'']\<rparr>"

lemma sample_ok: "db_ok mem_leveldb ''ch'' []" "batch_ok sample_batch" "ns_ok ''smallbank''"
  using mem_leveldb_laws empty_level sample_batch_wf
  by (simp_all add: db_ok_def batch_ok_def ns_ok_def zero_free_def)

definition sample_db :: "(bytes, bytes) gomap" where
  "sample_db = the_ok (vdb_ApplyUpdates mem_leveldb ''ch'' [] sample_batch (Height 3 1))"

lemma sample_db: "vdb_ApplyUpdates mem_leveldb ''ch'' [] sample_batch (Height 3 1) = Ok sample_db"
  using apply_defined [OF sample_ok(1,2), of "Height 3 1"] by (auto simp: sample_db_def)

lemma sample_rerun: "length (rerun mem_leveldb ''ch'' sample_db ''smallbank'' (sample_query info)) = 1"
proof -
  have "rerun mem_leveldb ''ch'' sample_db ''smallbank'' (sample_query info) =
      query_results mem_leveldb ''ch'' sample_db ''smallbank'' ''a'' ''b'' False"
    by (simp add: rerun_def sample_query_def)
  moreover have "length (query_results mem_leveldb ''ch'' sample_db ''smallbank'' ''a'' ''b'' False) = 1"
    by code_simp
  ultimately show ?thesis by simp
qed

theorem raw_range_query_exact_witness:
  "validateRangeQuery sample_rw_codec Inr mem_leveldb ''ch'' [] ''smallbank'' (sample_query (RawReads [])) sample_batch =
     Ok False"
  using raw_range_query_exact [OF sample_ok sample_db, of "sample_query (RawReads [])" sample_rw_codec Inr]
    sample_rerun [of "RawReads []"]
  by (auto simp: GetReadsMerkleHashes_def GetKvReads_def sample_query_def)

theorem low_degree_panics_witness:
  "validateRangeQuery sample_rw_codec Inr mem_leveldb ''ch'' [] ''smallbank''
     (sample_query (ReadsMerkleHashes \<lparr>ms_MaxDegree = 1, ms_MaxLevel = 1, ms_MaxLevelHashes = []\<rparr>)) sample_batch = Panic"
  by (rule low_degree_panics [OF sample_ok,
        where s = "\<lparr>ms_MaxDegree = 1, ms_MaxLevel = 1, ms_MaxLevelHashes = []\<rparr>"])
    (simp_all add: GetReadsMerkleHashes_def sample_query_def)

text \<open>Updates that put the given keys, and the summary of the results of a query over them.\<close>

definition puts :: "string list \<Rightarrow> UpdateBatch" where
  "puts keys = fold (\<lambda>k. set_update ''ns'' k \<lparr>vv_Value = Some ''v'', vv_Version = Height 1 0\<rparr>) keys NewUpdateBatch"

definition recorded :: "string list \<Rightarrow> RangeQueryInfo" where
  "recorded keys = \<lparr>rq_StartKey = ''a'', rq_EndKey = ''z'', rq_ItrExhausted = True,
     rq_ReadsInfo = (case summarize sample_rw_codec Inr 2 (map (\<lambda>k. NewKVRead k (Some (Height 1 0))) keys) of
       Ok (_, Some s) \<Rightarrow> Some (ReadsMerkleHashes s) | Ok (rs, None) \<Rightarrow> Some (RawReads rs) | _ \<Rightarrow> None)\<rparr>"

definition six :: "string list" where
  "six = [''a'', ''b'', ''c'', ''d'', ''e'', ''f'']"

definition six_db :: "(bytes, bytes) gomap" where
  "six_db = the_ok (vdb_ApplyUpdates mem_leveldb ''ch'' [] (puts six) (Height 1 0))"

definition six_summary :: QueryReadsMerkleSummary where
  "six_summary = the (GetReadsMerkleHashes (recorded six))"

lemma six_results:
  "GetReadsMerkleHashes (recorded six) = Some six_summary" "ms_MaxDegree six_summary = 2"
  "length (rerun mem_leveldb ''ch'' six_db ''ns'' (recorded six)) = 6"
  "summarize sample_rw_codec Inr 2 (map kv_read (rerun mem_leveldb ''ch'' six_db ''ns'' (recorded six))) =
     Ok ([], Some six_summary)"
  by code_simp+

lemma batch_ok_puts: "batch_ok (puts six)"
  by code_simp



end
