(* ===== verification/Mvcc.thy ===== *)
theory Mvcc
  imports Range_Query Protos
begin

text \<open>
  Validation of a block against the committed state: \<open>validator/statebasedval/state_based_validator.go\<close>
  and the validation flags of \<open>core/ledger/util/txvalidationflags.go\<close>. Transactions are checked in
  block order; the writes of a valid one go to the update batch that the later ones are checked
  against.

  \<open>TxValidationCode\<close> is an \<open>int32\<close> in the code and an \<open>int\<close> here; a flag in the block is a byte.
  The lemmas show what a valid transaction has read, and how the flags and the batch correspond.
\<close>

section \<open>Validation flags\<close>

type_synonym TxValidationCode = int
type_synonym TxValidationFlags = "8 word list"

definition TxValidationCode_VALID :: TxValidationCode where "TxValidationCode_VALID = 0"
definition TxValidationCode_MVCC_READ_CONFLICT :: TxValidationCode where "TxValidationCode_MVCC_READ_CONFLICT = 11"
definition TxValidationCode_PHANTOM_READ_CONFLICT :: TxValidationCode where "TxValidationCode_PHANTOM_READ_CONFLICT = 12"
definition TxValidationCode_NIL_TXACTION :: TxValidationCode where "TxValidationCode_NIL_TXACTION = 16"
definition TxValidationCode_INVALID_OTHER_REASON :: TxValidationCode where "TxValidationCode_INVALID_OTHER_REASON = 255"

lemmas validation_codes =
  TxValidationCode_VALID_def TxValidationCode_MVCC_READ_CONFLICT_def TxValidationCode_PHANTOM_READ_CONFLICT_def
  TxValidationCode_NIL_TXACTION_def TxValidationCode_INVALID_OTHER_REASON_def

definition NewTxValidationFlags :: "nat \<Rightarrow> TxValidationFlags" where
  "NewTxValidationFlags n = replicate n 0"

definition SetFlag :: "TxValidationFlags \<Rightarrow> nat \<Rightarrow> TxValidationCode \<Rightarrow> (string, TxValidationFlags) res" where
  "SetFlag obj txIndex flag = set_index obj txIndex (word_of_int flag)"

definition Flag :: "TxValidationFlags \<Rightarrow> nat \<Rightarrow> (string, TxValidationCode) res" where
  "Flag obj txIndex = rbind (index obj txIndex) (\<lambda>b. Ok (uint b))"

definition IsSetTo :: "TxValidationFlags \<Rightarrow> nat \<Rightarrow> TxValidationCode \<Rightarrow> (string, bool) res" where
  "IsSetTo obj txIndex flag = rbind (Flag obj txIndex) (\<lambda>f. Ok (f = flag))"

definition flags_IsValid :: "TxValidationFlags \<Rightarrow> nat \<Rightarrow> (string, bool) res" where
  "flags_IsValid obj txIndex = IsSetTo obj txIndex TxValidationCode_VALID"

definition IsInvalid :: "TxValidationFlags \<Rightarrow> nat \<Rightarrow> (string, bool) res" where
  "IsInvalid obj txIndex = rbind (flags_IsValid obj txIndex) (\<lambda>b. Ok (\<not> b))"

section \<open>Validating a transaction\<close>

text \<open>A read error of the database counts as a conflict.\<close>

definition validateKVRead ::
    "'d leveldb \<Rightarrow> string \<Rightarrow> 'd \<Rightarrow> string \<Rightarrow> KVRead \<Rightarrow> UpdateBatch \<Rightarrow> (string, bool) res" where
  "validateKVRead L dbName d ns kvRead updates =
     (if UpdateBatch_Exists updates ns (kr_Key kvRead) then Ok False
      else
        (case vdb_GetState L dbName d ns (kr_Key kvRead) of
           Panic \<Rightarrow> Panic
         | Err _ \<Rightarrow> Ok False
         | Ok versionedValue \<Rightarrow>
             (let committedVersion = map_option vv_Version versionedValue
              in Ok (AreSame committedVersion (NewVersion (kr_Version kvRead))))))"

fun validateReadSet ::
    "'d leveldb \<Rightarrow> string \<Rightarrow> 'd \<Rightarrow> string \<Rightarrow> KVRead list \<Rightarrow> UpdateBatch \<Rightarrow> (string, bool) res" where
  "validateReadSet L dbName d ns [] updates = Ok True"
| "validateReadSet L dbName d ns (kvRead # rest) updates =
     rbind (validateKVRead L dbName d ns kvRead updates) (\<lambda>valid.
     if \<not> valid then Ok False else validateReadSet L dbName d ns rest updates)"

fun validateRangeQueries ::
    "rw_codec \<Rightarrow> hasher \<Rightarrow> 'd leveldb \<Rightarrow> string \<Rightarrow> 'd \<Rightarrow> string \<Rightarrow> RangeQueryInfo list \<Rightarrow> UpdateBatch \<Rightarrow>
      (string, bool) res" where
  "validateRangeQueries rc H L dbName d ns [] updates = Ok True"
| "validateRangeQueries rc H L dbName d ns (rqi # rest) updates =
     rbind (validateRangeQuery rc H L dbName d ns rqi updates) (\<lambda>valid.
     if \<not> valid then Ok False else validateRangeQueries rc H L dbName d ns rest updates)"

fun validate_namespaces ::
    "rw_codec \<Rightarrow> hasher \<Rightarrow> 'd leveldb \<Rightarrow> string \<Rightarrow> 'd \<Rightarrow> NsRwSet list \<Rightarrow> UpdateBatch \<Rightarrow>
      (string, TxValidationCode) res" where
  "validate_namespaces rc H L dbName d [] updates = Ok TxValidationCode_VALID"
| "validate_namespaces rc H L dbName d (nsRWSet # rest) updates =
     (let ns = nrw_NameSpace nsRWSet
      in rbind (validateReadSet L dbName d ns (kv_Reads (nrw_KvRwSet nsRWSet)) updates) (\<lambda>valid.
         if \<not> valid then Ok TxValidationCode_MVCC_READ_CONFLICT
         else
           rbind (validateRangeQueries rc H L dbName d ns (kv_RangeQueriesInfo (nrw_KvRwSet nsRWSet)) updates) (\<lambda>valid.
           if \<not> valid then Ok TxValidationCode_PHANTOM_READ_CONFLICT
           else validate_namespaces rc H L dbName d rest updates)))"

definition validateTx ::
    "rw_codec \<Rightarrow> hasher \<Rightarrow> 'd leveldb \<Rightarrow> string \<Rightarrow> 'd \<Rightarrow> TxRwSet \<Rightarrow> UpdateBatch \<Rightarrow>
      (string, TxValidationCode) res" where
  "validateTx rc H L dbName d txRWSet updates =
     validate_namespaces rc H L dbName d (trw_NsRwSets txRWSet) updates"

definition validateEndorserTX ::
    "codec \<Rightarrow> rw_codec \<Rightarrow> hasher \<Rightarrow> 'd leveldb \<Rightarrow> string \<Rightarrow> 'd \<Rightarrow> bytes \<Rightarrow> bool \<Rightarrow> UpdateBatch \<Rightarrow>
      (string, TxRwSet option \<times> TxValidationCode) res" where
  "validateEndorserTX pc rc H L dbName d envBytes doMVCCValidation updates =
     (case GetActionFromEnvelope pc envBytes of
        Panic \<Rightarrow> Panic
      | Err _ \<Rightarrow> Ok (None, TxValidationCode_NIL_TXACTION)
      | Ok respPayload \<Rightarrow>
          (case FromProtoBytes rc (ca_Results respPayload) \<lparr>trw_NsRwSets = []\<rparr> of
             Panic \<Rightarrow> Panic
           | Err _ \<Rightarrow> Ok (None, TxValidationCode_INVALID_OTHER_REASON)
           | Ok txRWSet \<Rightarrow>
               if doMVCCValidation
               then rbind (validateTx rc H L dbName d txRWSet updates) (\<lambda>txResult.
                    Ok (if txResult \<noteq> TxValidationCode_VALID then None else Some txRWSet, txResult))
               else Ok (Some txRWSet, TxValidationCode_VALID)))"

section \<open>Validating a block\<close>

fun add_writes :: "string \<Rightarrow> KVWrite list \<Rightarrow> Height \<Rightarrow> UpdateBatch \<Rightarrow> (string, UpdateBatch) res" where
  "add_writes ns [] txHeight batch = Ok batch"
| "add_writes ns (kvWrite # rest) txHeight batch =
     (if kw_IsDelete kvWrite
      then add_writes ns rest txHeight (UpdateBatch_Delete ns (kw_Key kvWrite) txHeight batch)
      else rbind (UpdateBatch_Put ns (kw_Key kvWrite) (kw_Value kvWrite) txHeight batch)
             (add_writes ns rest txHeight))"

fun add_ns_writes :: "NsRwSet list \<Rightarrow> Height \<Rightarrow> UpdateBatch \<Rightarrow> (string, UpdateBatch) res" where
  "add_ns_writes [] txHeight batch = Ok batch"
| "add_ns_writes (nsRWSet # rest) txHeight batch =
     rbind (add_writes (nrw_NameSpace nsRWSet) (kv_Writes (nrw_KvRwSet nsRWSet)) txHeight batch)
       (add_ns_writes rest txHeight)"

definition addWriteSetToBatch :: "TxRwSet \<Rightarrow> Height \<Rightarrow> UpdateBatch \<Rightarrow> (string, UpdateBatch) res" where
  "addWriteSetToBatch txRWSet txHeight batch = add_ns_writes (trw_NsRwSets txRWSet) txHeight batch"

text \<open>One round of the loop over the transactions: the flags and the batch after it.\<close>

definition validate_one ::
    "codec \<Rightarrow> rw_codec \<Rightarrow> hasher \<Rightarrow> 'd leveldb \<Rightarrow> string \<Rightarrow> 'd \<Rightarrow> uint64 \<Rightarrow> bool \<Rightarrow> nat \<Rightarrow> bytes \<Rightarrow>
      TxValidationFlags \<Rightarrow> UpdateBatch \<Rightarrow> (string, TxValidationFlags \<times> UpdateBatch) res" where
  "validate_one pc rc H L dbName d blockNum doMVCCValidation txIndex envBytes txsFilter updates =
     rbind (IsInvalid txsFilter txIndex) (\<lambda>inv.
     if inv then Ok (txsFilter, updates)
     else
       rbind (GetEnvelopeFromBlock pc envBytes) (\<lambda>env.
       rbind (GetPayload pc env) (\<lambda>payload.
       rbind (deref (pl_Header payload)) (\<lambda>hdr.
       rbind (UnmarshalChannelHeader pc (hdr_ChannelHeader hdr)) (\<lambda>chdr.
       if ch_Type chdr \<noteq> HeaderType_ENDORSER_TRANSACTION then Ok (txsFilter, updates)
       else
         rbind (validateEndorserTX pc rc H L dbName d envBytes doMVCCValidation updates) (\<lambda>(txRWSet, txResult).
         rbind (SetFlag txsFilter txIndex txResult) (\<lambda>flags1.
         case txRWSet of
           None \<Rightarrow> Ok (flags1, updates)
         | Some rws \<Rightarrow>
             rbind (addWriteSetToBatch rws (NewHeight blockNum (of_nat txIndex)) updates) (\<lambda>updates1.
             rbind (SetFlag flags1 txIndex TxValidationCode_VALID) (\<lambda>flags2.
             Ok (flags2, updates1))))))))))"

fun validate_loop ::
    "codec \<Rightarrow> rw_codec \<Rightarrow> hasher \<Rightarrow> 'd leveldb \<Rightarrow> string \<Rightarrow> 'd \<Rightarrow> uint64 \<Rightarrow> bool \<Rightarrow> nat \<Rightarrow> bytes list \<Rightarrow>
      TxValidationFlags \<Rightarrow> UpdateBatch \<Rightarrow> (string, TxValidationFlags \<times> UpdateBatch) res" where
  "validate_loop pc rc H L dbName d blockNum mvcc txIndex [] txsFilter updates = Ok (txsFilter, updates)"
| "validate_loop pc rc H L dbName d blockNum mvcc txIndex (envBytes # rest) txsFilter updates =
     rbind (validate_one pc rc H L dbName d blockNum mvcc txIndex envBytes txsFilter updates)
       (\<lambda>(txsFilter1, updates1).
     validate_loop pc rc H L dbName d blockNum mvcc (txIndex + 1) rest txsFilter1 updates1)"

definition flags_to_bytes :: "TxValidationFlags \<Rightarrow> bytes" where
  "flags_to_bytes fs = map (\<lambda>b. char_of (unat b)) fs"

definition flags_of_bytes :: "bytes \<Rightarrow> TxValidationFlags" where
  "flags_of_bytes b = map (\<lambda>c. of_nat (of_char c)) b"

text \<open>
  The flags are a slice of the block's metadata, so the block after the call has them. A block that
  makes the call fail is not used further.
\<close>

definition ValidateAndPrepareBatch ::
    "codec \<Rightarrow> rw_codec \<Rightarrow> hasher \<Rightarrow> 'd leveldb \<Rightarrow> string \<Rightarrow> 'd \<Rightarrow> Block \<Rightarrow> bool \<Rightarrow>
      (string, UpdateBatch \<times> Block) res" where
  "ValidateAndPrepareBatch pc rc H L dbName d block doMVCCValidation =
     rbind (deref (blk_Metadata block)) (\<lambda>md.
     rbind (index md BlockMetadataIndex_TRANSACTIONS_FILTER) (\<lambda>raw.
     let txsFilter = flags_of_bytes raw;
         txsFilter = (if length txsFilter = 0 then NewTxValidationFlags (length (blk_Data block)) else txsFilter)
     in rbind (validate_loop pc rc H L dbName d (bh_Number (blk_Header block)) doMVCCValidation 0
                 (blk_Data block) txsFilter NewUpdateBatch) (\<lambda>(flags, updates).
        rbind (set_index md BlockMetadataIndex_TRANSACTIONS_FILTER (flags_to_bytes flags)) (\<lambda>md1.
        Ok (updates, block\<lparr>blk_Metadata := Some md1\<rparr>)))))"

section \<open>One transaction\<close>

text \<open>A read is current: no preceding transaction of the block touched the key, and its committed
version is the recorded one.\<close>

definition read_current :: "'d leveldb \<Rightarrow> string \<Rightarrow> 'd \<Rightarrow> string \<Rightarrow> UpdateBatch \<Rightarrow> KVRead \<Rightarrow> bool" where
  "read_current L n d ns updates r \<longleftrightarrow> UpdateBatch_Get updates ns (kr_Key r) = None \<and>
     (\<exists>vv. vdb_GetState L n d ns (kr_Key r) = Ok vv \<and> map_option vv_Version vv = NewVersion (kr_Version r))"

lemma AreSame_eq: "AreSame a b \<longleftrightarrow> a = b"
  by (cases a; cases b) (simp_all add: AreSame_def Compare_zero)

lemma validateKVRead_True: "validateKVRead L n d ns r updates = Ok True \<longleftrightarrow> read_current L n d ns updates r"
  by (auto simp: validateKVRead_def read_current_def UpdateBatch_Exists_iff AreSame_eq Let_def split: res.splits)

lemma validateReadSet_True:
  "validateReadSet L n d ns rs updates = Ok True \<longleftrightarrow> (\<forall>r \<in> set rs. read_current L n d ns updates r)"
  by (induction rs) (auto simp: go_res simp flip: validateKVRead_True)

lemma validateRangeQueries_True:
  "validateRangeQueries rc H L n d ns qs updates = Ok True \<longleftrightarrow>
     (\<forall>q \<in> set qs. validateRangeQuery rc H L n d ns q updates = Ok True)"
  by (induction qs) (auto simp: go_res)

lemma validate_namespaces_VALID:
  "validate_namespaces rc H L n d nss updates = Ok TxValidationCode_VALID \<longleftrightarrow>
     (\<forall>s \<in> set nss.
        (\<forall>r \<in> set (kv_Reads (nrw_KvRwSet s)). read_current L n d (nrw_NameSpace s) updates r) \<and>
        (\<forall>q \<in> set (kv_RangeQueriesInfo (nrw_KvRwSet s)).
           validateRangeQuery rc H L n d (nrw_NameSpace s) q updates = Ok True))"
proof (induction nss)
  case (Cons s nss)
  have "(\<exists>x. validateReadSet L n d (nrw_NameSpace s) rs updates = Ok x \<and> (x \<longrightarrow> P) \<and> x) \<longleftrightarrow>
      validateReadSet L n d (nrw_NameSpace s) rs updates = Ok True \<and> P" for rs P by auto
  with Cons show ?case
    by (auto simp: Let_def go_res validation_codes validateReadSet_True [symmetric]
        validateRangeQueries_True [symmetric] split: if_splits)
qed simp

text \<open>What a valid transaction saw on the state that the preceding ones leave.\<close>

definition saw_state :: "'d leveldb \<Rightarrow> string \<Rightarrow> 'd \<Rightarrow> NsRwSet \<Rightarrow> bool" where
  "saw_state L n d s \<longleftrightarrow>
     (\<forall>r \<in> set (kv_Reads (nrw_KvRwSet s)). \<exists>vv. vdb_GetState L n d (nrw_NameSpace s) (kr_Key r) = Ok vv \<and>
        map_option vv_Version vv = NewVersion (kr_Version r)) \<and>
     (\<forall>q \<in> set (kv_RangeQueriesInfo (nrw_KvRwSet s)).
        GetReadsMerkleHashes q = None \<longrightarrow> list_all (\<lambda>r. kr_Version r \<noteq> None) (GetKvReads q) \<longrightarrow>
        map kv_stamp (rerun L n d (nrw_NameSpace s) q) = map read_stamp (GetKvReads q))"

lemma raw_range_query_True:
  assumes "db_ok L n d" and "batch_ok updates" and "ns_ok ns" and "vdb_ApplyUpdates L n d updates h = Ok d'"
    and "GetReadsMerkleHashes rqi = None" and "list_all (\<lambda>r. kr_Version r \<noteq> None) (GetKvReads rqi)"
    and "validateRangeQuery rc H L n d ns rqi updates = Ok True"
  shows "map kv_stamp (rerun L n d' ns rqi) = map read_stamp (GetKvReads rqi)"
proof -
  obtain itr where "newCombinedIterator L n d updates ns (rq_StartKey rqi) (rq_EndKey rqi)
      (\<not> rq_ItrExhausted rqi) = Ok itr" "comb_ready itr" "comb_contents itr = rerun L n d' ns rqi"
    by (rule combined_rerun [OF assms(1-4)])
  with results_validate_exact [OF _ assms(6)] assms(5,7) show ?thesis
    by (simp add: validateRangeQuery_def)
qed

lemma valid_saw_state:
  assumes "db_ok L n d" and "batch_ok updates" and "vdb_ApplyUpdates L n d updates h = Ok d'"
    and "validateTx rc H L n d rws updates = Ok TxValidationCode_VALID"
    and "s \<in> set (trw_NsRwSets rws)" and "ns_ok (nrw_NameSpace s)"
  shows "saw_state L n d' s"
proof -
  have valid: "\<forall>r \<in> set (kv_Reads (nrw_KvRwSet s)). read_current L n d (nrw_NameSpace s) updates r"
      "\<forall>q \<in> set (kv_RangeQueriesInfo (nrw_KvRwSet s)).
        validateRangeQuery rc H L n d (nrw_NameSpace s) q updates = Ok True"
    using assms(4,5) by (auto simp: validateTx_def validate_namespaces_VALID)
  have get: "vdb_GetState L n d' (nrw_NameSpace s) k = vdb_GetState L n d (nrw_NameSpace s) k"
    if "UpdateBatch_Get updates (nrw_NameSpace s) k = None" for k
    using that read_through_apply [of L updates n d h d' "nrw_NameSpace s" k] assms(1-3,6)
    by (auto simp: db_ok_def batch_ok_def ns_ok_def read_through_def)
  have "\<forall>r \<in> set (kv_Reads (nrw_KvRwSet s)). \<exists>vv. vdb_GetState L n d' (nrw_NameSpace s) (kr_Key r) = Ok vv \<and>
      map_option vv_Version vv = NewVersion (kr_Version r)"
    using valid(1) get by (simp add: read_current_def)
  with valid(2) raw_range_query_True [OF assms(1,2,6,3)] show ?thesis
    unfolding saw_state_def by blast
qed

section \<open>The loop over a block\<close>

definition tx_rwset :: "codec \<Rightarrow> rw_codec \<Rightarrow> bytes \<Rightarrow> TxRwSet option" where
  "tx_rwset pc rc envBytes =
     (case GetActionFromEnvelope pc envBytes of
        Ok a \<Rightarrow> (case FromProtoBytes rc (ca_Results a) \<lparr>trw_NsRwSets = []\<rparr> of Ok rws \<Rightarrow> Some rws | _ \<Rightarrow> None)
      | _ \<Rightarrow> None)"

definition is_endorser :: "codec \<Rightarrow> bytes \<Rightarrow> bool" where
  "is_endorser pc envBytes =
     (case channel_header pc envBytes of Ok chdr \<Rightarrow> ch_Type chdr = HeaderType_ENDORSER_TRANSACTION | _ \<Rightarrow> False)"

lemma validate_namespaces_codes:
  "validate_namespaces rc H L n d nss updates = Ok c \<Longrightarrow> c \<in> {0, 11, 12}"
  by (induction nss) (auto simp: Let_def go_res validation_codes split: if_splits)

lemma validateEndorserTX_cases:
  assumes "validateEndorserTX pc rc H L n d b mvcc updates = Ok (x, code)"
  shows "x = None \<and> code \<in> {11, 12, 16, 255} \<or>
    (\<exists>rws. x = Some rws \<and> code = 0 \<and> tx_rwset pc rc b = Some rws \<and>
      (mvcc \<longrightarrow> validateTx rc H L n d rws updates = Ok TxValidationCode_VALID))"
  using assms validate_namespaces_codes [of rc H L n d _ updates]
  by (auto simp: validateEndorserTX_def tx_rwset_def validation_codes validateTx_def go_res
      split: res.splits if_splits)

lemma SetFlag_Ok: "SetFlag fs i c = Ok fs' \<longleftrightarrow> i < length fs \<and> fs' = fs[i := word_of_int c]"
  by (simp add: SetFlag_def set_index_Ok_iff)

lemma IsInvalid_Ok: "IsInvalid fs i = Ok b \<longleftrightarrow> i < length fs \<and> b = (fs ! i \<noteq> 0)"
  by (auto simp: IsInvalid_def flags_IsValid_def IsSetTo_def Flag_def go_res validation_codes unsigned_eq_0_iff)

text \<open>The outcomes of one round: skipped, found invalid, or valid with its writes added.\<close>

lemma validate_one_cases:
  assumes "validate_one pc rc H L n d bn mvcc i b flags upd = Ok (flags', upd')"
  shows "i < length flags \<and>
    (flags' = flags \<and> upd' = upd \<and> (flags ! i \<noteq> 0 \<or> \<not> is_endorser pc b) \<or>
     (\<exists>c. flags' = flags[i := c] \<and> c \<noteq> 0 \<and> upd' = upd \<and> flags ! i = 0) \<or>
     (\<exists>rws. flags' = flags[i := 0] \<and> flags ! i = 0 \<and> is_endorser pc b \<and> tx_rwset pc rc b = Some rws \<and>
       (mvcc \<longrightarrow> validateTx rc H L n d rws upd = Ok TxValidationCode_VALID) \<and>
       addWriteSetToBatch rws (NewHeight bn (of_nat i)) upd = Ok upd'))"
proof -
  from assms obtain inv where inv: "IsInvalid flags i = Ok inv" by (auto simp: validate_one_def go_res)
  then have i: "i < length flags" "inv = (flags ! i \<noteq> 0)" by (simp_all add: IsInvalid_Ok)
  show ?thesis
  proof (cases "inv \<or> \<not> is_endorser pc b")
    case True
    with assms inv i show ?thesis
      by (auto simp: validate_one_def is_endorser_def channel_header_def go_res split: if_splits)
  next
    case False
    then have valid: "flags ! i = 0" "is_endorser pc b" using i by auto
    from assms inv False obtain x code flags1 where x:
        "validateEndorserTX pc rc H L n d b mvcc upd = Ok (x, code)" "SetFlag flags i code = Ok flags1"
        "(case x of None \<Rightarrow> Ok (flags1, upd)
          | Some rws \<Rightarrow> rbind (addWriteSetToBatch rws (NewHeight bn (of_nat i)) upd) (\<lambda>u.
              rbind (SetFlag flags1 i TxValidationCode_VALID) (\<lambda>f. Ok (f, u)))) = Ok (flags', upd')"
      by (auto simp: validate_one_def is_endorser_def channel_header_def go_res split: if_splits res.splits)
    have "(word_of_int c :: 8 word) \<noteq> 0" if "c \<in> {11, 12, 16, 255}" for c :: int
      using that by auto
    with validateEndorserTX_cases [OF x(1)] x(2,3) valid i show ?thesis
      by (auto simp: SetFlag_Ok go_res validation_codes)
  qed
qed

lemma validate_loop_frame:
  "validate_loop pc rc H L n d bn mvcc i envs flags upd = Ok (flags', upd') \<Longrightarrow>
     length flags' = length flags \<and> (\<forall>j. j < i \<or> flags ! j \<noteq> 0 \<longrightarrow> flags' ! j = flags ! j)"
proof (induction envs arbitrary: i flags upd)
  case (Cons b envs)
  from Cons.prems obtain flags1 upd1 where one:
      "validate_one pc rc H L n d bn mvcc i b flags upd = Ok (flags1, upd1)"
      "validate_loop pc rc H L n d bn mvcc (i + 1) envs flags1 upd1 = Ok (flags', upd')"
    by (auto simp: go_res)
  have "length flags1 = length flags \<and> (\<forall>j. j < i \<or> flags ! j \<noteq> 0 \<longrightarrow> flags1 ! j = flags ! j)"
    using validate_one_cases [OF one(1)] by (auto simp: nth_list_update)
  with Cons.IH [OF one(2)] show ?case by auto
qed simp

lemma validate_loop_append:
  "validate_loop pc rc H L n d bn mvcc i (xs @ ys) flags upd =
     rbind (validate_loop pc rc H L n d bn mvcc i xs flags upd) (\<lambda>(f, u).
       validate_loop pc rc H L n d bn mvcc (i + length xs) ys f u)"
  by (induction xs arbitrary: i flags upd) (auto simp: rbind_assoc intro!: rbind_cong)

text \<open>The writes of the valid endorser transactions of a block, in order.\<close>

fun commit_valid ::
    "codec \<Rightarrow> rw_codec \<Rightarrow> uint64 \<Rightarrow> TxValidationFlags \<Rightarrow> nat \<Rightarrow> bytes list \<Rightarrow> UpdateBatch \<Rightarrow> (string, UpdateBatch) res" where
  "commit_valid pc rc bn flags i [] batch = Ok batch"
| "commit_valid pc rc bn flags i (b # bs) batch =
     (case (if flags ! i = 0 \<and> is_endorser pc b then tx_rwset pc rc b else None) of
        None \<Rightarrow> commit_valid pc rc bn flags (i + 1) bs batch
      | Some rws \<Rightarrow> rbind (addWriteSetToBatch rws (NewHeight bn (of_nat i)) batch) (commit_valid pc rc bn flags (i + 1) bs))"

lemma validate_loop_commits:
  "validate_loop pc rc H L n d bn mvcc i envs flags upd = Ok (flags', upd') \<Longrightarrow>
     commit_valid pc rc bn flags' i envs upd = Ok upd'"
proof (induction envs arbitrary: i flags upd)
  case (Cons b envs)
  from Cons.prems obtain flags1 upd1 where one:
      "validate_one pc rc H L n d bn mvcc i b flags upd = Ok (flags1, upd1)"
      "validate_loop pc rc H L n d bn mvcc (i + 1) envs flags1 upd1 = Ok (flags', upd')"
    by (auto simp: go_res)
  have same: "flags' ! i = flags1 ! i" using validate_loop_frame [OF one(2)] by simp
  from validate_one_cases [OF one(1)] same Cons.IH [OF one(2)] show ?case by auto
qed simp

text \<open>At a valid endorser transaction: its set was validated against the batch before it.\<close>

lemma validate_loop_at:
  assumes "validate_loop pc rc H L n d bn mvcc 0 envs flags upd = Ok (flags', upd')"
    and "k < length envs" and "is_endorser pc (envs ! k)" and "flags' ! k = 0"
  obtains flags1 upd1 rws where "validate_loop pc rc H L n d bn mvcc 0 (take k envs) flags upd = Ok (flags1, upd1)"
    "tx_rwset pc rc (envs ! k) = Some rws"
    "mvcc \<longrightarrow> validateTx rc H L n d rws upd1 = Ok TxValidationCode_VALID"
proof -
  have "validate_loop pc rc H L n d bn mvcc 0 (take k envs @ envs ! k # drop (Suc k) envs) flags upd = Ok (flags', upd')"
    using assms(1) id_take_nth_drop [OF assms(2)] by simp
  then obtain f1 u1 f2 u2 where
      1: "validate_loop pc rc H L n d bn mvcc 0 (take k envs) flags upd = Ok (f1, u1)"
      and 2: "validate_one pc rc H L n d bn mvcc k (envs ! k) f1 u1 = Ok (f2, u2)"
      and 3: "validate_loop pc rc H L n d bn mvcc (k + 1) (drop (Suc k) envs) f2 u2 = Ok (flags', upd')"
    using assms(2) by (auto simp: validate_loop_append go_res min_absorb2)
  have "f2 ! k = 0" using validate_loop_frame [OF 3] assms(4) by simp
  with validate_one_cases [OF 2] assms(3) have "\<exists>rws. tx_rwset pc rc (envs ! k) = Some rws \<and>
      (mvcc \<longrightarrow> validateTx rc H L n d rws u1 = Ok TxValidationCode_VALID)"
    by auto
  with 1 that show thesis by blast
qed

lemma commit_valid_cong:
  "(\<And>j. i \<le> j \<Longrightarrow> j < i + length bs \<Longrightarrow> f ! j = g ! j) \<Longrightarrow>
     commit_valid pc rc bn f i bs b = commit_valid pc rc bn g i bs b"
proof (induction bs arbitrary: i b)
  case (Cons e bs)
  have "f ! i = g ! i" using Cons.prems [of i] by simp
  moreover have "commit_valid pc rc bn f (i + 1) bs = commit_valid pc rc bn g (i + 1) bs"
    using Cons.IH [of "i + 1"] Cons.prems by (intro ext) auto
  ultimately show ?case by (simp cong: option.case_cong)
qed simp

lemma validate_loop_prefix:
  assumes "validate_loop pc rc H L n d bn mvcc 0 envs flags upd = Ok (flags', upd')"
    and "validate_loop pc rc H L n d bn mvcc 0 (take k envs) flags upd = Ok (f1, u1)"
  shows "commit_valid pc rc bn flags' 0 (take k envs) upd = Ok u1"
proof -
  have "validate_loop pc rc H L n d bn mvcc 0 (take k envs @ drop k envs) flags upd = Ok (flags', upd')"
    using assms(1) by simp
  then have "validate_loop pc rc H L n d bn mvcc (length (take k envs)) (drop k envs) f1 u1 = Ok (flags', upd')"
    using assms(2) unfolding validate_loop_append by simp
  from validate_loop_frame [OF this] have "flags' ! j = f1 ! j" if "j < length (take k envs)" for j
    using that by simp
  then have "commit_valid pc rc bn flags' 0 (take k envs) upd = commit_valid pc rc bn f1 0 (take k envs) upd"
    by (intro commit_valid_cong) auto
  with validate_loop_commits [OF assms(2)] show ?thesis by simp
qed

section \<open>The batch\<close>

definition rwsets_ok :: "rw_codec \<Rightarrow> bool" where
  "rwsets_ok rc \<longleftrightarrow> (\<forall>b rws. FromProtoBytes rc b \<lparr>trw_NsRwSets = []\<rparr> = Ok rws \<longrightarrow>
     (\<forall>s \<in> set (trw_NsRwSets rws). ns_ok (nrw_NameSpace s)))"

lemma tx_rwset_ok:
  "rwsets_ok rc \<Longrightarrow> tx_rwset pc rc b = Some rws \<Longrightarrow> s \<in> set (trw_NsRwSets rws) \<Longrightarrow> ns_ok (nrw_NameSpace s)"
  by (auto simp: rwsets_ok_def tx_rwset_def split: res.splits)

lemma batch_ok_set_update: "batch_ok b \<Longrightarrow> ns_ok ns \<Longrightarrow> batch_ok (set_update ns k v b)"
proof -
  assume b: "batch_ok b" "ns_ok ns"
  have "fst ` set (set_update ns k v b) = insert ns (fst ` set b)"
    by (auto simp: set_update_def dom_update)
  with b show ?thesis
    by (auto simp: batch_ok_def wf_batch_set_update zero_free_batch_def list_all_iff ns_ok_def)
qed

lemma batch_ok_New: "batch_ok NewUpdateBatch"
  using wf_batch_New by (simp add: batch_ok_def zero_free_batch_def NewUpdateBatch_def)

lemma add_writes_ok:
  "add_writes ns ws h b = Ok b' \<Longrightarrow> ns_ok ns \<Longrightarrow> batch_ok b \<Longrightarrow> batch_ok b'"
  by (induction ws arbitrary: b)
    (auto simp: UpdateBatch_Delete_def UpdateBatch_Put_def go_res batch_ok_set_update split: if_splits)

lemma add_ns_writes_ok:
  "add_ns_writes nss h b = Ok b' \<Longrightarrow> \<forall>s \<in> set nss. ns_ok (nrw_NameSpace s) \<Longrightarrow> batch_ok b \<Longrightarrow> batch_ok b'"
  by (induction nss arbitrary: b) (auto simp: go_res dest: add_writes_ok)

lemma commit_valid_ok:
  assumes "rwsets_ok rc"
  shows "commit_valid pc rc bn flags i bs b = Ok b' \<Longrightarrow> batch_ok b \<Longrightarrow> batch_ok b'"
proof (induction bs arbitrary: i b)
  case (Cons e bs)
  then show ?case
    using add_ns_writes_ok tx_rwset_ok [OF assms]
    by (auto simp: go_res addWriteSetToBatch_def split: option.splits if_splits)
qed simp

lemma flags_bytes [simp]: "flags_of_bytes (flags_to_bytes fs) = fs"
proof -
  have "unat b mod 256 = unat b" for b :: "8 word" using unsigned_less [of b, where ?'a = nat] by simp
  then show ?thesis by (simp add: flags_of_bytes_def flags_to_bytes_def comp_def map_idI)
qed

section \<open>Properties\<close>

definition tx_flags :: "Block \<Rightarrow> TxValidationFlags" where
  "tx_flags block = flags_of_bytes (slice (blk_Metadata block) ! BlockMetadataIndex_TRANSACTIONS_FILTER)"

text \<open>The flags that the validator starts from: those of the block, or all valid.\<close>

definition initial_flags :: "Block \<Rightarrow> TxValidationFlags" where
  "initial_flags block =
     (if tx_flags block = [] then NewTxValidationFlags (length (blk_Data block)) else tx_flags block)"

lemma ValidateAndPrepareBatch_loop:
  assumes "ValidateAndPrepareBatch pc rc H L n d block mvcc = Ok (updates, block')"
  shows "validate_loop pc rc H L n d (bh_Number (blk_Header block)) mvcc 0 (blk_Data block)
      (initial_flags block) NewUpdateBatch = Ok (tx_flags block', updates) \<and> blk_Data block' = blk_Data block \<and>
    blk_Header block' = blk_Header block"
proof -
  let ?k = BlockMetadataIndex_TRANSACTIONS_FILTER
  from assms obtain md where md: "blk_Metadata block = Some md" "?k < length md"
    by (auto simp: ValidateAndPrepareBatch_def go_res)
  have init: "initial_flags block = (if length (flags_of_bytes (md ! ?k)) = 0
      then NewTxValidationFlags (length (blk_Data block)) else flags_of_bytes (md ! ?k))"
    by (simp add: initial_flags_def tx_flags_def md)
  from assms md obtain flags where "validate_loop pc rc H L n d (bh_Number (blk_Header block)) mvcc 0
        (blk_Data block) (initial_flags block) NewUpdateBatch = Ok (flags, updates)"
      "block' = block\<lparr>blk_Metadata := Some (md[?k := flags_to_bytes flags])\<rparr>"
    by (auto simp: ValidateAndPrepareBatch_def go_res Let_def init)
  with md show ?thesis by (simp add: tx_flags_def)
qed



text \<open>A block of one endorser transaction that read key \<open>k\<close> at height (1, 0) and writes it.\<close>

definition endorser_codec :: codec where
  "endorser_codec =
     \<lparr>un_Envelope = (\<lambda>b. Inr \<lparr>env_Payload = Some b, env_Signature = []\<rparr>),
      un_Payload = (\<lambda>b. Inr \<lparr>pl_Header = Some \<lparr>hdr_ChannelHeader = b, hdr_SignatureHeader = []\<rparr>, pl_Data = b\<rparr>),
      un_ChannelHeader = (\<lambda>b. Inr \<lparr>ch_Type = 3, ch_Version = 0, ch_ChannelId = ''ch'', ch_TxId = b,
        ch_Epoch = 0, ch_Extension = []\<rparr>),
      un_SignatureHeader = (\<lambda>b. Inl ''unused''),
      un_ChaincodeHeaderExtension = (\<lambda>b. Inl ''unused''),
      un_Transaction = (\<lambda>b. Inr \<lparr>tx_Actions = [\<lparr>ta_Header = [], ta_Payload = b\<rparr>]\<rparr>),
      un_ChaincodeActionPayload = (\<lambda>b. Inr \<lparr>cap_ChaincodeProposalPayload = [],
        cap_Action = Some \<lparr>cea_ProposalResponsePayload = Some b, cea_Endorsements = []\<rparr>\<rparr>),
      un_ChaincodeProposalPayload = (\<lambda>b. Inl ''unused''),
      un_ChaincodeInvocationSpec = (\<lambda>b. Inl ''unused''),
      un_ProposalResponsePayload = (\<lambda>b. Inr \<lparr>prp_ProposalHash = [], prp_Extension = Some b\<rparr>),
      un_ChaincodeAction = (\<lambda>b. Inr \<lparr>ca_Results = b, ca_Events = []\<rparr>),
      un_Metadata = (\<lambda>b. Inl ''unused''),
      en_Metadata = md_Value,
      un_LastConfig = (\<lambda>b. Inr \<lparr>lc_Index = 0\<rparr>),
      en_LastConfig = (\<lambda>_. []),
      en_Envelope = (\<lambda>e. slice (env_Payload e)),
      en_SignatureHeader = (\<lambda>_. [])\<rparr>"

definition one_tx_block :: Block where
  "one_tx_block = \<lparr>blk_Header = \<lparr>bh_Number = 2, bh_PreviousHash = [], bh_DataHash = []\<rparr>, blk_Data = [''tx''],
     blk_Metadata = Some [[], [], []]\<rparr>"

definition k_db :: "(bytes, bytes) gomap" where
  "k_db = the_ok (vdb_ApplyUpdates mem_leveldb ''ch'' [] (puts [''k'']) (Height 1 0))"

definition validated :: "UpdateBatch \<times> Block" where
  "validated = the_ok (ValidateAndPrepareBatch endorser_codec sample_rw_codec Inr mem_leveldb ''ch'' k_db one_tx_block True)"

lemma k_db_ok: "db_ok mem_leveldb ''ch'' k_db"
proof -
  have batch: "batch_ok (puts [''k''])"
    by (simp add: puts_def batch_ok_set_update batch_ok_New ns_ok_def zero_free_def)
  then obtain d where "vdb_ApplyUpdates mem_leveldb ''ch'' [] (puts [''k'']) (Height 1 0) = Ok d"
    using apply_defined [OF sample_ok(1)] by blast
  then have "vdb_ApplyUpdates mem_leveldb ''ch'' [] (puts [''k'']) (Height 1 0) = Ok k_db" by (simp add: k_db_def)
  from wf_level_apply [OF mem_leveldb_laws _ _ empty_level this] batch show ?thesis
    by (simp add: db_ok_def mem_leveldb_laws zero_free_def batch_ok_def)
qed

lemma sample_rwsets_ok: "rwsets_ok sample_rw_codec"
  by (auto simp: rwsets_ok_def FromProtoBytes_def sample_rw_codec_def ns_ok_def zero_free_def go_res split: if_splits)

lemma one_tx_endorser: "is_endorser endorser_codec (blk_Data one_tx_block ! 0)"
  by (simp add: is_endorser_def channel_header_def endorser_codec_def GetEnvelopeFromBlock_def GetPayload_def
      UnmarshalChannelHeader_def HeaderType_ENDORSER_TRANSACTION_def)

lemma validated:
  "ValidateAndPrepareBatch endorser_codec sample_rw_codec Inr mem_leveldb ''ch'' k_db one_tx_block True =
     Ok (fst validated, snd validated)"
  "tx_flags (snd validated) ! 0 = 0"
proof -
  have "(case ValidateAndPrepareBatch endorser_codec sample_rw_codec Inr mem_leveldb ''ch'' k_db one_tx_block True of
      Ok (u, b) \<Rightarrow> tx_flags b ! 0 = 0 | _ \<Rightarrow> False)"
    by code_simp
  then show "ValidateAndPrepareBatch endorser_codec sample_rw_codec Inr mem_leveldb ''ch'' k_db one_tx_block True =
     Ok (fst validated, snd validated)" "tx_flags (snd validated) ! 0 = 0"
    by (auto simp: validated_def split: res.splits prod.splits)
qed



text \<open>a write set with a write that is no deletion and has no value, as a hand-made proposal response
can carry, makes the committing peer panic while it prepares the batch.\<close>

theorem nil_write_panics:
  assumes "nrw_KvRwSet s = \<lparr>kv_Reads = reads, kv_RangeQueriesInfo = queries, kv_Writes = ws\<rparr>"
    and "\<lparr>kw_Key = key, kw_IsDelete = False, kw_Value = None\<rparr> \<in> set ws"
  shows "addWriteSetToBatch \<lparr>trw_NsRwSets = s # rest\<rparr> height batch = Panic"
proof -
  have "add_writes (nrw_NameSpace s) ws height batch = Panic" for batch
    using assms(2)
  proof (induction ws arbitrary: batch)
    case (Cons w ws)
    show ?case
    proof (cases "w = \<lparr>kw_Key = key, kw_IsDelete = False, kw_Value = None\<rparr>")
      case True
      then show ?thesis by (simp add: UpdateBatch_Put_def)
    next
      case False
      with Cons show ?thesis by (auto simp: UpdateBatch_Put_def)
    qed
  qed simp
  then show ?thesis by (simp add: addWriteSetToBatch_def assms(1))
qed

theorem nil_write_panics_witness:
  "addWriteSetToBatch \<lparr>trw_NsRwSets = [\<lparr>nrw_NameSpace = ''ns'', nrw_KvRwSet = \<lparr>kv_Reads = [], kv_RangeQueriesInfo = [],
     kv_Writes = [\<lparr>kw_Key = ''k'', kw_IsDelete = False, kw_Value = None\<rparr>]\<rparr>\<rparr>]\<rparr> (Height 2 0) NewUpdateBatch = Panic"
  by (rule nil_write_panics [where key = "''k''" and ws = "[\<lparr>kw_Key = ''k'', kw_IsDelete = False, kw_Value = None\<rparr>]"]) simp_all

end
