(* ===== verification/Simulator.thy ===== *)
theory Simulator
  imports Mvcc
begin

text \<open>
  Simulating a transaction: \<open>lockbasedtxmgr/helper.go\<close>, \<open>lockbased_tx_simulator.go\<close> and
  \<open>lockbased_query_executer.go\<close>. A query helper reads the state database on behalf of a
  simulation or a query; a simulation has a read-write set builder that records what it reads,
  writes and scans.

  The database does not change while a helper is in use (the read lock), so it is an argument \<open>d\<close> of
  the operations. \<open>IsQueryReadsHashingEnabled\<close> and \<open>GetMaxDegreeQueryReadsHashing\<close> are the
  constants of \<open>ledgerconfig\<close>. The iterators a helper hands out are named by their position in its
  list. Iterators of a rich query do not exist on LevelDB, which refuses the query.

  The lemmas show that what a simulation records is accepted by the validator on the same state.
\<close>

section \<open>Iterators\<close>

definition IsQueryReadsHashingEnabled :: bool where
  "IsQueryReadsHashingEnabled = True"

definition GetMaxDegreeQueryReadsHashing :: uint32 where
  "GetMaxDegreeQueryReadsHashing = 50"

text \<open>
  \<open>ri_capture\<close> says whether the iterator has a builder; only then the query information and the
  results helper are set.
\<close>

record resultsItr =
  ri_ns :: string
  ri_endKey :: string
  ri_dbItr :: kvScanner
  ri_capture :: bool
  ri_rangeQueryInfo :: RangeQueryInfo
  ri_resultsHelper :: "RangeQueryResultsHelper option"

definition empty_rqi :: "string \<Rightarrow> RangeQueryInfo" where
  "empty_rqi startKey = \<lparr>rq_StartKey = startKey, rq_EndKey = [], rq_ItrExhausted = False, rq_ReadsInfo = None\<rparr>"

definition newResultsItr ::
    "'d leveldb \<Rightarrow> string \<Rightarrow> 'd \<Rightarrow> string \<Rightarrow> string \<Rightarrow> string \<Rightarrow> bool \<Rightarrow> bool \<Rightarrow> uint32 \<Rightarrow>
      (string, resultsItr) res" where
  "newResultsItr L dbName d ns startKey endKey capture enableHashing maxDegree =
     (let dbItr = vdb_GetStateRangeScanIterator L dbName d ns startKey endKey;
          itr = \<lparr>ri_ns = ns, ri_endKey = [], ri_dbItr = dbItr, ri_capture = False,
                 ri_rangeQueryInfo = empty_rqi [], ri_resultsHelper = None\<rparr>
      in if capture
         then rbind (NewRangeQueryResultsHelper enableHashing maxDegree) (\<lambda>resultsHelper.
              Ok (itr\<lparr>ri_capture := True, ri_endKey := endKey, ri_rangeQueryInfo := empty_rqi startKey,
                      ri_resultsHelper := Some resultsHelper\<rparr>))
         else Ok itr)"

text \<open>The error of \<open>AddResult\<close> is not looked at.\<close>

definition updateRangeQueryInfo ::
    "rw_codec \<Rightarrow> hasher \<Rightarrow> VersionedKV option \<Rightarrow> resultsItr \<Rightarrow> (string, resultsItr) res" where
  "updateRangeQueryInfo rc H queryResult itr =
     (if \<not> ri_capture itr then Ok itr
      else
        (case queryResult of
           None \<Rightarrow>
             Ok (itr\<lparr>ri_rangeQueryInfo := (ri_rangeQueryInfo itr)\<lparr>rq_ItrExhausted := True, rq_EndKey := ri_endKey itr\<rparr>\<rparr>)
         | Some versionedKV \<Rightarrow>
             rbind (deref (ri_resultsHelper itr)) (\<lambda>helper.
             rbind (AddResult rc H (NewKVRead (vkv_Key versionedKV) (Some (vkv_Version versionedKV))) helper)
               (\<lambda>(helper1, _).
             Ok (itr\<lparr>ri_resultsHelper := Some helper1,
                     ri_rangeQueryInfo := (ri_rangeQueryInfo itr)\<lparr>rq_EndKey := vkv_Key versionedKV\<rparr>\<rparr>)))))"

record KV =
  kv_Namespace :: string
  kv_Key :: string
  kv_Value :: "bytes option"

definition resultsItr_Next ::
    "rw_codec \<Rightarrow> hasher \<Rightarrow> resultsItr \<Rightarrow> (string, KV option \<times> resultsItr) res" where
  "resultsItr_Next rc H itr =
     rbind (kvScanner_Next (ri_dbItr itr)) (\<lambda>(queryResult, dbItr).
     rbind (updateRangeQueryInfo rc H queryResult (itr\<lparr>ri_dbItr := dbItr\<rparr>)) (\<lambda>itr1.
     Ok (map_option (\<lambda>kv. \<lparr>kv_Namespace = vkv_Namespace kv, kv_Key = vkv_Key kv, kv_Value = vkv_Value kv\<rparr>)
           queryResult, itr1)))"

section \<open>The query helper\<close>

record queryHelper =
  qh_rwsetBuilder :: "RWSetBuilder option"
  qh_itrs :: "resultsItr list"
  qh_err :: "string option"
  qh_doneInvoked :: bool

definition newQueryExecutor :: queryHelper where
  "newQueryExecutor = \<lparr>qh_rwsetBuilder = None, qh_itrs = [], qh_err = None, qh_doneInvoked = False\<rparr>"

definition newLockBasedTxSimulator :: queryHelper where
  "newLockBasedTxSimulator =
     \<lparr>qh_rwsetBuilder = Some NewRWSetBuilder, qh_itrs = [], qh_err = None, qh_doneInvoked = False\<rparr>"

definition checkDone :: "queryHelper \<Rightarrow> (string, unit) res" where
  "checkDone h = (if qh_doneInvoked h then Panic else Ok ())"

definition decomposeVersionedValue :: "VersionedValue option \<Rightarrow> bytes option \<times> Height option" where
  "decomposeVersionedValue versionedValue =
     (case versionedValue of None \<Rightarrow> (None, None) | Some vv \<Rightarrow> (vv_Value vv, Some (vv_Version vv)))"

text \<open>\<open>if h.rwsetBuilder != nil \{ h.rwsetBuilder.AddToReadSet(ns, key, ver) \}\<close>.\<close>

definition record_read :: "string \<Rightarrow> string \<Rightarrow> Height option \<Rightarrow> queryHelper \<Rightarrow> queryHelper" where
  "record_read ns key ver h = h\<lparr>qh_rwsetBuilder := map_option (AddToReadSet ns key ver) (qh_rwsetBuilder h)\<rparr>"

definition qh_getState ::
    "'d leveldb \<Rightarrow> string \<Rightarrow> 'd \<Rightarrow> string \<Rightarrow> string \<Rightarrow> queryHelper \<Rightarrow> (string, bytes option \<times> queryHelper) res" where
  "qh_getState L dbName d ns key h =
     rbind (checkDone h) (\<lambda>_.
     rbind (vdb_GetState L dbName d ns key) (\<lambda>versionedValue.
     let (val, ver) = decomposeVersionedValue versionedValue
     in Ok (val, record_read ns key ver h)))"

fun record_reads :: "string \<Rightarrow> (string \<times> VersionedValue option) list \<Rightarrow> queryHelper \<Rightarrow> bytes option list \<times> queryHelper" where
  "record_reads ns [] h = ([], h)"
| "record_reads ns ((key, versionedValue) # rest) h =
     (let (val, ver) = decomposeVersionedValue versionedValue;
          (vals, h1) = record_reads ns rest (record_read ns key ver h)
      in (val # vals, h1))"

text \<open>An error of the database is dropped: the caller gets no values and no error.\<close>

definition qh_getStateMultipleKeys ::
    "'d leveldb \<Rightarrow> string \<Rightarrow> 'd \<Rightarrow> string \<Rightarrow> string list \<Rightarrow> queryHelper \<Rightarrow>
      (string, bytes option list \<times> queryHelper) res" where
  "qh_getStateMultipleKeys L dbName d namespace keys h =
     rbind (checkDone h) (\<lambda>_.
     case vdb_GetStateMultipleKeys L dbName d namespace keys of
       Panic \<Rightarrow> Panic
     | Err _ \<Rightarrow> Ok ([], h)
     | Ok versionedValues \<Rightarrow> Ok (record_reads namespace (zip keys versionedValues) h))"

definition qh_getStateRangeScanIterator ::
    "'d leveldb \<Rightarrow> string \<Rightarrow> 'd \<Rightarrow> string \<Rightarrow> string \<Rightarrow> string \<Rightarrow> queryHelper \<Rightarrow> (string, nat \<times> queryHelper) res" where
  "qh_getStateRangeScanIterator L dbName d namespace startKey endKey h =
     rbind (checkDone h) (\<lambda>_.
     rbind (newResultsItr L dbName d namespace startKey endKey (qh_rwsetBuilder h \<noteq> None)
              IsQueryReadsHashingEnabled GetMaxDegreeQueryReadsHashing) (\<lambda>itr.
     Ok (length (qh_itrs h), h\<lparr>qh_itrs := qh_itrs h @ [itr]\<rparr>)))"

definition vdb_ExecuteQuery :: "string \<Rightarrow> string \<Rightarrow> (string, kvScanner) res" where
  "vdb_ExecuteQuery namespace query = Err ''ExecuteQuery not supported for leveldb''"

definition qh_executeQuery :: "string \<Rightarrow> string \<Rightarrow> (string, kvScanner) res" where
  "qh_executeQuery namespace query = vdb_ExecuteQuery namespace query"

text \<open>The caller's \<open>Next\<close> on an iterator of the helper.\<close>

definition itr_next ::
    "rw_codec \<Rightarrow> hasher \<Rightarrow> nat \<Rightarrow> queryHelper \<Rightarrow> (string, KV option \<times> queryHelper) res" where
  "itr_next rc H i h =
     rbind (index (qh_itrs h) i) (\<lambda>itr.
     rbind (resultsItr_Next rc H itr) (\<lambda>(kv, itr1).
     Ok (kv, h\<lparr>qh_itrs := (qh_itrs h)[i := itr1]\<rparr>)))"

text \<open>
  \<open>done\<close>: the information of every iterator goes to the builder, up to the first error, which is
  kept; the lock is released and the helper closed in any case.
\<close>

definition done_itr :: "rw_codec \<Rightarrow> hasher \<Rightarrow> resultsItr \<Rightarrow> RWSetBuilder \<Rightarrow> (string, RWSetBuilder) res" where
  "done_itr rc H itr builder =
     rbind (deref (ri_resultsHelper itr)) (\<lambda>helper.
     rbind (helper_Done rc H helper) (\<lambda>(results, hash).
     let rqi = (if results \<noteq> [] then SetRawReads results (ri_rangeQueryInfo itr) else ri_rangeQueryInfo itr);
         rqi = (case hash of Some s \<Rightarrow> SetMerkelSummary s rqi | None \<Rightarrow> rqi)
     in Ok (AddToRangeQuerySet (ri_ns itr) rqi builder)))"

fun done_loop_itrs ::
    "rw_codec \<Rightarrow> hasher \<Rightarrow> resultsItr list \<Rightarrow> RWSetBuilder \<Rightarrow> (string, RWSetBuilder \<times> string option) res" where
  "done_loop_itrs rc H [] builder = Ok (builder, None)"
| "done_loop_itrs rc H (itr # rest) builder =
     (case done_itr rc H itr builder of
        Panic \<Rightarrow> Panic
      | Err e \<Rightarrow> Ok (builder, Some e)
      | Ok builder1 \<Rightarrow> done_loop_itrs rc H rest builder1)"

definition qh_done :: "rw_codec \<Rightarrow> hasher \<Rightarrow> queryHelper \<Rightarrow> (string, queryHelper) res" where
  "qh_done rc H h =
     (if qh_doneInvoked h then Ok h
      else
        (case qh_rwsetBuilder h of
           None \<Rightarrow> Ok (h\<lparr>qh_doneInvoked := True\<rparr>)
         | Some builder \<Rightarrow>
             rbind (done_loop_itrs rc H (qh_itrs h) builder) (\<lambda>(builder1, e).
             Ok (h\<lparr>qh_rwsetBuilder := Some builder1, qh_doneInvoked := True,
                    qh_err := (case e of Some x \<Rightarrow> Some x | None \<Rightarrow> qh_err h)\<rparr>))))"

section \<open>The simulator\<close>

definition vdb_ValidateKey :: "string \<Rightarrow> (string, unit) res" where
  "vdb_ValidateKey key = Ok ()"

definition sim_SetState ::
    "string \<Rightarrow> string \<Rightarrow> bytes option \<Rightarrow> queryHelper \<Rightarrow> (string, queryHelper) res" where
  "sim_SetState ns key value h =
     rbind (checkDone h) (\<lambda>_.
     rbind (vdb_ValidateKey key) (\<lambda>_.
     Ok (h\<lparr>qh_rwsetBuilder := map_option (AddToWriteSet ns key value) (qh_rwsetBuilder h)\<rparr>)))"

definition sim_DeleteState :: "string \<Rightarrow> string \<Rightarrow> queryHelper \<Rightarrow> (string, queryHelper) res" where
  "sim_DeleteState ns key h = sim_SetState ns key None h"

fun sim_SetStateMultipleKeys ::
    "string \<Rightarrow> (string, bytes option) gomap \<Rightarrow> queryHelper \<Rightarrow> (string, queryHelper) res" where
  "sim_SetStateMultipleKeys namespace [] h = Ok h"
| "sim_SetStateMultipleKeys namespace ((k, v) # kvs) h =
     rbind (sim_SetState namespace k v h) (sim_SetStateMultipleKeys namespace kvs)"

definition GetTxSimulationResults ::
    "rw_codec \<Rightarrow> hasher \<Rightarrow> queryHelper \<Rightarrow> (string, bytes) res" where
  "GetTxSimulationResults rc H h =
     rbind (qh_done rc H h) (\<lambda>h1.
     case qh_err h1 of
       Some e \<Rightarrow> Err e
     | None \<Rightarrow>
         rbind (deref (qh_rwsetBuilder h1)) (\<lambda>builder.
         ToProtoBytes rc (GetTxReadWriteSet builder)))"

definition ExecuteUpdate :: "string \<Rightarrow> (string, unit) res" where
  "ExecuteUpdate query = Err ''Not supported''"

section \<open>Scans without pending updates\<close>

lemma empty_updates_contents [simp]: "ns_contents (newNsIterator ns s e NewUpdateBatch) = []"
  using newNsIterator_contents [of ns s e NewUpdateBatch]
  by (simp add: NewUpdateBatch_def GetUpdates_def GetSortedKeys_def sort_Strings_def)

abbreviation scan_list :: "'d leveldb \<Rightarrow> string \<Rightarrow> 'd \<Rightarrow> string \<Rightarrow> string \<Rightarrow> string \<Rightarrow> VersionedKV list" where
  "scan_list L n d ns s e \<equiv> scan_contents (vdb_GetStateRangeScanIterator L n d ns s e)"

lemma scan_list_mem:
  assumes "db_ok L n d" and "ns_ok ns"
  shows "scan_ready (vdb_GetStateRangeScanIterator L n d ns s e)"
    and "ascending (scan_list L n d ns s e)"
    and "kv \<in> set (scan_list L n d ns s e) \<longleftrightarrow>
       vkv_Namespace kv = ns \<and> in_range s e (vkv_Key kv) \<and> vkv_Value kv \<noteq> None \<and>
       vdb_GetState L n d ns (vkv_Key kv) = Ok (Some \<lparr>vv_Value = vkv_Value kv, vv_Version = vkv_Version kv\<rparr>)"
  using range_scan_contents [of L n ns d s e] assms
  by (simp_all add: db_ok_def ns_ok_def sorted_wrt_map)

lemma combined_no_updates:
  assumes "db_ok L n d" and "ns_ok ns"
  obtains itr where "newCombinedIterator L n d NewUpdateBatch ns s e inc = Ok itr" "comb_ready itr"
    "comb_contents itr = query_results L n d ns s e inc"
proof -
  obtain r where r: "vdb_GetState L n d ns e = Ok r"
    using GetState_Ok [of L n d ns e] assms by (auto simp: db_ok_def ns_ok_def)
  have "live (scan_list L n d ns s e) = scan_list L n d ns s e"
    using scan_list_mem(3) [OF assms] by (simp add: live_def)
  moreover have "live (entry_of ns e (vdb_GetState L n d ns e)) = entry_of ns e (vdb_GetState L n d ns e)"
    unfolding live_entry_of by (intro allI impI) (rule GetState_value)
  moreover have "read_through (vdb_GetState L n d) NewUpdateBatch ns e = vdb_GetState L n d ns e"
    by (simp add: read_through_def batch.get_empty)
  ultimately show thesis
    using new_combined [OF scan_list_mem(1) [OF assms, of s e] r, of NewUpdateBatch inc] that
    by (auto simp: query_results_def)
qed

text \<open>The results up to a key of a scan are the scan below the key and the entry of the key.\<close>

lemma query_up_to:
  assumes "db_ok L n d" and "ns_ok ns" and "scan_list L n d ns s e = pre @ kv # post" and "vkv_Key kv \<noteq> []"
  shows "query_results L n d ns s (vkv_Key kv) True = pre @ [kv]"
proof -
  let ?k = "vkv_Key kv"
  note mem = scan_list_mem(3) [OF assms(1,2)]
  have asc: "ascending (pre @ kv # post)" using scan_list_mem(2) [OF assms(1,2), of s e] assms(3) by simp
  have kv: "kv \<in> set (scan_list L n d ns s e)" using assms(3) by simp
  have "scan_list L n d ns s ?k = pre"
  proof (rule ascending_unique)
    show "ascending (scan_list L n d ns s ?k)" by (rule scan_list_mem(2) [OF assms(1,2)])
    show "ascending pre" using asc by (simp add: sorted_wrt_append)
    have "x \<in> set pre \<longleftrightarrow> x \<in> set (scan_list L n d ns s e) \<and> vkv_Key x < ?k" for x
      using asc unfolding assms(3) by (auto simp: sorted_wrt_append)
    moreover have "in_range s ?k k \<longleftrightarrow> in_range s e k \<and> k < ?k" for k
      using kv assms(4) by (auto simp: mem in_range_def)
    ultimately show "set (scan_list L n d ns s ?k) = set pre"
      by (auto simp: mem)
  qed
  moreover have "entry_of ns ?k (vdb_GetState L n d ns ?k) = [kv]"
    using kv by (simp add: mem entry_of_def)
  ultimately show ?thesis by (simp add: query_results_def)
qed

section \<open>What an iterator has recorded\<close>

text \<open>
  An iterator after some calls of \<open>Next\<close>: it has returned a prefix of its scan, fed it to the helper,
  and noted the last key returned, or the end of the query.
\<close>

definition itr_inv :: "rw_codec \<Rightarrow> hasher \<Rightarrow> 'd leveldb \<Rightarrow> string \<Rightarrow> 'd \<Rightarrow> VersionedKV list \<Rightarrow> resultsItr \<Rightarrow> bool" where
  "itr_inv rc H L n d pre itr \<longleftrightarrow>
     (let q = ri_rangeQueryInfo itr in
      ns_ok (ri_ns itr) \<and> ri_capture itr \<and> scan_ready (ri_dbItr itr) \<and>
      scan_list L n d (ri_ns itr) (rq_StartKey q) (ri_endKey itr) = pre @ scan_contents (ri_dbItr itr) \<and>
      rq_ReadsInfo q = None \<and>
      (rq_ItrExhausted q \<longrightarrow> scan_contents (ri_dbItr itr) = [] \<and> rq_EndKey q = ri_endKey itr) \<and>
      (\<not> rq_ItrExhausted q \<longrightarrow> rq_EndKey q = (if pre = [] then [] else vkv_Key (last pre))) \<and>
      (\<exists>h0 helper. NewRangeQueryResultsHelper IsQueryReadsHashingEnabled GetMaxDegreeQueryReadsHashing = Ok h0 \<and>
         add_results rc H (map kv_read pre) h0 = Ok helper \<and> ri_resultsHelper itr = Some helper))"

lemma config_degree: "IsQueryReadsHashingEnabled = True" "degree_ok GetMaxDegreeQueryReadsHashing"
  by (simp_all add: IsQueryReadsHashingEnabled_def GetMaxDegreeQueryReadsHashing_def degree_ok_def)

lemma new_itr_inv:
  assumes "db_ok L n d" and "ns_ok ns"
    and "newResultsItr L n d ns s e True IsQueryReadsHashingEnabled GetMaxDegreeQueryReadsHashing = Ok itr"
  shows "itr_inv rc H L n d [] itr"
  using assms scan_list_mem(1) [OF assms(1,2), of s e]
  by (auto simp: newResultsItr_def itr_inv_def empty_rqi_def go_res Let_def)

lemma add_results_snoc:
  assumes "add_results rc H kvs h0 = Ok h" and "AddResult rc H kv h = Ok (h', None)"
  shows "add_results rc H (kvs @ [kv]) h0 = Ok h'"
  using assms by (induction kvs arbitrary: h0) (auto simp: go_res split: option.splits)

lemma helper_after:
  assumes "hash_total H" and "reads_total rc" and "add_results rc H kvs h0 = Ok helper"
    and "NewRangeQueryResultsHelper IsQueryReadsHashingEnabled GetMaxDegreeQueryReadsHashing = Ok h0"
  obtains m where "helper_ok helper m"
proof -
  obtain h1 m0 where "NewRangeQueryResultsHelper True GetMaxDegreeQueryReadsHashing = Ok h1" "helper_ok h1 m0" "mt_isEmpty m0"
    using New_ok [OF config_degree(2)] by blast
  with assms(4) have "helper_ok h0 m0" "top_filled m0" by (auto simp: config_degree top_filled_def)
  from add_results_ok [OF assms(1,2) this, of kvs] assms(3) that show thesis by auto
qed

lemma next_itr_inv:
  assumes "hash_total H" and "reads_total rc" and "itr_inv rc H L n d pre itr"
    and "resultsItr_Next rc H itr = Ok (kv, itr')"
  shows "\<exists>pre'. itr_inv rc H L n d pre' itr'"
proof -
  from assms(3) have rdy: "scan_ready (ri_dbItr itr)" and cap: "ri_capture itr" by (simp_all add: itr_inv_def Let_def)
  obtain x s where x: "kvScanner_Next (ri_dbItr itr) = Ok (x, s)" "scan_ready s"
      "scan_contents (ri_dbItr itr) = (case x of None \<Rightarrow> [] | Some y \<Rightarrow> y # scan_contents s)"
    by (rule scan_iter.nxt_step [OF rdy])
  have upd: "updateRangeQueryInfo rc H x (itr\<lparr>ri_dbItr := s\<rparr>) = Ok itr'"
    using assms(4) x(1) by (auto simp: resultsItr_Next_def go_res)
  show ?thesis
  proof (cases x)
    case None
    have "scan_contents s = []"
      using x None by (auto simp: kvScanner_Next_def scan_contents_def go_res split: list.splits)
    with None upd cap x assms(3) have "itr_inv rc H L n d pre itr'"
      by (auto simp: updateRangeQueryInfo_def itr_inv_def Let_def)
    then show ?thesis by blast
  next
    case (Some y)
    obtain h0 helper where h: "NewRangeQueryResultsHelper IsQueryReadsHashingEnabled GetMaxDegreeQueryReadsHashing = Ok h0"
        "add_results rc H (map kv_read pre) h0 = Ok helper" "ri_resultsHelper itr = Some helper"
      using assms(3) by (auto simp: itr_inv_def Let_def)
    obtain m where "helper_ok helper m" by (rule helper_after [OF assms(1,2) h(2,1)])
    from AddResult_ok [OF assms(1,2) this, of "kv_read y"] obtain helper' where
      add: "AddResult rc H (kv_read y) helper = Ok (helper', None)" by blast
    have itr': "itr' = itr\<lparr>ri_dbItr := s, ri_resultsHelper := Some helper',
        ri_rangeQueryInfo := (ri_rangeQueryInfo itr)\<lparr>rq_EndKey := vkv_Key y\<rparr>\<rparr>"
      using upd cap Some h(3) add by (simp add: updateRangeQueryInfo_def kv_read_def)
    have "\<not> rq_ItrExhausted (ri_rangeQueryInfo itr)"
      using assms(3) x(3) Some by (auto simp: itr_inv_def Let_def)
    moreover have "add_results rc H (map kv_read (pre @ [y])) h0 = Ok helper'"
      using add_results_snoc [OF h(2) add] by simp
    ultimately have "itr_inv rc H L n d (pre @ [y]) itr'"
      using assms(3) x(2,3) Some h(1) by (simp add: itr' itr_inv_def Let_def)
    then show ?thesis by blast
  qed
qed

text \<open>The caller has advanced the iterator at least once.\<close>

definition advanced :: "resultsItr \<Rightarrow> bool" where
  "advanced itr \<longleftrightarrow> rq_ItrExhausted (ri_rangeQueryInfo itr) \<or> rq_EndKey (ri_rangeQueryInfo itr) \<noteq> []"

lemma rerun_is_prefix:
  assumes "db_ok L n d" and "itr_inv rc H L n d pre itr" and "advanced itr"
  shows "query_results L n d (ri_ns itr) (rq_StartKey (ri_rangeQueryInfo itr)) (rq_EndKey (ri_rangeQueryInfo itr))
    (\<not> rq_ItrExhausted (ri_rangeQueryInfo itr)) = pre"
proof (cases "rq_ItrExhausted (ri_rangeQueryInfo itr)")
  case True
  with assms(2) show ?thesis by (auto simp: itr_inv_def Let_def query_results_def)
next
  case False
  with assms(2,3) have "pre \<noteq> []" "vkv_Key (last pre) \<noteq> []" "rq_EndKey (ri_rangeQueryInfo itr) = vkv_Key (last pre)"
    by (auto simp: itr_inv_def Let_def advanced_def split: if_splits)
  moreover have "ns_ok (ri_ns itr)" "scan_list L n d (ri_ns itr) (rq_StartKey (ri_rangeQueryInfo itr)) (ri_endKey itr) =
      butlast pre @ last pre # scan_contents (ri_dbItr itr)"
    using assms(2) \<open>pre \<noteq> []\<close> by (auto simp: itr_inv_def Let_def)
  ultimately show ?thesis
    using query_up_to [OF assms(1)] False by simp
qed

lemma read_stamp_kv_read: "read_stamp (kv_read kv) = kv_stamp kv"
  by (simp add: read_stamp_def kv_read_def kv_stamp_def NewKVRead_def newProtoVersion_def NewVersion_def NewHeight_def)

definition small_db :: "'d leveldb \<Rightarrow> string \<Rightarrow> 'd \<Rightarrow> bool" where
  "small_db L n d \<longleftrightarrow> (\<forall>ns s e. length (scan_list L n d ns s e) + 3 < 2 ^ 32)"

text \<open>The query that an advanced iterator records validates on the state it was read from.\<close>

lemma done_itr_validates:
  assumes "db_ok L n d" and "small_db L n d" and "hash_total H" and "reads_total rc"
    and "itr_inv rc H L n d pre itr" and "advanced itr"
  shows "\<exists>q. done_itr rc H itr builder = Ok (AddToRangeQuerySet (ri_ns itr) q builder) \<and>
    validateRangeQuery rc H L n d (ri_ns itr) q NewUpdateBatch = Ok True"
proof -
  let ?d = GetMaxDegreeQueryReadsHashing and ?q = "ri_rangeQueryInfo itr"
  obtain h0 helper where h: "NewRangeQueryResultsHelper True ?d = Ok h0"
      "add_results rc H (map kv_read pre) h0 = Ok helper" "ri_resultsHelper itr = Some helper"
    using assms(5) by (auto simp: itr_inv_def Let_def config_degree)
  have done': "helper_Done rc H helper = summarize rc H ?d (map kv_read pre)"
    using h by (simp add: summarize_def)
  have info: "rq_ReadsInfo ?q = None" "ns_ok (ri_ns itr)" using assms(5) by (simp_all add: itr_inv_def Let_def)
  obtain itr' where itr': "newCombinedIterator L n d NewUpdateBatch (ri_ns itr) (rq_StartKey ?q) (rq_EndKey ?q)
      (\<not> rq_ItrExhausted ?q) = Ok itr'" "comb_ready itr'" "comb_contents itr' = pre"
    using combined_no_updates [OF assms(1) info(2)] rerun_is_prefix [OF assms(1,5,6)] by metis
  have len: "length pre + 3 < 2 ^ 32"
  proof -
    have "length pre \<le> length (scan_list L n d (ri_ns itr) (rq_StartKey ?q) (ri_endKey itr))"
      using assms(5) by (simp add: itr_inv_def Let_def)
    moreover have "length (scan_list L n d (ri_ns itr) (rq_StartKey ?q) (ri_endKey itr)) + 3 < 2 ^ 32"
      using assms(2) by (simp only: small_db_def)
    ultimately show ?thesis by simp
  qed
  have deg: "2 \<le> ?d" "unat ?d + 1 < 2 ^ 32" using config_degree(2) by (simp_all add: degree_ok_def)
  note sum = summarize_cases [OF assms(3,4) deg, of "map kv_read pre"]
  show ?thesis
  proof (cases "length pre \<le> unat ?d")
    case True
    define q where "q = (if map kv_read pre \<noteq> [] then SetRawReads (map kv_read pre) ?q else ?q)"
    have q: "GetReadsMerkleHashes q = None" "GetKvReads q = map kv_read pre" "rq_StartKey q = rq_StartKey ?q"
        "rq_EndKey q = rq_EndKey ?q" "rq_ItrExhausted q = rq_ItrExhausted ?q"
      using info by (simp_all add: q_def SetRawReads_def GetReadsMerkleHashes_def GetKvReads_def)
    have "done_itr rc H itr builder = Ok (AddToRangeQuerySet (ri_ns itr) q builder)"
      using True sum h(3) done' by (simp add: done_itr_def q_def Let_def)
    moreover have "list_all (\<lambda>r. kr_Version r \<noteq> None) (GetKvReads q)"
      by (simp add: q list_all_iff kv_read_def NewKVRead_def newProtoVersion_def)
    then have "results_validate q itr' = Ok True"
      using results_validate_exact [OF itr'(2)] by (simp add: itr'(3) q read_stamp_kv_read comp_def)
    ultimately show ?thesis
      using itr'(1) q by (auto simp: validateRangeQuery_def)
  next
    case False
    with sum obtain s where s: "summarize rc H ?d (map kv_read pre) = Ok ([], Some s)" "ms_MaxDegree s = ?d" by auto
    define q where "q = SetMerkelSummary s ?q"
    have q: "GetReadsMerkleHashes q = Some s" "rq_StartKey q = rq_StartKey ?q" "rq_EndKey q = rq_EndKey ?q"
        "rq_ItrExhausted q = rq_ItrExhausted ?q"
      by (simp_all add: q_def SetMerkelSummary_def GetReadsMerkleHashes_def)
    have "done_itr rc H itr builder = Ok (AddToRangeQuerySet (ri_ns itr) q builder)"
      using s(1) h(3) done' by (simp add: done_itr_def q_def Let_def)
    moreover have "hash_validate rc H s itr' = Ok True"
      using hash_validate_exact(2) [OF assms(3,4) _ itr'(2), of s] s config_degree(2) len by (simp add: itr'(3))
    ultimately show ?thesis
      using itr'(1) q by (auto simp: validateRangeQuery_def)
  qed
qed


section \<open>A whole simulation\<close>

text \<open>A recorded event agrees with the state.\<close>

fun ev_ok :: "rw_codec \<Rightarrow> hasher \<Rightarrow> 'd leveldb \<Rightarrow> string \<Rightarrow> 'd \<Rightarrow> rw_event \<Rightarrow> bool" where
  "ev_ok rc H L n d (EvRead ns k v) \<longleftrightarrow>
     (\<exists>vv. vdb_GetState L n d ns k = Ok vv \<and> v = map_option vv_Version vv)"
| "ev_ok rc H L n d (EvWrite ns k v) \<longleftrightarrow> True"
| "ev_ok rc H L n d (EvRange ns q) \<longleftrightarrow> validateRangeQuery rc H L n d ns q NewUpdateBatch = Ok True"

lemma set_keep_first: "set (keep_first f xs) \<subseteq> set xs"
  by (induction xs rule: rev_induct) (auto simp: keep_first_snoc, simp add: keep_first_def)

lemma map_filter_mem: "y \<in> set (List.map_filter f xs) \<longleftrightarrow> (\<exists>x \<in> set xs. f x = Some y)"
  by (induction xs) (auto simp: map_filter_simps split: option.splits)

lemma read_event:
  assumes "(k, v) \<in> set (reads_of ns es)"
  shows "EvRead ns k v \<in> set es"
proof -
  from assms obtain e where "e \<in> set es"
      "(case e of EvRead n k v \<Rightarrow> if n = ns then Some (k, v) else None | _ \<Rightarrow> None) = Some (k, v)"
    unfolding reads_of_def map_filter_mem by blast
  then show ?thesis by (cases e rule: rw_event.exhaust) (auto split: if_splits)
qed

lemma range_event:
  assumes "q \<in> set (ranges_of ns es)"
  shows "EvRange ns q \<in> set es"
proof -
  from assms obtain e where "e \<in> set es"
      "(case e of EvRange n q \<Rightarrow> if n = ns then Some q else None | _ \<Rightarrow> None) = Some q"
    unfolding ranges_of_def map_filter_mem by blast
  then show ?thesis by (cases e rule: rw_event.exhaust) (auto split: if_splits)
qed

lemma NewVersion_newProtoVersion: "NewVersion (newProtoVersion v) = v"
  by (cases v) (simp_all add: NewVersion_def newProtoVersion_def NewHeight_def)

lemma events_validate:
  assumes "list_all (ev_ok rc H L n d) es"
  shows "validateTx rc H L n d (GetTxReadWriteSet (build es)) NewUpdateBatch = Ok TxValidationCode_VALID"
proof -
  have reads: "read_current L n d ns NewUpdateBatch r" if r: "r \<in> set (kv_Reads (nrw_KvRwSet (spec_ns es ns)))" for ns r
  proof -
    from r obtain k where k: "k \<in> fst ` set (reads_of ns es)"
        "r = NewKVRead k (the (map_of (rev (reads_of ns es)) k))"
      by (auto simp: spec_ns_def)
    then obtain v where v: "map_of (rev (reads_of ns es)) k = Some v"
      by (metis map_of_eq_None_iff not_None_eq set_rev)
    then have "EvRead ns k v \<in> set es" using map_of_SomeD [OF v] read_event by fastforce
    with assms have "ev_ok rc H L n d (EvRead ns k v)" by (simp only: list_all_iff)
    with k(2) v show ?thesis
      by (auto simp: read_current_def batch.get_empty NewKVRead_def NewVersion_newProtoVersion)
  qed
  have ranges: "validateRangeQuery rc H L n d ns q NewUpdateBatch = Ok True"
    if "q \<in> set (kv_RangeQueriesInfo (nrw_KvRwSet (spec_ns es ns)))" for ns q
  proof -
    from that have "q \<in> set (ranges_of ns es)" using set_keep_first by (fastforce simp: spec_ns_def)
    then have "ev_ok rc H L n d (EvRange ns q)" using assms range_event by (simp only: list_all_iff)
    then show ?thesis by simp
  qed
  have "nrw_NameSpace (spec_ns es ns) = ns" for ns by (simp add: spec_ns_def)
  with reads ranges show ?thesis
    by (simp add: validateTx_def validate_namespaces_VALID GetTxReadWriteSet_build)
qed

text \<open>The states of a simulation over the database \<open>d\<close>, before \<open>Done\<close>.\<close>

inductive simulates :: "rw_codec \<Rightarrow> hasher \<Rightarrow> 'd leveldb \<Rightarrow> string \<Rightarrow> 'd \<Rightarrow> queryHelper \<Rightarrow> bool"
  for rc H L n d where
  start: "simulates rc H L n d newLockBasedTxSimulator"
| get: "simulates rc H L n d h \<Longrightarrow> qh_getState L n d ns key h = Ok (v, h') \<Longrightarrow> simulates rc H L n d h'"
| get_many: "simulates rc H L n d h \<Longrightarrow> qh_getStateMultipleKeys L n d ns keys h = Ok (vs, h') \<Longrightarrow> simulates rc H L n d h'"
| scan: "simulates rc H L n d h \<Longrightarrow> ns_ok ns \<Longrightarrow>
    qh_getStateRangeScanIterator L n d ns startKey endKey h = Ok (i, h') \<Longrightarrow> simulates rc H L n d h'"
| step_itr: "simulates rc H L n d h \<Longrightarrow> itr_next rc H i h = Ok (kv, h') \<Longrightarrow> simulates rc H L n d h'"
| set_state: "simulates rc H L n d h \<Longrightarrow> sim_SetState ns key value h = Ok h' \<Longrightarrow> simulates rc H L n d h'"

definition sim_inv :: "rw_codec \<Rightarrow> hasher \<Rightarrow> 'd leveldb \<Rightarrow> string \<Rightarrow> 'd \<Rightarrow> queryHelper \<Rightarrow> bool" where
  "sim_inv rc H L n d h \<longleftrightarrow> \<not> qh_doneInvoked h \<and> qh_err h = None \<and>
     (\<exists>es. qh_rwsetBuilder h = Some (build es) \<and> list_all (ev_ok rc H L n d) es) \<and>
     (\<forall>itr \<in> set (qh_itrs h). \<exists>pre. itr_inv rc H L n d pre itr)"

lemma build_snoc: "ev_step e (build es) = build (es @ [e])"
  by (simp add: build_def)

lemma record_read_inv:
  assumes "sim_inv rc H L n d h" and "vdb_GetState L n d ns k = Ok vv"
  shows "sim_inv rc H L n d (record_read ns k (map_option vv_Version vv) h)"
proof -
  from assms(1) obtain es where es: "qh_rwsetBuilder h = Some (build es)" "list_all (ev_ok rc H L n d) es"
    by (auto simp: sim_inv_def)
  have "AddToReadSet ns k v (build es) = build (es @ [EvRead ns k v])" for v
    using build_snoc [of "EvRead ns k v" es] by simp
  with es assms show ?thesis
    unfolding sim_inv_def record_read_def
    by (auto intro!: exI [of _ "es @ [EvRead ns k (map_option vv_Version vv)]"])
qed

lemma decompose: "decomposeVersionedValue vv = (case vv of None \<Rightarrow> None | Some v \<Rightarrow> vv_Value v, map_option vv_Version vv)"
  by (simp add: decomposeVersionedValue_def split: option.split)

lemma GetStateMultipleKeys_Ok:
  "vdb_GetStateMultipleKeys L n d ns keys = Ok vs \<Longrightarrow>
     length vs = length keys \<and> (\<forall>(k, v) \<in> set (zip keys vs). vdb_GetState L n d ns k = Ok v)"
  by (induction keys arbitrary: vs) (auto simp: go_res)

lemma record_reads_inv:
  "sim_inv rc H L n d h \<Longrightarrow> \<forall>(k, v) \<in> set kvs. vdb_GetState L n d ns k = Ok v \<Longrightarrow>
     sim_inv rc H L n d (snd (record_reads ns kvs h))"
proof (induction kvs arbitrary: h)
  case (Cons p kvs)
  obtain k v where p: "p = (k, v)" by (cases p)
  have "sim_inv rc H L n d (record_read ns k (map_option vv_Version v) h)"
    using Cons.prems p by (intro record_read_inv) auto
  from Cons.IH [OF this] Cons.prems(2) show ?case by (simp add: p decompose split_beta)
qed simp

lemma simulates_inv:
  assumes "db_ok L n d" and "hash_total H" and "reads_total rc" and "simulates rc H L n d h"
  shows "sim_inv rc H L n d h"
  using assms(4)
proof induction
  case start
  have "build [] = NewRWSetBuilder" by (simp add: build_def)
  then show ?case
    by (auto simp: sim_inv_def newLockBasedTxSimulator_def intro!: exI [of _ "[]"])
next
  case (get h ns key v h')
  then show ?case
    by (auto simp: qh_getState_def go_res decompose Let_def intro!: record_read_inv)
next
  case (get_many h ns keys vs h')
  show ?case
  proof (cases "vdb_GetStateMultipleKeys L n d ns keys")
    case (Ok vvs)
    with get_many(2) have "h' = snd (record_reads ns (zip keys vvs) h)"
      by (auto simp: qh_getStateMultipleKeys_def go_res)
    with record_reads_inv [OF get_many(3)] GetStateMultipleKeys_Ok [OF Ok] show ?thesis by auto
  next
    case (Err e)
    with get_many(2,3) show ?thesis by (auto simp: qh_getStateMultipleKeys_def go_res)
  next
    case Panic
    with get_many(2) show ?thesis by (auto simp: qh_getStateMultipleKeys_def go_res)
  qed
next
  case (scan h ns startKey endKey i h')
  then obtain es itr where itr: "qh_rwsetBuilder h = Some (build es)"
      "newResultsItr L n d ns startKey endKey True IsQueryReadsHashingEnabled GetMaxDegreeQueryReadsHashing = Ok itr"
      "h' = h\<lparr>qh_itrs := qh_itrs h @ [itr]\<rparr>"
    by (auto simp: qh_getStateRangeScanIterator_def sim_inv_def go_res)
  have "itr_inv rc H L n d [] itr" by (rule new_itr_inv [OF assms(1) scan(2) itr(2)])
  with scan(4) itr(3) show ?case by (auto simp: sim_inv_def)
next
  case (step_itr h i kv h')
  then obtain itr itr' where itr: "i < length (qh_itrs h)" "itr = qh_itrs h ! i" "resultsItr_Next rc H itr = Ok (kv, itr')"
      "h' = h\<lparr>qh_itrs := (qh_itrs h)[i := itr']\<rparr>"
    by (auto simp: itr_next_def go_res)
  have "itr \<in> set (qh_itrs h)" using itr(1,2) by simp
  with step_itr(3) obtain pre where "itr_inv rc H L n d pre itr" by (auto simp: sim_inv_def)
  from next_itr_inv [OF assms(2,3) this itr(3)] step_itr(3) itr show ?case
    by (auto simp: sim_inv_def dest!: set_update_subset_insert [THEN subsetD])
next
  case (set_state h ns key v h')
  from set_state(3) obtain es where es: "qh_rwsetBuilder h = Some (build es)" "list_all (ev_ok rc H L n d) es"
    by (auto simp: sim_inv_def)
  have "AddToWriteSet ns key v (build es) = build (es @ [EvWrite ns key v])"
    using build_snoc [of "EvWrite ns key v" es] by simp
  with es set_state(2,3) show ?case
    by (auto simp: sim_SetState_def go_res sim_inv_def intro!: exI [of _ "es @ [EvWrite ns key v]"])
qed

lemma done_loop_validates:
  assumes "db_ok L n d" and "small_db L n d" and "hash_total H" and "reads_total rc"
  shows "\<forall>itr \<in> set itrs. (\<exists>pre. itr_inv rc H L n d pre itr) \<and> advanced itr \<Longrightarrow>
    list_all (ev_ok rc H L n d) es \<Longrightarrow>
    \<exists>es'. done_loop_itrs rc H itrs (build es) = Ok (build es', None) \<and> list_all (ev_ok rc H L n d) es'"
proof (induction itrs arbitrary: es)
  case (Cons itr itrs)
  from Cons.prems(1) obtain pre where "itr_inv rc H L n d pre itr" "advanced itr" by auto
  from done_itr_validates [OF assms this, of "build es"] obtain q where q:
      "done_itr rc H itr (build es) = Ok (build (es @ [EvRange (ri_ns itr) q]))"
      "ev_ok rc H L n d (EvRange (ri_ns itr) q)"
    using build_snoc [of "EvRange (ri_ns itr) _" es] by auto
  from Cons.IH [of "es @ [EvRange (ri_ns itr) q]"] Cons.prems q(2) show ?case by (simp add: q(1))
qed auto

section \<open>Properties\<close>


text \<open>A simulation that reads a key, opens a scan and takes one result of it.\<close>

definition sim_read :: queryHelper where
  "sim_read = snd (the_ok (qh_getState mem_leveldb ''ch'' sample_db ''smallbank'' ''account:x'' newLockBasedTxSimulator))"

definition sim_open :: queryHelper where
  "sim_open = snd (the_ok (qh_getStateRangeScanIterator mem_leveldb ''ch'' sample_db ''smallbank'' ''a'' ''b'' sim_read))"

definition sim_step :: queryHelper where
  "sim_step = snd (the_ok (itr_next sample_rw_codec Inr 0 sim_open))"

fun is_ok :: "('e, 'a) res \<Rightarrow> bool" where
  "is_ok (Ok x) = True"
| "is_ok _ = False"

lemma is_ok_pair: "is_ok r \<Longrightarrow> r = Ok (fst (the_ok r), snd (the_ok r))"
  by (cases r) auto

lemma sample_evaluates:
  "is_ok (qh_getState mem_leveldb ''ch'' sample_db ''smallbank'' ''account:x'' newLockBasedTxSimulator) \<and>
   is_ok (qh_getStateRangeScanIterator mem_leveldb ''ch'' sample_db ''smallbank'' ''a'' ''b'' sim_read) \<and>
   is_ok (itr_next sample_rw_codec Inr 0 sim_open) \<and> list_all advanced (qh_itrs sim_step) \<and> length sample_db < 10"
  by code_simp

lemma sample_simulates: "simulates sample_rw_codec Inr mem_leveldb ''ch'' sample_db sim_step"
proof -
  have ok: "is_ok (qh_getState mem_leveldb ''ch'' sample_db ''smallbank'' ''account:x'' newLockBasedTxSimulator)"
      "is_ok (qh_getStateRangeScanIterator mem_leveldb ''ch'' sample_db ''smallbank'' ''a'' ''b'' sim_read)"
      "is_ok (itr_next sample_rw_codec Inr 0 sim_open)"
    using sample_evaluates by blast+
  have "simulates sample_rw_codec Inr mem_leveldb ''ch'' sample_db sim_read"
    unfolding sim_read_def by (rule simulates.get [OF simulates.start is_ok_pair [OF ok(1)]])
  from simulates.scan [OF this sample_ok(3) is_ok_pair [OF ok(2)]]
  have "simulates sample_rw_codec Inr mem_leveldb ''ch'' sample_db sim_open" unfolding sim_open_def .
  from simulates.step_itr [OF this is_ok_pair [OF ok(3)]] show ?thesis unfolding sim_step_def .
qed

lemma mem_scan_length: "length (scan_list mem_leveldb n d ns s e) \<le> length d"
proof -
  have "length (filter P (sort (remdups (map fst d)))) \<le> length d" for P
    using length_filter_le [of P "sort (remdups (map fst d))"] length_remdups_leq [of "map fst d"] by simp
  then have "length (ldb_NewIterator mem_leveldb d a b) \<le> length d" for a b
    by (simp add: mem_leveldb_def)
  then show ?thesis
    by (simp add: scan_contents_def vdb_GetStateRangeScanIterator_def DBHandle_GetIterator_def Let_def)
qed

lemma sample_small: "small_db mem_leveldb ''ch'' sample_db"
proof -
  have "length (scan_list mem_leveldb ''ch'' sample_db ns s e) + 3 < 2 ^ 32" for ns s e
    using mem_scan_length [of "''ch''" sample_db ns s e] sample_evaluates by simp
  then show ?thesis by (simp add: small_db_def)
qed

lemma sample_db_ok: "db_ok mem_leveldb ''ch'' sample_db"
  using wf_level_apply [OF mem_leveldb_laws sample_batch_wf empty_level sample_db]
  by (simp add: db_ok_def mem_leveldb_laws zero_free_def)


text \<open>an iterator that is opened and never advanced invalidates its transaction: it is recorded with an
empty end key and as not exhausted, which the validator reads as a query without an upper bound. On a
database with one key past the start key, the transaction that only opened the scan is rejected with
\<open>PHANTOM_READ_CONFLICT\<close> on the unchanged state.\<close>

theorem unused_iterator_conflicts:
  "(case qh_done sample_rw_codec Inr sim_open of
      Ok h \<Rightarrow> (case qh_rwsetBuilder h of
        Some builder \<Rightarrow> validateTx sample_rw_codec Inr mem_leveldb ''ch'' sample_db (GetTxReadWriteSet builder) NewUpdateBatch =
          Ok TxValidationCode_PHANTOM_READ_CONFLICT
      | None \<Rightarrow> False)
    | _ \<Rightarrow> False)"
  by code_simp

end
