(* ===== verification/History_DB.thy ===== *)
theory History_DB
  imports Mvcc
begin

text \<open>
  The history database: \<open>history/historydb/histmgr_helper.go\<close>, \<open>historyleveldb.go\<close> and
  \<open>historyleveldb_query_executer.go\<close>. For every write of a valid endorser transaction it keeps a
  record without a value under the key namespace, key, block number and transaction number; a query
  scans the records of a key and fetches each transaction from the block store.

  The block store is the argument \<open>retrieveTx\<close> of a scan. The timestamp that a query result carries
  from the channel header is not modelled. \<open>IsHistoryDBEnabled\<close>, a configuration value, is the
  argument \<open>enabled\<close>.

  The lemmas show which records a commit adds, and that the scan of a key finds exactly its records
  in the order of their heights, provided that no name contains a zero byte; and what happens when
  one does.
\<close>

section \<open>Keys\<close>

definition ConstructCompositeHistoryKey :: "string \<Rightarrow> string \<Rightarrow> uint64 \<Rightarrow> uint64 \<Rightarrow> bytes" where
  "ConstructCompositeHistoryKey ns key blocknum trannum =
     ns @ [CHR 0x00] @ key @ [CHR 0x00] @
     EncodeOrderPreservingVarUint64 blocknum @ EncodeOrderPreservingVarUint64 trannum"

definition ConstructPartialCompositeHistoryKey :: "string \<Rightarrow> string \<Rightarrow> bool \<Rightarrow> bytes" where
  "ConstructPartialCompositeHistoryKey ns key endkey =
     ns @ [CHR 0x00] @ key @ [CHR 0x00] @ (if endkey then [CHR 0xFF] else [])"

text \<open>\<open>bytes.SplitN(s, sep, 2)\<close>: what follows the first occurrence of the separator.\<close>

fun after_first :: "bytes \<Rightarrow> bytes \<Rightarrow> bytes option" where
  "after_first sep [] = (if sep = [] then Some [] else None)"
| "after_first sep (c # s) =
     (if take (length sep) (c # s) = sep then Some (drop (length sep) (c # s)) else after_first sep s)"

definition SplitCompositeHistoryKey :: "bytes \<Rightarrow> bytes \<Rightarrow> (string, bytes) res" where
  "SplitCompositeHistoryKey bytesToSplit separator = deref (after_first separator bytesToSplit)"

section \<open>Committing a block\<close>

definition hist_add_writes ::
    "string \<Rightarrow> uint64 \<Rightarrow> uint64 \<Rightarrow> KVWrite list \<Rightarrow> (bytes, bytes option) gomap \<Rightarrow> (bytes, bytes option) gomap" where
  "hist_add_writes ns blockNo tranNo writes dbBatch =
     fold (\<lambda>kvWrite. AList.update (ConstructCompositeHistoryKey ns (kw_Key kvWrite) blockNo tranNo) (Some [])) writes dbBatch"

fun hist_loop ::
    "codec \<Rightarrow> rw_codec \<Rightarrow> uint64 \<Rightarrow> TxValidationFlags \<Rightarrow> nat \<Rightarrow> bytes list \<Rightarrow> (bytes, bytes option) gomap \<Rightarrow>
      (string, (bytes, bytes option) gomap) res" where
  "hist_loop pc rc blockNo txsFilter tranNo [] dbBatch = Ok dbBatch"
| "hist_loop pc rc blockNo txsFilter tranNo (envBytes # rest) dbBatch =
     rbind (IsInvalid txsFilter tranNo) (\<lambda>inv.
     if inv then hist_loop pc rc blockNo txsFilter (tranNo + 1) rest dbBatch
     else
       rbind (GetEnvelopeFromBlock pc envBytes) (\<lambda>env.
       rbind (GetPayload pc env) (\<lambda>payload.
       rbind (deref (pl_Header payload)) (\<lambda>hdr.
       rbind (UnmarshalChannelHeader pc (hdr_ChannelHeader hdr)) (\<lambda>chdr.
       if ch_Type chdr = HeaderType_ENDORSER_TRANSACTION
       then
         rbind (GetActionFromEnvelope pc envBytes) (\<lambda>respPayload.
         rbind (FromProtoBytes rc (ca_Results respPayload) \<lparr>trw_NsRwSets = []\<rparr>) (\<lambda>txRWSet.
         hist_loop pc rc blockNo txsFilter (tranNo + 1) rest
           (fold (\<lambda>nsRWSet. hist_add_writes (nrw_NameSpace nsRWSet) blockNo (of_nat tranNo)
              (kv_Writes (nrw_KvRwSet nsRWSet))) (trw_NsRwSets txRWSet) dbBatch)))
       else hist_loop pc rc blockNo txsFilter (tranNo + 1) rest dbBatch)))))"

text \<open>The flags that a block without any gets stay in its metadata, so the block is returned too.\<close>

definition hist_Commit ::
    "codec \<Rightarrow> rw_codec \<Rightarrow> 'd leveldb \<Rightarrow> string \<Rightarrow> 'd \<Rightarrow> Block \<Rightarrow> (string, 'd \<times> Block) res" where
  "hist_Commit pc rc L dbName d block =
     rbind (deref (blk_Metadata block)) (\<lambda>md.
     rbind (index md BlockMetadataIndex_TRANSACTIONS_FILTER) (\<lambda>raw.
     let blockNo = bh_Number (blk_Header block);
         txsFilter = flags_of_bytes raw;
         txsFilter = (if length txsFilter = 0 then NewTxValidationFlags (length (blk_Data block)) else txsFilter)
     in rbind (set_index md BlockMetadataIndex_TRANSACTIONS_FILTER (flags_to_bytes txsFilter)) (\<lambda>md1.
        rbind (hist_loop pc rc blockNo txsFilter 0 (blk_Data block) []) (\<lambda>dbBatch.
        let height = NewHeight blockNo (of_nat (length (blk_Data block)))
        in rbind (DBHandle_WriteBatch L dbName d (AList.update savePointKey (Some (ToBytes height)) dbBatch))
             (\<lambda>d1. Ok (d1, block\<lparr>blk_Metadata := Some md1\<rparr>))))))"

definition hist_GetLastSavepoint :: "'d leveldb \<Rightarrow> string \<Rightarrow> 'd \<Rightarrow> (string, Height option) res" where
  "hist_GetLastSavepoint L dbName d =
     rbind (DBHandle_Get L dbName d savePointKey) (\<lambda>versionBytes.
     case versionBytes of
       None \<Rightarrow> Ok None
     | Some b \<Rightarrow> rbind (NewHeightFromBytes b) (\<lambda>(height, _). Ok (Some height)))"

definition hist_ShouldRecover ::
    "bool \<Rightarrow> 'd leveldb \<Rightarrow> string \<Rightarrow> 'd \<Rightarrow> uint64 \<Rightarrow> (string, bool \<times> uint64) res" where
  "hist_ShouldRecover enabled L dbName d lastAvailableBlock =
     (if \<not> enabled then Ok (False, 0)
      else
        rbind (hist_GetLastSavepoint L dbName d) (\<lambda>savepoint.
        case savepoint of
          None \<Rightarrow> Ok (True, 0)
        | Some h \<Rightarrow> Ok (BlockNum h \<noteq> lastAvailableBlock, BlockNum h + 1)))"

definition hist_CommitLostBlock ::
    "codec \<Rightarrow> rw_codec \<Rightarrow> 'd leveldb \<Rightarrow> string \<Rightarrow> 'd \<Rightarrow> Block \<Rightarrow> (string, 'd \<times> Block) res" where
  "hist_CommitLostBlock pc rc L dbName d block = hist_Commit pc rc L dbName d block"

section \<open>Querying the history of a key\<close>

record historyScanner =
  hs_compositePartialKey :: bytes
  hs_namespace :: string
  hs_key :: string
  hs_dbItr :: "(bytes \<times> bytes) list"

definition GetHistoryForKey ::
    "bool \<Rightarrow> 'd leveldb \<Rightarrow> string \<Rightarrow> 'd \<Rightarrow> string \<Rightarrow> string \<Rightarrow> (string, historyScanner) res" where
  "GetHistoryForKey enabled L dbName d namespace key =
     (if \<not> enabled then Err ''History tracking not enabled - historyDatabase is false''
      else
        (let compositeStartKey = ConstructPartialCompositeHistoryKey namespace key False;
             compositeEndKey = ConstructPartialCompositeHistoryKey namespace key True
         in Ok \<lparr>hs_compositePartialKey = compositeStartKey, hs_namespace = namespace, hs_key = key,
                hs_dbItr = DBHandle_GetIterator L dbName d (Some compositeStartKey) (Some compositeEndKey)\<rparr>))"

record KeyModification =
  km_TxId :: string
  km_Value :: "bytes option"
  km_IsDelete :: bool

fun find_write :: "KVWrite list \<Rightarrow> string \<Rightarrow> KVWrite option" where
  "find_write [] key = None"
| "find_write (w # ws) key = (if kw_Key w = key then Some w else find_write ws key)"

fun find_ns_write :: "NsRwSet list \<Rightarrow> string \<Rightarrow> string \<Rightarrow> (string, KVWrite) res" where
  "find_ns_write [] namespace key = Err ''Namespace not found in transaction's ReadWriteSets''"
| "find_ns_write (s # rest) namespace key =
     (if nrw_NameSpace s = namespace
      then or_err ''Key not found in namespace's writeset'' (find_write (kv_Writes (nrw_KvRwSet s)) key)
      else find_ns_write rest namespace key)"

definition getKeyModificationFromTran ::
    "codec \<Rightarrow> rw_codec \<Rightarrow> Envelope \<Rightarrow> string \<Rightarrow> string \<Rightarrow> (string, KeyModification) res" where
  "getKeyModificationFromTran pc rc tranEnvelope namespace key =
     rbind (GetPayload pc tranEnvelope) (\<lambda>payload.
     rbind (GetTransaction pc (pl_Data payload)) (\<lambda>tx.
     rbind (index (tx_Actions tx) 0) (\<lambda>act.
     rbind (GetPayloads pc act) (\<lambda>(_, respPayload).
     rbind (deref (pl_Header payload)) (\<lambda>hdr.
     rbind (UnmarshalChannelHeader pc (hdr_ChannelHeader hdr)) (\<lambda>chdr.
     rbind (FromProtoBytes rc (ca_Results respPayload) \<lparr>trw_NsRwSets = []\<rparr>) (\<lambda>txRWSet.
     rbind (find_ns_write (trw_NsRwSets txRWSet) namespace key) (\<lambda>kvWrite.
     Ok \<lparr>km_TxId = ch_TxId chdr, km_Value = kw_Value kvWrite, km_IsDelete = kw_IsDelete kvWrite\<rparr>))))))))"

text \<open>The height in a record, as the scanner reads it.\<close>

definition record_height :: "bytes \<Rightarrow> bytes \<Rightarrow> (string, Height) res" where
  "record_height compositePartialKey levelKey =
     rbind (retrieveAppKey levelKey) (\<lambda>historyKey.
     rbind (SplitCompositeHistoryKey historyKey compositePartialKey) (\<lambda>blockNumTranNumBytes.
     rbind (DecodeOrderPreservingVarUint64 blockNumTranNumBytes) (\<lambda>(blockNum, bytesConsumed).
     rbind (DecodeOrderPreservingVarUint64 (drop bytesConsumed blockNumTranNumBytes)) (\<lambda>(tranNum, _).
     Ok (Height blockNum tranNum)))))"

definition historyScanner_Next ::
    "codec \<Rightarrow> rw_codec \<Rightarrow> (uint64 \<Rightarrow> uint64 \<Rightarrow> (string, Envelope) res) \<Rightarrow> historyScanner \<Rightarrow>
      (string, KeyModification option \<times> historyScanner) res" where
  "historyScanner_Next pc rc retrieveTx scanner =
     (case hs_dbItr scanner of
        [] \<Rightarrow> Ok (None, scanner)
      | (levelKey, _) # rest \<Rightarrow>
          rbind (record_height (hs_compositePartialKey scanner) levelKey) (\<lambda>h.
          rbind (retrieveTx (BlockNum h) (TxNum h)) (\<lambda>tranEnvelope.
          rbind (getKeyModificationFromTran pc rc tranEnvelope (hs_namespace scanner) (hs_key scanner)) (\<lambda>queryResult.
          Ok (Some queryResult, scanner\<lparr>hs_dbItr := rest\<rparr>)))))"

section \<open>Records\<close>

lemma composite_history: "ConstructCompositeHistoryKey ns key (BlockNum h) (TxNum h) =
    ConstructPartialCompositeHistoryKey ns key False @ ToBytes h"
  by (simp add: ConstructCompositeHistoryKey_def ConstructPartialCompositeHistoryKey_def ToBytes_def)

definition history_key :: "string \<Rightarrow> string \<Rightarrow> Height \<Rightarrow> bytes" where
  "history_key ns key h = ConstructCompositeHistoryKey ns key (BlockNum h) (TxNum h)"

lemma zero_split: "zero_free a \<Longrightarrow> zero_free b \<Longrightarrow> a @ CHR 0x00 # s = b @ CHR 0x00 # t \<longleftrightarrow> a = b \<and> s = t"
  using composite_inj [of a b s t] by (simp add: constructCompositeKey_def)

lemma ToBytes_order: "ToBytes h < ToBytes h' \<longleftrightarrow> h < h'"
  by (simp add: ToBytes_def Encode_append_order Encode_order less_Height_def)

lemma ToBytes_below: "ToBytes h < [CHR 0xFF]"
proof -
  have "length (digits64 (BlockNum h)) \<le> 8" by (rule length_digits64)
  then show ?thesis by (simp add: ToBytes_def EncodeOrderPreserving_eq less_char_def)
qed

lemma history_key_inj:
  assumes "zero_free ns" "zero_free ns'" "zero_free key" "zero_free key'"
  shows "history_key ns key h = history_key ns' key' h' \<longleftrightarrow> ns = ns' \<and> key = key' \<and> h = h'"
  using assms by (simp add: history_key_def composite_history ConstructPartialCompositeHistoryKey_def zero_split ToBytes_inj)

lemma history_key_not_savepoint: "zero_free ns \<Longrightarrow> ns \<noteq> [] \<Longrightarrow> history_key ns key h \<noteq> savePointKey"
  by (cases ns) (auto simp: history_key_def ConstructCompositeHistoryKey_def savePointKey_def zero_free_def)

lemma after_first_prefix: "after_first sep (sep @ s) = Some s"
proof (cases "sep @ s")
  case (Cons c t)
  then have "take (length sep) (c # t) = sep" "drop (length sep) (c # t) = s"
    by (simp_all flip: Cons)
  with Cons show ?thesis by simp
qed simp

lemma record_height_history_key:
  "zero_free n \<Longrightarrow> record_height (ConstructPartialCompositeHistoryKey ns key False)
     (constructLevelKey n (history_key ns key h)) = Ok h"
  by (simp add: record_height_def retrieve_level SplitCompositeHistoryKey_def history_key_def composite_history
      after_first_prefix) (simp add: ToBytes_def DecodeOrderPreserving_Encode DecodeOrderPreserving_Encode [of _ "[]", simplified])

definition has_record :: "'d leveldb \<Rightarrow> string \<Rightarrow> 'd \<Rightarrow> string \<Rightarrow> string \<Rightarrow> Height \<Rightarrow> bool" where
  "has_record L n d ns key h \<longleftrightarrow> (\<exists>v. DBHandle_Get L n d (history_key ns key h) = Ok (Some v))"

text \<open>A history database holds records under names without zero bytes, and its save point.\<close>

definition hist_name :: "string \<Rightarrow> string \<Rightarrow> bool" where
  "hist_name ns key \<longleftrightarrow> ns_ok ns \<and> zero_free key"

definition wf_history :: "'d leveldb \<Rightarrow> string \<Rightarrow> 'd \<Rightarrow> bool" where
  "wf_history L n d \<longleftrightarrow>
     (\<forall>q v. DBHandle_Get L n d q = Ok (Some v) \<longrightarrow>
        q = savePointKey \<or> (\<exists>ns key h. hist_name ns key \<and> q = history_key ns key h))"

section \<open>The scan of a key\<close>

lemma in_history_range:
  assumes "hist_name ns key" and "wf_history L n d"
    and "DBHandle_Get L n d q = Ok (Some v)"
    and "ConstructPartialCompositeHistoryKey ns key False \<le> q" and "q < ConstructPartialCompositeHistoryKey ns key True"
  shows "\<exists>h. q = history_key ns key h"
proof -
  let ?p = "ConstructPartialCompositeHistoryKey ns key False"
  have "ConstructPartialCompositeHistoryKey ns key True = ?p @ [CHR 0xFF]"
    by (simp add: ConstructPartialCompositeHistoryKey_def)
  with assms(4,5) obtain y where y: "q = ?p @ y" using between_prefix [of ?p "[]" q "[CHR 0xFF]"] by auto
  have "q \<noteq> savePointKey"
    using assms(1) unfolding y
    by (cases ns) (simp_all add: ConstructPartialCompositeHistoryKey_def savePointKey_def hist_name_def ns_ok_def)
  with assms(2,3) obtain ns' key' h where q: "hist_name ns' key'" "q = history_key ns' key' h"
    unfolding wf_history_def by blast
  have "ns' = ns \<and> key' = key"
    using y q assms(1)
    by (simp add: history_key_def composite_history ConstructPartialCompositeHistoryKey_def zero_split hist_name_def ns_ok_def)
  with q show ?thesis by blast
qed

lemma record_in_range:
  "ConstructPartialCompositeHistoryKey ns key False \<le> history_key ns key h \<and>
   history_key ns key h < ConstructPartialCompositeHistoryKey ns key True"
proof -
  let ?p = "ConstructPartialCompositeHistoryKey ns key False"
  have p: "ConstructPartialCompositeHistoryKey ns key True = ?p @ [CHR 0xFF]" "history_key ns key h = ?p @ ToBytes h"
    by (simp_all add: ConstructPartialCompositeHistoryKey_def history_key_def composite_history)
  have "?p @ [] \<le> ?p @ ToBytes h" by (simp only: append_le_append) simp
  then show ?thesis unfolding p using ToBytes_below by simp
qed

lemma scan_entry:
  assumes "ldb_laws L" and "wf_history L n d" and "hist_name ns key"
    and "(k, v) \<in> set (DBHandle_GetIterator L n d (Some (ConstructPartialCompositeHistoryKey ns key False))
      (Some (ConstructPartialCompositeHistoryKey ns key True)))"
  shows "\<exists>h. k = constructLevelKey n (history_key ns key h) \<and> has_record L n d ns key h"
proof -
  let ?s = "ConstructPartialCompositeHistoryKey ns key False" and ?e = "ConstructPartialCompositeHistoryKey ns key True"
  from assms(1,4) have k: "constructLevelKey n ?s \<le> k" "k < constructLevelKey n ?e" "ldb_Get L d k = Ok v"
    by (auto simp: ldb_laws_def DBHandle_GetIterator_def Let_def)
  then obtain q where q: "k = constructLevelKey n q"
    using between_prefix [of "n @ [CHR 0x00]" ?s k ?e] by (auto simp: constructLevelKey_def)
  with k have range: "?s \<le> q" "q < ?e" "DBHandle_Get L n d q = Ok (Some v)"
    by (simp_all add: constructLevelKey_def DBHandle_Get_def DB_Get_def)
  with in_history_range [OF assms(3,2) range(3,1,2)] q show ?thesis by (auto simp: has_record_def)
qed

lemma record_scanned:
  assumes "ldb_laws L" and "has_record L n d ns key h"
  shows "constructLevelKey n (history_key ns key h) \<in>
    fst ` set (DBHandle_GetIterator L n d (Some (ConstructPartialCompositeHistoryKey ns key False))
      (Some (ConstructPartialCompositeHistoryKey ns key True)))"
proof -
  let ?k = "constructLevelKey n (history_key ns key h)"
  from assms obtain v where "ldb_Get L d ?k = Ok v"
    by (auto simp: has_record_def DBHandle_Get_def DB_Get_def split: res.splits ldb_error.splits)
  moreover have "constructLevelKey n (ConstructPartialCompositeHistoryKey ns key False) \<le> ?k"
      "?k < constructLevelKey n (ConstructPartialCompositeHistoryKey ns key True)"
    using record_in_range [of ns key h] by (simp_all add: constructLevelKey_def)
  ultimately have "(?k, v) \<in> set (DBHandle_GetIterator L n d (Some (ConstructPartialCompositeHistoryKey ns key False))
      (Some (ConstructPartialCompositeHistoryKey ns key True)))"
    using assms(1) by (simp add: ldb_laws_def DBHandle_GetIterator_def Let_def)
  then show ?thesis by (rule image_eqI [rotated]) simp
qed

text \<open>The scan reads the heights of a key's records, each once, in ascending order.\<close>

lemma scan_heights:
  assumes "ldb_laws L" and "zero_free n" and "wf_history L n d" and "hist_name ns key"
    and "GetHistoryForKey True L n d ns key = Ok sc"
  obtains hs where "map (record_height (hs_compositePartialKey sc) \<circ> fst) (hs_dbItr sc) = map Ok hs"
    and "sorted_wrt (<) hs" and "set hs = {h. has_record L n d ns key h}"
proof -
  let ?p = "ConstructPartialCompositeHistoryKey ns key False" and ?k = "\<lambda>h. constructLevelKey n (history_key ns key h)"
  from assms(5) have sc: "hs_compositePartialKey sc = ?p" "hs_dbItr sc = DBHandle_GetIterator L n d (Some ?p)
      (Some (ConstructPartialCompositeHistoryKey ns key True))"
    by (auto simp: GetHistoryForKey_def Let_def)
  from assms(1) have sorted: "sorted_wrt (<) (map fst (hs_dbItr sc))"
    unfolding sc(2) DBHandle_GetIterator_def Let_def strict_sorted_iff by (auto simp: ldb_laws_def)
  have "\<exists>h. fst x = ?k h \<and> has_record L n d ns key h" if "x \<in> set (hs_dbItr sc)" for x
    using that scan_entry [OF assms(1,3,4), of "fst x" "snd x"] sc(2) by simp
  then obtain f where f: "\<And>x. x \<in> set (hs_dbItr sc) \<Longrightarrow> fst x = ?k (f x) \<and> has_record L n d ns key (f x)"
    by metis
  have "h \<in> f ` set (hs_dbItr sc)" if rec: "has_record L n d ns key h" for h
  proof -
    from record_scanned [OF assms(1) rec] obtain x where "x \<in> set (hs_dbItr sc)" "fst x = ?k h"
      unfolding sc(2) by force
    moreover from this f have "f x = h" using assms(4)
      by (metis constructLevelKey_inj hist_name_def history_key_inj ns_ok_def)
    ultimately show ?thesis by blast
  qed
  with f have set: "set (map f (hs_dbItr sc)) = {h. has_record L n d ns key h}" by auto
  have order: "?k g < ?k h \<longleftrightarrow> g < h" for g h
    by (simp add: constructLevelKey_def history_key_def composite_history ToBytes_order)
  have "sorted_wrt (<) (map f (hs_dbItr sc))"
    using sorted unfolding sorted_wrt_map
    by (rule sorted_wrt_mono_rel [rotated]) (use f order in auto)
  moreover have "map (record_height (hs_compositePartialKey sc) \<circ> fst) (hs_dbItr sc) = map Ok (map f (hs_dbItr sc))"
    using f by (simp add: sc(1) record_height_history_key [OF assms(2)])
  ultimately show thesis using that set by blast
qed

section \<open>What a commit records\<close>

definition tx_writes :: "codec \<Rightarrow> rw_codec \<Rightarrow> bytes \<Rightarrow> (string \<times> string) list" where
  "tx_writes pc rc envBytes =
     (if is_endorser pc envBytes
      then (case tx_rwset pc rc envBytes of
          None \<Rightarrow> []
        | Some rws \<Rightarrow> concat (map (\<lambda>s. map (\<lambda>w. (nrw_NameSpace s, kw_Key w)) (kv_Writes (nrw_KvRwSet s))) (trw_NsRwSets rws)))
      else [])"

fun valid_writes :: "codec \<Rightarrow> rw_codec \<Rightarrow> TxValidationFlags \<Rightarrow> nat \<Rightarrow> bytes list \<Rightarrow> ((string \<times> string) \<times> nat) list" where
  "valid_writes pc rc flags i [] = []"
| "valid_writes pc rc flags i (b # bs) =
     (if flags ! i = 0 then map (\<lambda>w. (w, i)) (tx_writes pc rc b) else []) @ valid_writes pc rc flags (i + 1) bs"

definition put_keys :: "bytes list \<Rightarrow> (bytes, bytes option) gomap \<Rightarrow> (bytes, bytes option) gomap" where
  "put_keys ks = fold (\<lambda>k. AList.update k (Some [])) ks"

lemma put_keys_append: "put_keys (ks @ ks') b = put_keys ks' (put_keys ks b)"
  by (simp add: put_keys_def)

lemma map_of_put_keys: "map_of (put_keys ks b) q = (if q \<in> set ks then Some (Some []) else map_of b q)"
  by (induction ks arbitrary: b) (auto simp: put_keys_def update_conv')

lemma distinct_put_keys: "distinct (map fst b) \<Longrightarrow> distinct (map fst (put_keys ks b))"
  by (induction ks arbitrary: b) (simp_all add: put_keys_def distinct_update)

lemma hist_add_writes_keys:
  "hist_add_writes ns bn tn ws b = put_keys (map (\<lambda>w. ConstructCompositeHistoryKey ns (kw_Key w) bn tn) ws) b"
  by (simp add: hist_add_writes_def put_keys_def fold_map comp_def)

lemma hist_tx_keys:
  "fold (\<lambda>s. hist_add_writes (nrw_NameSpace s) bn tn (kv_Writes (nrw_KvRwSet s))) nss b =
     put_keys (map (\<lambda>(ns, k). ConstructCompositeHistoryKey ns k bn tn)
       (concat (map (\<lambda>s. map (\<lambda>w. (nrw_NameSpace s, kw_Key w)) (kv_Writes (nrw_KvRwSet s))) nss))) b"
  by (induction nss arbitrary: b) (simp_all add: hist_add_writes_keys put_keys_append comp_def put_keys_def [of "[]"])

lemma hist_loop_keys:
  "hist_loop pc rc bn flags i bs b = Ok b' \<Longrightarrow>
     b' = put_keys (map (\<lambda>((ns, k), i). ConstructCompositeHistoryKey ns k bn (of_nat i)) (valid_writes pc rc flags i bs)) b"
proof (induction bs arbitrary: i b)
  case Nil
  then show ?case by (simp add: put_keys_def)
next
  case (Cons e bs)
  obtain inv where inv: "IsInvalid flags i = Ok inv" "inv = (flags ! i \<noteq> 0)"
    using Cons.prems by (auto simp: go_res IsInvalid_Ok)
  show ?case
  proof (cases "inv \<or> \<not> is_endorser pc e")
    case True
    then have "hist_loop pc rc bn flags (i + 1) bs b = Ok b'"
      using Cons.prems inv by (auto simp: go_res is_endorser_def channel_header_def split: if_splits)
    with Cons.IH True inv show ?thesis by (auto simp: tx_writes_def)
  next
    case False
    then obtain rws where rws: "tx_rwset pc rc e = Some rws"
        "hist_loop pc rc bn flags (i + 1) bs (fold (\<lambda>s. hist_add_writes (nrw_NameSpace s) bn (of_nat i)
           (kv_Writes (nrw_KvRwSet s))) (trw_NsRwSets rws) b) = Ok b'"
      using Cons.prems inv
      by (auto simp: go_res is_endorser_def channel_header_def tx_rwset_def split: if_splits)
    with Cons.IH [OF rws(2)] False inv rws(1) show ?thesis
      by (simp add: hist_tx_keys put_keys_append tx_writes_def comp_def split_def)
  qed
qed

lemma hist_Commit_writes:
  assumes "hist_Commit pc rc L n d block = Ok (d', block')"
  shows "DBHandle_WriteBatch L n d (AList.update savePointKey
      (Some (ToBytes (Height (bh_Number (blk_Header block)) (of_nat (length (blk_Data block))))))
      (put_keys (map (\<lambda>((ns, k), i). history_key ns k (Height (bh_Number (blk_Header block)) (of_nat i)))
        (valid_writes pc rc (initial_flags block) 0 (blk_Data block))) [])) = Ok d' \<and>
    tx_flags block' = initial_flags block \<and> blk_Data block' = blk_Data block \<and> blk_Header block' = blk_Header block"
proof -
  let ?k = BlockMetadataIndex_TRANSACTIONS_FILTER
  from assms obtain md where md: "blk_Metadata block = Some md" "?k < length md"
    by (auto simp: hist_Commit_def go_res)
  have init: "initial_flags block = (if length (flags_of_bytes (md ! ?k)) = 0
      then NewTxValidationFlags (length (blk_Data block)) else flags_of_bytes (md ! ?k))"
    by (simp add: initial_flags_def tx_flags_def md)
  from assms md obtain b where b: "hist_loop pc rc (bh_Number (blk_Header block)) (initial_flags block) 0 (blk_Data block) [] = Ok b"
      "DBHandle_WriteBatch L n d (AList.update savePointKey
        (Some (ToBytes (Height (bh_Number (blk_Header block)) (of_nat (length (blk_Data block)))))) b) = Ok d'"
      "block' = block\<lparr>blk_Metadata := Some (md[?k := flags_to_bytes (initial_flags block)])\<rparr>"
    by (auto simp: hist_Commit_def go_res Let_def init NewHeight_def)
  from b(2) hist_loop_keys [OF b(1)] b(3) md show ?thesis
    by (simp add: history_key_def tx_flags_def cong: prod.case_cong)
qed

lemma hist_Commit_get:
  assumes "ldb_laws L" and "hist_Commit pc rc L n d block = Ok (d', block')"
  shows "DBHandle_Get L n d' q =
    (if q = savePointKey then Ok (Some (ToBytes (Height (bh_Number (blk_Header block)) (of_nat (length (blk_Data block))))))
     else if q \<in> set (map (\<lambda>((ns, k), i). history_key ns k (Height (bh_Number (blk_Header block)) (of_nat i)))
        (valid_writes pc rc (initial_flags block) 0 (blk_Data block))) then Ok (Some [])
     else DBHandle_Get L n d q)"
proof -
  let ?ks = "map (\<lambda>((ns, k), i). history_key ns k (Height (bh_Number (blk_Header block)) (of_nat i)))
    (valid_writes pc rc (initial_flags block) 0 (blk_Data block))"
  let ?b = "AList.update savePointKey
    (Some (ToBytes (Height (bh_Number (blk_Header block)) (of_nat (length (blk_Data block)))))) (put_keys ?ks [])"
  have dist: "distinct (map fst ?b)" by (simp add: distinct_update distinct_put_keys)
  obtain d1 where "DBHandle_WriteBatch L n d ?b = Ok d1"
      "\<And>q. DBHandle_Get L n d1 q = (case map_of ?b q of None \<Rightarrow> DBHandle_Get L n d q | Some v \<Rightarrow> Ok v)"
    by (rule ldb_write_read [where n = n and d = d, OF assms(1) dist]) blast
  with hist_Commit_writes [OF assms(2)] show ?thesis by (simp add: map_of_put_keys)
qed

lemma hist_Commit_wf:
  assumes "ldb_laws L" and "wf_history L n d" and "hist_Commit pc rc L n d block = Ok (d', block')"
    and "list_all (\<lambda>((ns, key), i). hist_name ns key) (valid_writes pc rc (initial_flags block) 0 (blk_Data block))"
  shows "wf_history L n d'"
  unfolding wf_history_def
proof (intro allI impI)
  fix q v
  let ?ks = "map (\<lambda>((ns, k), i). history_key ns k (Height (bh_Number (blk_Header block)) (of_nat i)))
    (valid_writes pc rc (initial_flags block) 0 (blk_Data block))"
  assume "DBHandle_Get L n d' q = Ok (Some v)"
  then consider "q = savePointKey" | "q \<in> set ?ks" | "DBHandle_Get L n d q = Ok (Some v)"
    unfolding hist_Commit_get [OF assms(1,3)] by metis
  then show "q = savePointKey \<or> (\<exists>ns key h. hist_name ns key \<and> q = history_key ns key h)"
  proof cases
    case 2
    then obtain ns k i where "((ns, k), i) \<in> set (valid_writes pc rc (initial_flags block) 0 (blk_Data block))"
        "q = history_key ns k (Height (bh_Number (blk_Header block)) (of_nat i))"
      by (auto simp: split_def)
    moreover from this assms(4) have "hist_name ns k" by (auto simp: list_all_iff)
    ultimately show ?thesis by blast
  next
    case 3
    with assms(2) show ?thesis unfolding wf_history_def by blast
  qed simp
qed

section \<open>Properties\<close>

text \<open>C23: committing a block to the history database adds one record per key and height for exactly the writes of
the endorser transactions that the block's flags leave valid, keeps every older record, keeps the database well
formed and moves the save point to the block.\<close>

theorem history_commit_exact:
  assumes "ldb_laws L" and "wf_history L n d" and "hist_Commit pc rc L n d block = Ok (d', block')"
    and "list_all (\<lambda>((ns, key), i). hist_name ns key) (valid_writes pc rc (initial_flags block) 0 (blk_Data block))"
    and "hist_name ns key"
  shows "wf_history L n d' \<and>
    hist_GetLastSavepoint L n d' = Ok (Some (Height (bh_Number (blk_Header block)) (of_nat (length (blk_Data block))))) \<and>
    (has_record L n d' ns key h \<longleftrightarrow> has_record L n d ns key h \<or>
      (\<exists>i. ((ns, key), i) \<in> set (valid_writes pc rc (initial_flags block) 0 (blk_Data block)) \<and>
        h = Height (bh_Number (blk_Header block)) (of_nat i)))"
proof -
  let ?bn = "bh_Number (blk_Header block)" and ?ws = "valid_writes pc rc (initial_flags block) 0 (blk_Data block)"
  let ?ks = "map (\<lambda>((ns, k), i). history_key ns k (Height ?bn (of_nat i))) ?ws"
  note get = hist_Commit_get [OF assms(1,3)]
  have names: "hist_name ns k" if "((ns, k), i) \<in> set ?ws" for ns k i
    using assms(4) that by (auto simp: list_all_iff)
  have key: "history_key ns key h \<in> set ?ks \<longleftrightarrow> (\<exists>i. ((ns, key), i) \<in> set ?ws \<and> h = Height ?bn (of_nat i))"
    using names assms(5) by (force simp: image_iff hist_name_def ns_ok_def history_key_inj)
  have "history_key ns key h \<noteq> savePointKey"
    using assms(5) by (simp add: history_key_not_savepoint hist_name_def ns_ok_def)
  then have "has_record L n d' ns key h \<longleftrightarrow> has_record L n d ns key h \<or> history_key ns key h \<in> set ?ks"
    by (auto simp: has_record_def get)
  moreover have "wf_history L n d'" using hist_Commit_wf [OF assms(1-4)] .
  moreover have "hist_GetLastSavepoint L n d' = Ok (Some (Height ?bn (of_nat (length (blk_Data block)))))"
    using NewHeightFromBytes_ToBytes [of "Height ?bn (of_nat (length (blk_Data block)))" "[]"]
    by (simp add: hist_GetLastSavepoint_def get)
  ultimately show ?thesis unfolding key by simp
qed

text \<open>The modification of a key that the transaction at a height made, as the block store has it.\<close>

definition modification ::
    "codec \<Rightarrow> rw_codec \<Rightarrow> (uint64 \<Rightarrow> uint64 \<Rightarrow> (string, Envelope) res) \<Rightarrow> string \<Rightarrow> string \<Rightarrow> Height \<Rightarrow>
      (string, KeyModification) res" where
  "modification pc rc retrieveTx ns key h =
     rbind (retrieveTx (BlockNum h) (TxNum h)) (\<lambda>env. getKeyModificationFromTran pc rc env ns key)"

lemma scanner_yields:
  assumes "map (record_height (hs_compositePartialKey sc) \<circ> fst) (hs_dbItr sc) = map Ok hs"
    and "\<forall>h \<in> set hs. \<exists>km. modification pc rc retrieveTx (hs_namespace sc) (hs_key sc) h = Ok km"
  shows "yields (historyScanner_Next pc rc retrieveTx) sc
    (map (\<lambda>h. the_ok (modification pc rc retrieveTx (hs_namespace sc) (hs_key sc) h)) hs)"
  using assms
proof (induction hs arbitrary: sc)
  case (Cons h hs)
  then obtain e es where e: "hs_dbItr sc = e # es" "record_height (hs_compositePartialKey sc) (fst e) = Ok h"
      "map (\<lambda>x. record_height (hs_compositePartialKey sc) (fst x)) es = map Ok hs"
    by (auto simp: comp_def)
  from Cons.prems(2) obtain env km where "retrieveTx (BlockNum h) (TxNum h) = Ok env"
      "getKeyModificationFromTran pc rc env (hs_namespace sc) (hs_key sc) = Ok km"
    by (auto simp: modification_def go_res)
  with e Cons.IH [of "sc\<lparr>hs_dbItr := es\<rparr>"] Cons.prems(2) show ?case
    by (simp add: historyScanner_Next_def modification_def split_def)
qed (simp add: historyScanner_Next_def)


text \<open>names with zero bytes are confused: whoever writes the key made of \<open>key\<close>, a zero byte and the encoding of a
height \<open>g\<close> adds a record that the history of \<open>key\<close> reads as a modification at height \<open>g\<close>.\<close>

theorem history_record_forged:
  assumes "ldb_laws L" and "zero_free n"
    and "has_record L n d ns (key @ [CHR 0x00] @ ToBytes g) h" and "GetHistoryForKey True L n d ns key = Ok sc"
  shows "\<exists>e \<in> set (hs_dbItr sc). record_height (hs_compositePartialKey sc) (fst e) = Ok g"
proof -
  let ?p = "ConstructPartialCompositeHistoryKey ns key False" and ?q = "history_key ns (key @ [CHR 0x00] @ ToBytes g) h"
  from assms(4) have sc: "hs_compositePartialKey sc = ?p" "hs_dbItr sc = DBHandle_GetIterator L n d (Some ?p)
      (Some (ConstructPartialCompositeHistoryKey ns key True))"
    by (auto simp: GetHistoryForKey_def Let_def)
  have q: "?q = ?p @ ToBytes g @ [CHR 0x00] @ ToBytes h"
    by (simp add: history_key_def composite_history ConstructPartialCompositeHistoryKey_def)
  have below: "ToBytes g @ t < [CHR 0xFF]" for t
    using length_digits64 [of "BlockNum g"] by (simp add: ToBytes_def EncodeOrderPreserving_eq less_char_def)
  have "constructLevelKey n ?p \<le> constructLevelKey n ?q"
      "constructLevelKey n ?q < constructLevelKey n (ConstructPartialCompositeHistoryKey ns key True)"
    using below append_le_append [of ?p "[]" "ToBytes g @ [CHR 0x00] @ ToBytes h"] unfolding q
    by (simp_all add: constructLevelKey_def ConstructPartialCompositeHistoryKey_def)
  moreover from assms(3) obtain v where "ldb_Get L d (constructLevelKey n ?q) = Ok v"
    by (auto simp: has_record_def DBHandle_Get_def DB_Get_def split: res.splits ldb_error.splits)
  ultimately have mem: "(constructLevelKey n ?q, v) \<in> set (hs_dbItr sc)"
    using assms(1) unfolding sc(2) by (simp add: ldb_laws_def DBHandle_GetIterator_def Let_def)
  have "record_height ?p (constructLevelKey n ?q) = Ok g"
    unfolding record_height_def retrieve_level [OF assms(2)] q
    by (simp add: SplitCompositeHistoryKey_def after_first_prefix) (simp add: ToBytes_def DecodeOrderPreserving_Encode)
  with mem sc(1) show ?thesis by (intro bexI [OF _ mem]) simp
qed

section \<open>Witnesses\<close>

definition hist_db :: "(bytes, bytes) gomap" where
  "hist_db = fst (the_ok (hist_Commit endorser_codec sample_rw_codec mem_leveldb ''ch'' [] one_tx_block))"

lemma empty_history: "wf_history mem_leveldb n []"
  by (simp add: wf_history_def DBHandle_Get_def DB_Get_def mem_leveldb_def)

lemma hist_db:
  "hist_Commit endorser_codec sample_rw_codec mem_leveldb ''ch'' [] one_tx_block =
     Ok (hist_db, one_tx_block\<lparr>blk_Metadata := Some [[], [], [CHR 0x00]]\<rparr>)"
  "valid_writes endorser_codec sample_rw_codec (initial_flags one_tx_block) 0 (blk_Data one_tx_block) = [((''ns'', ''k''), 0)]"
proof -
  have "(case hist_Commit endorser_codec sample_rw_codec mem_leveldb ''ch'' [] one_tx_block of
      Ok (d, b) \<Rightarrow> b = one_tx_block\<lparr>blk_Metadata := Some [[], [], [CHR 0x00]]\<rparr> | _ \<Rightarrow> False) \<and>
    valid_writes endorser_codec sample_rw_codec (initial_flags one_tx_block) 0 (blk_Data one_tx_block) = [((''ns'', ''k''), 0)]"
    by code_simp
  then show "hist_Commit endorser_codec sample_rw_codec mem_leveldb ''ch'' [] one_tx_block =
     Ok (hist_db, one_tx_block\<lparr>blk_Metadata := Some [[], [], [CHR 0x00]]\<rparr>)"
    "valid_writes endorser_codec sample_rw_codec (initial_flags one_tx_block) 0 (blk_Data one_tx_block) = [((''ns'', ''k''), 0)]"
    by (auto simp: hist_db_def split: res.splits)
qed

lemma hist_name_sample: "hist_name ''ns'' ''k''"
  by (simp add: hist_name_def ns_ok_def zero_free_def)

theorem history_commit_exact_witness:
  "wf_history mem_leveldb ''ch'' hist_db \<and> hist_GetLastSavepoint mem_leveldb ''ch'' hist_db = Ok (Some (Height 2 1)) \<and>
   has_record mem_leveldb ''ch'' hist_db ''ns'' ''k'' (Height 2 0)"
  using history_commit_exact [OF mem_leveldb_laws empty_history hist_db(1) _ hist_name_sample, of "Height 2 0"]
  unfolding hist_db(2) by (simp add: hist_name_sample one_tx_block_def)

definition sample_retrieve :: "uint64 \<Rightarrow> uint64 \<Rightarrow> (string, Envelope) res" where
  "sample_retrieve blockNum tranNum = Ok \<lparr>env_Payload = Some ''tx'', env_Signature = []\<rparr>"

lemma sample_modification:
  "modification endorser_codec sample_rw_codec sample_retrieve ''ns'' ''k'' h =
     Ok \<lparr>km_TxId = ''tx'', km_Value = Some ''v'', km_IsDelete = False\<rparr>"
proof -
  have "getKeyModificationFromTran endorser_codec sample_rw_codec \<lparr>env_Payload = Some ''tx'', env_Signature = []\<rparr> ''ns'' ''k'' =
      Ok \<lparr>km_TxId = ''tx'', km_Value = Some ''v'', km_IsDelete = False\<rparr>"
    by code_simp
  then show ?thesis by (simp add: modification_def sample_retrieve_def)
qed

lemma hist_db_wf: "wf_history mem_leveldb ''ch'' hist_db"
  by (rule hist_Commit_wf [OF mem_leveldb_laws empty_history hist_db(1)]) (simp add: hist_db(2) hist_name_sample)


definition forged_db :: "(bytes, bytes) gomap" where
  "forged_db = [(constructLevelKey ''ch'' (history_key ''ns'' (''k'' @ [CHR 0x00] @ ToBytes (Height 1 0)) (Height 2 0)), [])]"

theorem history_record_forged_witness:
  "\<exists>sc. GetHistoryForKey True mem_leveldb ''ch'' forged_db ''ns'' ''k'' = Ok sc \<and>
     list_ex (\<lambda>e. record_height (hs_compositePartialKey sc) (fst e) = Ok (Height 1 0)) (hs_dbItr sc)"
proof -
  have rec: "has_record mem_leveldb ''ch'' forged_db ''ns'' (''k'' @ [CHR 0x00] @ ToBytes (Height 1 0)) (Height 2 0)"
    by (simp add: has_record_def forged_db_def DBHandle_Get_def DB_Get_def mem_leveldb_def)
  obtain sc where sc: "GetHistoryForKey True mem_leveldb ''ch'' forged_db ''ns'' ''k'' = Ok sc"
    by (simp add: GetHistoryForKey_def Let_def)
  have "zero_free ''ch''" by (simp add: zero_free_def)
  from history_record_forged [OF mem_leveldb_laws this rec sc] sc show ?thesis by (auto simp: list_ex_iff)
qed

end
