(* ===== verification/Block_Serialization.thy ===== *)
theory Block_Serialization
  imports Version Protos
begin

text \<open>
  The bytes of a stored block: \<open>fsblkstorage/block_serialization.go\<close>, the position-counting buffer of
  \<open>common/ledger/util/protobuf_util.go\<close> and the buffer routines of the vendored protobuf runtime that
  they call. Lengths are Go \<open>int\<close>s, which are never negative here, and offsets are \<open>int\<close>.

  The lemmas show that varints and length-prefixed strings are read back from the front of a longer
  text, that a serialized block reads back as the same block and the same index information, and
  that every recorded location holds the bytes of its transaction.
\<close>

section \<open>Buffers\<close>

definition EncodeRawBytes :: "bytes \<Rightarrow> bytes" where
  "EncodeRawBytes b = EncodeVarint (of_nat (length b)) @ b"

function SizeVarint :: "uint64 \<Rightarrow> nat" where
  "SizeVarint x = (if drop_bit 7 x = 0 then 1 else 1 + SizeVarint (drop_bit 7 x))"
  by pat_completeness auto
termination
proof (relation "measure unat")
  fix x :: uint64
  assume "drop_bit 7 x \<noteq> 0"
  then have "0 < unat x" by (auto simp: unat_gt_0)
  then have "drop_bit 7 x < x" by (simp add: drop_bit_eq_div unat_div word_less_nat_alt)
  then show "(drop_bit 7 x, x) \<in> measure unat" by (simp add: word_less_nat_alt)
qed simp

declare SizeVarint.simps [simp del]

text \<open>\<open>proto.Buffer\<close>: the unread bytes.\<close>

definition proto_DecodeVarint :: "bytes \<Rightarrow> (string, uint64 \<times> bytes) res" where
  "proto_DecodeVarint buf =
     (let (x, n) = DecodeVarint buf in if n = 0 then Err ''unexpected EOF'' else Ok (x, drop n buf))"

definition proto_DecodeRawBytes :: "bytes \<Rightarrow> (string, bytes \<times> bytes) res" where
  "proto_DecodeRawBytes buf =
     rbind (proto_DecodeVarint buf) (\<lambda>(n, rest).
     let nb = sint n
     in if nb < 0 then Err ''proto: bad byte length''
        else if nb > int (length rest) then Err ''unexpected EOF''
        else Ok (take (nat nb) rest, drop (nat nb) rest))"

record Buffer =
  buf :: bytes
  position :: int

definition NewBuffer :: "bytes \<Rightarrow> Buffer" where
  "NewBuffer b = \<lparr>buf = b, position = 0\<rparr>"

definition Buffer_DecodeVarint :: "Buffer \<Rightarrow> (string, uint64 \<times> Buffer) res" where
  "Buffer_DecodeVarint b =
     rbind (proto_DecodeVarint (buf b)) (\<lambda>(val, rest).
     Ok (val, \<lparr>buf = rest, position = position b + int (SizeVarint val)\<rparr>))"

definition Buffer_DecodeRawBytes :: "Buffer \<Rightarrow> (string, bytes \<times> Buffer) res" where
  "Buffer_DecodeRawBytes b =
     rbind (proto_DecodeRawBytes (buf b)) (\<lambda>(val, rest).
     Ok (val, \<lparr>buf = rest,
       position = position b + int (SizeVarint (of_nat (length val))) + int (length val)\<rparr>))"

definition GetBytesConsumed :: "Buffer \<Rightarrow> int" where
  "GetBytesConsumed b = position b"

section \<open>Serializing\<close>

record locPointer =
  offset :: int
  bytesLength :: int

record txindexInfo =
  ti_txID :: string
  ti_loc :: locPointer

record serializedBlockInfo =
  si_blockHeader :: BlockHeader
  si_txOffsets :: "txindexInfo list"
  si_metadata :: "bytes list option"

text \<open>An envelope whose payload does not parse has the empty transaction id.\<close>

definition extractTxID :: "codec \<Rightarrow> bytes \<Rightarrow> (string, string) res" where
  "extractTxID pc txEnvelopBytes =
     rbind (GetEnvelopeFromBlock pc txEnvelopBytes) (\<lambda>txEnvelope.
     case GetPayload pc txEnvelope of
       Panic \<Rightarrow> Panic
     | Err _ \<Rightarrow> Ok ''''
     | Ok txPayload \<Rightarrow>
         rbind (deref (pl_Header txPayload)) (\<lambda>hdr.
         rbind (UnmarshalChannelHeader pc (hdr_ChannelHeader hdr)) (\<lambda>chdr.
         Ok (ch_TxId chdr))))"

definition addHeaderBytes :: "BlockHeader \<Rightarrow> bytes \<Rightarrow> bytes" where
  "addHeaderBytes blockHeader b =
     b @ EncodeVarint (bh_Number blockHeader) @ EncodeRawBytes (bh_DataHash blockHeader) @
       EncodeRawBytes (bh_PreviousHash blockHeader)"

fun add_data_items :: "codec \<Rightarrow> bytes list \<Rightarrow> bytes \<Rightarrow> (string, txindexInfo list \<times> bytes) res" where
  "add_data_items pc [] b = Ok ([], b)"
| "add_data_items pc (txEnvelopeBytes # rest) b =
     (let off = int (length b)
      in rbind (extractTxID pc txEnvelopeBytes) (\<lambda>txid.
         let b1 = b @ EncodeRawBytes txEnvelopeBytes;
             idxInfo = \<lparr>ti_txID = txid, ti_loc = \<lparr>offset = off, bytesLength = int (length b1) - off\<rparr>\<rparr>
         in rbind (add_data_items pc rest b1) (\<lambda>(txOffsets, b2). Ok (idxInfo # txOffsets, b2))))"

definition addDataBytes :: "codec \<Rightarrow> bytes list \<Rightarrow> bytes \<Rightarrow> (string, txindexInfo list \<times> bytes) res" where
  "addDataBytes pc blockData b = add_data_items pc blockData (b @ EncodeVarint (of_nat (length blockData)))"

definition addMetadataBytes :: "bytes list option \<Rightarrow> bytes \<Rightarrow> (string, bytes) res" where
  "addMetadataBytes blockMetadata b =
     (let numItems = (case blockMetadata of None \<Rightarrow> 0 | Some md \<Rightarrow> of_nat (length md));
          b1 = b @ EncodeVarint numItems
      in rbind (deref blockMetadata) (\<lambda>md. Ok (fold (\<lambda>m b. b @ EncodeRawBytes m) md b1)))"

definition serializeBlock :: "codec \<Rightarrow> Block \<Rightarrow> (string, bytes \<times> serializedBlockInfo) res" where
  "serializeBlock pc block =
     (let b = addHeaderBytes (blk_Header block) []
      in rbind (addDataBytes pc (blk_Data block) b) (\<lambda>(txOffsets, b1).
         rbind (addMetadataBytes (blk_Metadata block) b1) (\<lambda>b2.
         Ok (b2, \<lparr>si_blockHeader = blk_Header block, si_txOffsets = txOffsets, si_metadata = blk_Metadata block\<rparr>))))"

section \<open>Reading back\<close>

definition extractHeader :: "Buffer \<Rightarrow> (string, BlockHeader \<times> Buffer) res" where
  "extractHeader b =
     rbind (Buffer_DecodeVarint b) (\<lambda>(number, b1).
     rbind (Buffer_DecodeRawBytes b1) (\<lambda>(dataHash, b2).
     rbind (Buffer_DecodeRawBytes b2) (\<lambda>(previousHash, b3).
     Ok (\<lparr>bh_Number = number, bh_PreviousHash = previousHash, bh_DataHash = dataHash\<rparr>, b3))))"

text \<open>The loops of \<open>extractData\<close> and \<open>extractMetadata\<close>, by the number of items left.\<close>

primrec extract_data_items :: "codec \<Rightarrow> nat \<Rightarrow> Buffer \<Rightarrow> (string, (bytes list \<times> txindexInfo list) \<times> Buffer) res" where
  "extract_data_items pc 0 b = Ok (([], []), b)"
| "extract_data_items pc (Suc n) b =
     (let txOffset = GetBytesConsumed b
      in rbind (Buffer_DecodeRawBytes b) (\<lambda>(txEnvBytes, b1).
         rbind (extractTxID pc txEnvBytes) (\<lambda>txid.
         let idxInfo = \<lparr>ti_txID = txid, ti_loc = \<lparr>offset = txOffset, bytesLength = GetBytesConsumed b1 - txOffset\<rparr>\<rparr>
         in rbind (extract_data_items pc n b1) (\<lambda>((envs, txOffsets), b2).
            Ok ((txEnvBytes # envs, idxInfo # txOffsets), b2)))))"

definition extractData :: "codec \<Rightarrow> Buffer \<Rightarrow> (string, (bytes list \<times> txindexInfo list) \<times> Buffer) res" where
  "extractData pc b =
     rbind (Buffer_DecodeVarint b) (\<lambda>(numItems, b1). extract_data_items pc (unat numItems) b1)"

primrec extract_metadata_items :: "nat \<Rightarrow> Buffer \<Rightarrow> (string, bytes list \<times> Buffer) res" where
  "extract_metadata_items 0 b = Ok ([], b)"
| "extract_metadata_items (Suc n) b =
     rbind (Buffer_DecodeRawBytes b) (\<lambda>(metadataEntry, b1).
     rbind (extract_metadata_items n b1) (\<lambda>(rest, b2). Ok (metadataEntry # rest, b2)))"

definition extractMetadata :: "Buffer \<Rightarrow> (string, bytes list option \<times> Buffer) res" where
  "extractMetadata b =
     rbind (Buffer_DecodeVarint b) (\<lambda>(numItems, b1).
     rbind (extract_metadata_items (unat numItems) b1) (\<lambda>(md, b2). Ok (Some md, b2)))"

definition deserializeBlock :: "codec \<Rightarrow> bytes \<Rightarrow> (string, Block) res" where
  "deserializeBlock pc serializedBlockBytes =
     rbind (extractHeader (NewBuffer serializedBlockBytes)) (\<lambda>(header, b1).
     rbind (extractData pc b1) (\<lambda>((envs, _), b2).
     rbind (extractMetadata b2) (\<lambda>(md, _).
     Ok \<lparr>blk_Header = header, blk_Data = envs, blk_Metadata = md\<rparr>)))"

definition extractSerializedBlockInfo :: "codec \<Rightarrow> bytes \<Rightarrow> (string, serializedBlockInfo) res" where
  "extractSerializedBlockInfo pc serializedBlockBytes =
     rbind (extractHeader (NewBuffer serializedBlockBytes)) (\<lambda>(header, b1).
     rbind (extractData pc b1) (\<lambda>((_, txOffsets), b2).
     rbind (extractMetadata b2) (\<lambda>(md, _).
     Ok \<lparr>si_blockHeader = header, si_txOffsets = txOffsets, si_metadata = md\<rparr>)))"

section \<open>Varints read back\<close>

lemma seven_bits: "(0x7F :: uint64) = mask 7"
  by (simp add: mask_eq_exp_minus_1)

lemma bit_eighth: "bit (0x80 :: uint64) n \<longleftrightarrow> n = 7"
  using bit_exp_iff [of 7 n, where 'a = uint64] by (auto simp: possible_bit_def)

lemma varint_low_bits: "push_bit s (y AND 0x7F) OR push_bit (s + 7) (drop_bit 7 y) = push_bit s (y :: uint64)"
proof (rule bit_word_eqI)
  fix n
  have "s + 7 \<le> n \<Longrightarrow> 7 + (n - (s + 7)) = n - s" by simp
  moreover assume "n < LENGTH(64)"
  ultimately show "bit (push_bit s (y AND 0x7F) OR push_bit (s + 7) (drop_bit 7 y)) n = bit (push_bit s y) n"
    unfolding seven_bits by (cases "s + 7 \<le> n") (auto simp: bit_simps)
qed

lemma varint_byte:
  fixes y :: uint64
  shows "of_nat (of_char (char_of (unat (0x80 OR (y AND 0x7F))))) AND 0x80 \<noteq> (0 :: uint64)"
    and "of_nat (of_char (char_of (unat (0x80 OR (y AND 0x7F))))) AND 0x7F = y AND (0x7F :: uint64)"
proof -
  have eight: "take_bit 8 (0x80 OR (y AND 0x7F)) = 0x80 OR (y AND 0x7F)"
    unfolding seven_bits by (rule bit_word_eqI) (auto simp: bit_simps)
  have "unat (take_bit 8 (0x80 OR (y AND 0x7F))) < 2 ^ 8"
    unfolding unsigned_take_bit_eq by (rule take_bit_nat_less_exp)
  then have "unat (0x80 OR (y AND 0x7F)) < 256" unfolding eight by simp
  then have *: "of_nat (of_char (char_of (unat (0x80 OR (y AND 0x7F))))) = 0x80 OR (y AND 0x7F)"
    by simp
  have "bit (0x80 :: uint64) 7" by simp
  then have "bit ((0x80 OR (y AND 0x7F)) AND 0x80) 7" by (simp add: bit_simps)
  with * show "of_nat (of_char (char_of (unat (0x80 OR (y AND 0x7F))))) AND 0x80 \<noteq> (0 :: uint64)" by auto
  have "(0x80 OR (y AND 0x7F)) AND 0x7F = y AND 0x7F"
    unfolding seven_bits
  proof (rule bit_word_eqI)
    fix n
    show "bit ((0x80 OR (y AND mask 7)) AND mask 7) n = bit (y AND mask 7) n"
      unfolding bit_and_iff bit_or_iff bit_eighth bit_mask_iff by auto
  qed
  with * show "of_nat (of_char (char_of (unat (0x80 OR (y AND 0x7F))))) AND 0x7F = y AND (0x7F :: uint64)"
    by (simp only:)
qed

lemma varint_last:
  assumes "\<not> y > (127 :: uint64)"
  shows "of_nat (of_char (char_of (unat y))) AND 0x80 = (0 :: uint64)" "of_nat (of_char (char_of (unat y))) AND 0x7F = y"
proof -
  from assms have "unat y < 128" by (simp add: word_le_nat_alt linorder_not_less)
  then have "take_bit 7 (unat y) = unat y" by (simp add: take_bit_nat_eq_self)
  then have y: "take_bit 7 y = y" by (metis unsigned_take_bit_eq unsigned_word_eqI)
  with \<open>unat y < 128\<close> have *: "of_nat (of_char (char_of (unat y))) = y" by simp
  have "take_bit 7 y AND 0x80 = 0"
    by (rule bit_word_eqI) (unfold bit_and_iff bit_take_bit_iff bit_eighth, auto)
  moreover have "take_bit 7 y AND mask 7 = take_bit 7 y" by (simp flip: take_bit_eq_mask)
  ultimately show "of_nat (of_char (char_of (unat y))) AND 0x80 = (0 :: uint64)" "of_nat (of_char (char_of (unat y))) AND 0x7F = y"
    by (simp_all only: seven_bits y *)
qed

lemma decode_encode_loop:
  assumes "s < 64" and "unat y < 2 ^ (64 - s)"
  shows "decode_varint_loop (EncodeVarint y @ r) s x n = (x OR push_bit s y, n + length (EncodeVarint y))"
  using assms
proof (induction y arbitrary: s x n rule: EncodeVarint.induct)
  case (1 y)
  show ?case
  proof (cases "y > 127")
    case True
    then have "128 \<le> unat y" by (simp add: word_less_nat_alt)
    with "1.prems" have "(2 :: nat) ^ 7 < 2 ^ (64 - s)" by simp
    then have s: "s + 7 < 64" using power_less_imp_less_exp [of "2 :: nat" 7 "64 - s"] by simp
    have "64 - s = (64 - (s + 7)) + 7" using s by simp
    then have "unat y < 2 ^ (64 - (s + 7)) * 128" using "1.prems"(2) by (simp only: power_add) simp
    then have "unat y div 128 < 2 ^ (64 - (s + 7))" by (rule less_mult_imp_div_less)
    then have "unat (drop_bit 7 y) < 2 ^ (64 - (s + 7))" by (simp add: drop_bit_eq_div unat_div)
    from "1.IH" [OF True s this] True varint_byte [of y] "1.prems" show ?thesis
      by (simp add: EncodeVarint.simps [of y] decode_varint_loop.simps [of "_ # _"] Let_def or.assoc varint_low_bits
          del: push_bit_and)
  next
    case False
    with varint_last [OF False] "1.prems" show ?thesis
      by (simp add: EncodeVarint.simps [of y] decode_varint_loop.simps [of "_ # _"] Let_def del: push_bit_and)
  qed
qed

lemma DecodeVarint_Encode: "DecodeVarint (EncodeVarint x @ r) = (x, length (EncodeVarint x))"
  using decode_encode_loop [of 0 x r 0 0] unsigned_less [of x] by (simp add: DecodeVarint_def)


lemma drop_seven_zero: "drop_bit 7 (x :: uint64) = 0 \<longleftrightarrow> \<not> x > 127"
proof -
  have "drop_bit 7 x = 0 \<longleftrightarrow> unat x div 128 = 0"
    by (simp only: unsigned_eq_0_iff [where 'a = nat, symmetric]) (simp add: drop_bit_eq_div unat_div)
  also have "\<dots> \<longleftrightarrow> \<not> x > 127" by (auto simp: word_less_nat_alt)
  finally show ?thesis .
qed

lemma length_EncodeVarint: "length (EncodeVarint x) = SizeVarint x"
proof (induction x rule: EncodeVarint.induct)
  case (1 x)
  with 1 show ?case by (simp add: EncodeVarint.simps [of x] SizeVarint.simps [of x] drop_seven_zero)
qed

lemma SizeVarint_pos [simp]: "0 < SizeVarint x"
  by (simp add: SizeVarint.simps [of x])

lemma EncodeVarint_nonempty: "EncodeVarint x \<noteq> []"
  by (simp add: EncodeVarint.simps [of x])

lemma Buffer_DecodeVarint_Encode:
  "Buffer_DecodeVarint \<lparr>buf = EncodeVarint x @ r, position = p\<rparr> =
     Ok (x, \<lparr>buf = r, position = p + int (length (EncodeVarint x))\<rparr>)"
  by (simp add: Buffer_DecodeVarint_def proto_DecodeVarint_def DecodeVarint_Encode EncodeVarint_nonempty
      length_EncodeVarint)

lemma sint_length: "n < 2 ^ 63 \<Longrightarrow> sint (of_nat n :: uint64) = int n"
proof -
  assume n: "n < 2 ^ 63"
  then have "take_bit 64 n = n" by (intro take_bit_nat_eq_self) simp
  then have "uint (of_nat n :: uint64) = int n" by (simp add: unsigned_of_nat)
  moreover have "signed_take_bit 63 (int n) = int n" using n by (intro signed_take_bit_int_eq_self) simp_all
  ultimately show ?thesis by (simp add: sint_uint)
qed

lemma Buffer_DecodeRawBytes_Encode:
  assumes "length b < 2 ^ 63"
  shows "Buffer_DecodeRawBytes \<lparr>buf = EncodeRawBytes b @ r, position = p\<rparr> =
     Ok (b, \<lparr>buf = r, position = p + int (length (EncodeRawBytes b))\<rparr>)"
  using sint_length [OF assms]
  by (simp add: Buffer_DecodeRawBytes_def proto_DecodeRawBytes_def proto_DecodeVarint_def EncodeRawBytes_def
      DecodeVarint_Encode EncodeVarint_nonempty length_EncodeVarint)

section \<open>Blocks read back\<close>

text \<open>The bytes that the items of a block add, and the locations of the transactions.\<close>

lemma add_data_items_eq:
  "add_data_items pc envs b = Ok (infos, b') \<Longrightarrow> b' = b @ concat (map EncodeRawBytes envs)"
  by (induction envs arbitrary: b infos b') (fastforce simp: Let_def go_res)+

lemma fold_EncodeRawBytes: "fold (\<lambda>m b. b @ EncodeRawBytes m) md b = b @ concat (map EncodeRawBytes md)"
  by (induction md arbitrary: b) simp_all

lemma length_le_EncodeRawBytes: "length b \<le> length (EncodeRawBytes b)"
  by (simp add: EncodeRawBytes_def)

lemma item_bound:
  assumes "length (concat (map EncodeRawBytes bs)) < m"
  shows "\<forall>b \<in> set bs. length b < m"
  using assms
proof (induction bs)
  case (Cons c bs)
  have "length c \<le> length (EncodeRawBytes c)" by (rule length_le_EncodeRawBytes)
  with Cons show ?case by simp
qed simp

lemma EncodeRawBytes_pos: "0 < length (EncodeRawBytes b)"
  by (simp add: EncodeRawBytes_def length_EncodeVarint)

lemma items_bound: "length bs \<le> length (concat (map EncodeRawBytes bs))"
proof (induction bs)
  case (Cons b bs)
  with EncodeRawBytes_pos [of b] show ?case
    unfolding list.map concat.simps length_append list.size by linarith
qed simp

lemma extract_data_items_back:
  assumes "add_data_items pc envs b = Ok (infos, b')" and "\<forall>e \<in> set envs. length e < 2 ^ 63"
  shows "extract_data_items pc (length envs)
      \<lparr>buf = concat (map EncodeRawBytes envs) @ r, position = int (length b)\<rparr> =
    Ok ((envs, infos), \<lparr>buf = r, position = int (length b')\<rparr>)"
  using assms
proof (induction envs arbitrary: b infos)
  case (Cons e envs)
  then obtain txid infos' where *: "extractTxID pc e = Ok txid"
      "add_data_items pc envs (b @ EncodeRawBytes e) = Ok (infos', b')"
      "infos = \<lparr>ti_txID = txid, ti_loc = \<lparr>offset = int (length b), bytesLength = int (length (EncodeRawBytes e))\<rparr>\<rparr> # infos'"
    by (auto simp: Let_def go_res)
  from Cons.IH [OF *(2)] Cons.prems(2) *(1,3) show ?case
    by (simp add: Buffer_DecodeRawBytes_Encode GetBytesConsumed_def Let_def)
qed simp

lemma extract_metadata_items_back:
  "\<forall>m \<in> set md. length m < 2 ^ 63 \<Longrightarrow>
    \<exists>p'. extract_metadata_items (length md) \<lparr>buf = concat (map EncodeRawBytes md) @ r, position = p\<rparr> =
      Ok (md, \<lparr>buf = r, position = p'\<rparr>)"
proof (induction md arbitrary: p)
  case (Cons m md)
  from Cons.IH [of "p + int (length (EncodeRawBytes m))"] Cons.prems obtain p' where
      "extract_metadata_items (length md) \<lparr>buf = concat (map EncodeRawBytes md) @ r,
        position = p + int (length (EncodeRawBytes m))\<rparr> = Ok (md, \<lparr>buf = r, position = p'\<rparr>)"
    by auto
  with Cons.prems show ?case by (simp add: Buffer_DecodeRawBytes_Encode)
qed simp

text \<open>The parts of a serialized block.\<close>

lemma serializeBlock_parts:
  assumes "serializeBlock pc block = Ok (bs, info)"
  obtains md b where "blk_Metadata block = Some md" and "b = addHeaderBytes (blk_Header block) [] @
      EncodeVarint (of_nat (length (blk_Data block)))"
    and "add_data_items pc (blk_Data block) b = Ok (si_txOffsets info, b @ concat (map EncodeRawBytes (blk_Data block)))"
    and "bs = b @ concat (map EncodeRawBytes (blk_Data block)) @ EncodeVarint (of_nat (length md)) @
      concat (map EncodeRawBytes md)"
    and "si_blockHeader info = blk_Header block" and "si_metadata info = blk_Metadata block"
proof -
  let ?b = "addHeaderBytes (blk_Header block) [] @ EncodeVarint (of_nat (length (blk_Data block)))"
  from assms obtain offs b1 b2 where *: "add_data_items pc (blk_Data block) ?b = Ok (offs, b1)"
      "addMetadataBytes (blk_Metadata block) b1 = Ok b2" "bs = b2"
      "info = \<lparr>si_blockHeader = blk_Header block, si_txOffsets = offs, si_metadata = blk_Metadata block\<rparr>"
    by (auto simp: serializeBlock_def addDataBytes_def go_res)
  from *(2) obtain md where "blk_Metadata block = Some md"
      "b2 = b1 @ EncodeVarint (of_nat (length md)) @ concat (map EncodeRawBytes md)"
    by (auto simp: addMetadataBytes_def Let_def go_res fold_EncodeRawBytes)
  with * add_data_items_eq [OF *(1)] show thesis by (intro that [of md ?b]) simp_all
qed

text \<open>A Go slice has fewer than \<open>2 ^ 63\<close> elements.\<close>

lemma serializeBlock_reads_back:
  assumes "serializeBlock pc block = Ok (bs, info)" and "length bs < 2 ^ 63"
  obtains p where "extractHeader (NewBuffer bs) = Ok (blk_Header block, \<lparr>buf = drop (length (addHeaderBytes (blk_Header block) [])) bs,
      position = int (length (addHeaderBytes (blk_Header block) []))\<rparr>)"
    and "extractData pc \<lparr>buf = drop (length (addHeaderBytes (blk_Header block) [])) bs,
      position = int (length (addHeaderBytes (blk_Header block) []))\<rparr> = Ok ((blk_Data block, si_txOffsets info), p)"
    and "\<exists>q. extractMetadata p = Ok (blk_Metadata block, q)"
proof -
  obtain md b where *: "blk_Metadata block = Some md" "b = addHeaderBytes (blk_Header block) [] @
      EncodeVarint (of_nat (length (blk_Data block)))"
      "add_data_items pc (blk_Data block) b = Ok (si_txOffsets info, b @ concat (map EncodeRawBytes (blk_Data block)))"
      "bs = b @ concat (map EncodeRawBytes (blk_Data block)) @ EncodeVarint (of_nat (length md)) @
        concat (map EncodeRawBytes md)"
    by (rule serializeBlock_parts [OF assms(1)])
  let ?h = "blk_Header block" and ?r = "EncodeVarint (of_nat (length md)) @ concat (map EncodeRawBytes md)"
  have bounds: "length (concat (map EncodeRawBytes (blk_Data block))) < 2 ^ 63" "length (concat (map EncodeRawBytes md)) < 2 ^ 63"
      "length (bh_DataHash ?h) < 2 ^ 63" "length (bh_PreviousHash ?h) < 2 ^ 63"
    using assms(2) length_le_EncodeRawBytes [of "bh_DataHash ?h"] length_le_EncodeRawBytes [of "bh_PreviousHash ?h"]
    unfolding *(4,2) addHeaderBytes_def by simp_all
  have "length (blk_Data block) < 2 ^ 63" "length md < 2 ^ 63"
    using bounds(1,2) items_bound [of "blk_Data block"] items_bound [of md] by linarith+
  then have count: "unat (of_nat (length (blk_Data block)) :: uint64) = length (blk_Data block)"
      "unat (of_nat (length md) :: uint64) = length md"
    by (simp_all add: unat_of_nat take_bit_nat_eq_self)
  have "extractHeader (NewBuffer bs) = Ok (?h, \<lparr>buf = drop (length (addHeaderBytes ?h [])) bs,
      position = int (length (addHeaderBytes ?h []))\<rparr>)"
    using bounds(3,4) unfolding *(4,2) NewBuffer_def extractHeader_def addHeaderBytes_def
    by (simp add: Buffer_DecodeVarint_Encode Buffer_DecodeRawBytes_Encode)
  moreover have "extractData pc \<lparr>buf = drop (length (addHeaderBytes ?h [])) bs, position = int (length (addHeaderBytes ?h []))\<rparr> =
      Ok ((blk_Data block, si_txOffsets info), \<lparr>buf = ?r, position = int (length (b @ concat (map EncodeRawBytes (blk_Data block))))\<rparr>)"
    using extract_data_items_back [OF *(3) item_bound [OF bounds(1)], of ?r] count(1)
    by (simp add: *(4) extractData_def Buffer_DecodeVarint_Encode *(2) add.assoc)
  moreover have "\<exists>q. extractMetadata \<lparr>buf = ?r, position = int (length (b @ concat (map EncodeRawBytes (blk_Data block))))\<rparr> =
      Ok (blk_Metadata block, q)"
    using extract_metadata_items_back [OF item_bound [OF bounds(2)], of "[]"] count(2)
    by (simp add: extractMetadata_def Buffer_DecodeVarint_Encode *(1)) (metis (no_types, lifting) rbind.simps(1) case_prod_conv)
  ultimately show thesis by (rule that)
qed

definition located :: "codec \<Rightarrow> bytes \<Rightarrow> bytes \<Rightarrow> txindexInfo \<Rightarrow> bool" where
  "located pc bs env ti \<longleftrightarrow> extractTxID pc env = Ok (ti_txID ti) \<and> 0 \<le> offset (ti_loc ti) \<and>
     bytesLength (ti_loc ti) = int (length (EncodeRawBytes env)) \<and>
     (\<exists>u v. bs = u @ EncodeRawBytes env @ v \<and> offset (ti_loc ti) = int (length u))"

lemma located_append: "located pc bs env ti \<Longrightarrow> located pc (bs @ t) env ti"
  unfolding located_def by fastforce

lemma add_data_items_located:
  "add_data_items pc envs b = Ok (infos, b') \<Longrightarrow> list_all2 (located pc b') envs infos"
proof (induction envs arbitrary: b infos)
  case (Cons e envs)
  then obtain txid infos' where *: "extractTxID pc e = Ok txid"
      "add_data_items pc envs (b @ EncodeRawBytes e) = Ok (infos', b')"
      "infos = \<lparr>ti_txID = txid, ti_loc = \<lparr>offset = int (length b), bytesLength = int (length (EncodeRawBytes e))\<rparr>\<rparr> # infos'"
    by (auto simp: Let_def go_res)
  from add_data_items_eq [OF *(2)] have "\<exists>u v. b' = u @ EncodeRawBytes e @ v \<and> int (length b) = int (length u)" by auto
  with Cons.IH [OF *(2)] * show ?case by (simp add: located_def)
qed simp

lemma serialize_located:
  assumes "serializeBlock pc block = Ok (bs, info)"
  shows "list_all2 (located pc bs) (blk_Data block) (si_txOffsets info)"
proof (rule serializeBlock_parts [OF assms])
  fix md b
  assume *: "add_data_items pc (blk_Data block) b = Ok (si_txOffsets info, b @ concat (map EncodeRawBytes (blk_Data block)))"
    "bs = b @ concat (map EncodeRawBytes (blk_Data block)) @ EncodeVarint (of_nat (length md)) @ concat (map EncodeRawBytes md)"
  from add_data_items_located [OF *(1)] show ?thesis
    by (rule list_all2_mono) (use located_append *(2) in fastforce)
qed

lemma deserialize_serialize:
  assumes "serializeBlock pc block = Ok (bs, info)" and "length bs < 2 ^ 63"
  shows "deserializeBlock pc bs = Ok block \<and> extractSerializedBlockInfo pc bs = Ok info"
proof (rule serializeBlock_reads_back [OF assms])
  fix p
  let ?b = "\<lparr>buf = drop (length (addHeaderBytes (blk_Header block) [])) bs,
      position = int (length (addHeaderBytes (blk_Header block) []))\<rparr>"
  assume "extractHeader (NewBuffer bs) = Ok (blk_Header block, ?b)"
    "extractData pc ?b = Ok ((blk_Data block, si_txOffsets info), p)"
    "\<exists>q. extractMetadata p = Ok (blk_Metadata block, q)"
  moreover have "si_blockHeader info = blk_Header block" "si_metadata info = blk_Metadata block"
    using assms(1) by (auto simp: serializeBlock_def go_res)
  then have "info = \<lparr>si_blockHeader = blk_Header block, si_txOffsets = si_txOffsets info, si_metadata = blk_Metadata block\<rparr>"
    by simp
  ultimately show ?thesis
    by (auto simp: deserializeBlock_def extractSerializedBlockInfo_def)
qed

section \<open>Properties\<close>

text \<open>C25: a block that serializes is read back from its bytes unchanged, with the same index information, and the
location recorded for each transaction, in block order, holds exactly the length-prefixed bytes of that transaction
under its transaction id.\<close>

theorem block_bytes_round_trip:
  assumes "serializeBlock pc block = Ok (bs, info)" and "length bs < 2 ^ 63"
  shows "deserializeBlock pc bs = Ok block \<and> extractSerializedBlockInfo pc bs = Ok info \<and>
    list_all2 (\<lambda>env ti. extractTxID pc env = Ok (ti_txID ti) \<and>
      take (nat (bytesLength (ti_loc ti))) (drop (nat (offset (ti_loc ti))) bs) = EncodeRawBytes env)
      (blk_Data block) (si_txOffsets info)"
proof -
  have "list_all2 (\<lambda>env ti. extractTxID pc env = Ok (ti_txID ti) \<and>
      take (nat (bytesLength (ti_loc ti))) (drop (nat (offset (ti_loc ti))) bs) = EncodeRawBytes env)
      (blk_Data block) (si_txOffsets info)"
    by (rule list_all2_mono [OF serialize_located [OF assms(1)]]) (auto simp: located_def)
  with deserialize_serialize [OF assms] show ?thesis by blast
qed

text \<open>A codec in which every envelope is its own payload and names itself.\<close>

definition plain_codec :: codec where
  "plain_codec =
     \<lparr>un_Envelope = (\<lambda>b. Inr \<lparr>env_Payload = Some b, env_Signature = []\<rparr>),
      un_Payload = (\<lambda>b. Inr \<lparr>pl_Header = Some \<lparr>hdr_ChannelHeader = b, hdr_SignatureHeader = []\<rparr>, pl_Data = b\<rparr>),
      un_ChannelHeader = (\<lambda>b. Inr \<lparr>ch_Type = 3, ch_Version = 0, ch_ChannelId = ''ch'', ch_TxId = b,
        ch_Epoch = 0, ch_Extension = []\<rparr>),
      un_SignatureHeader = (\<lambda>b. Inl ''unused''), un_ChaincodeHeaderExtension = (\<lambda>b. Inl ''unused''),
      un_Transaction = (\<lambda>b. Inl ''unused''), un_ChaincodeActionPayload = (\<lambda>b. Inl ''unused''),
      un_ChaincodeProposalPayload = (\<lambda>b. Inl ''unused''), un_ChaincodeInvocationSpec = (\<lambda>b. Inl ''unused''),
      un_ProposalResponsePayload = (\<lambda>b. Inl ''unused''), un_ChaincodeAction = (\<lambda>b. Inl ''unused''),
      un_Metadata = (\<lambda>b. Inl ''unused''), en_Metadata = md_Value,
      un_LastConfig = (\<lambda>b. Inr \<lparr>lc_Index = 0\<rparr>), en_LastConfig = (\<lambda>_. []),
      en_Envelope = (\<lambda>e. slice (env_Payload e)), en_SignatureHeader = (\<lambda>_. [])\<rparr>"

definition two_tx_block :: Block where
  "two_tx_block = \<lparr>blk_Header = \<lparr>bh_Number = 0, bh_PreviousHash = [], bh_DataHash = ''hash''\<rparr>,
     blk_Data = [''tx1'', ''tx2''], blk_Metadata = Some [[], [], [CHR 0x00, CHR 0x0B]]\<rparr>"

theorem block_bytes_round_trip_witness:
  "deserializeBlock plain_codec (fst (the_ok (serializeBlock plain_codec two_tx_block))) = Ok two_tx_block"
proof -
  have "(case serializeBlock plain_codec two_tx_block of Ok (bs, info) \<Rightarrow> length bs < 100 | _ \<Rightarrow> False)"
    by code_simp
  then obtain bs info where "serializeBlock plain_codec two_tx_block = Ok (bs, info)" "length bs < 100"
    by (auto split: res.splits prod.splits)
  with block_bytes_round_trip [of plain_codec two_tx_block bs info] show ?thesis by simp
qed

end
