(* ===== verification/Block_Index.thy ===== *)
theory Block_Index
  imports Block_Serialization Mvcc
begin

text \<open>
  The index of the block store: \<open>fsblkstorage/blockindex.go\<close>. It maps block numbers, block hashes,
  transaction ids and positions to locations in the block files, and transaction ids to validation
  codes. Its entries share one LevelDB handle with the checkpoint of the block file manager.

  The lemmas give what every lookup returns after a block is indexed: the last transaction of a block
  with an id wins, and one of the six key families can reach the key of the checkpoint.
\<close>

section \<open>Locations\<close>

record fileLocPointer =
  fileSuffixNum :: int
  flp_loc :: locPointer

definition newFileLocationPointer :: "int \<Rightarrow> int \<Rightarrow> locPointer \<Rightarrow> fileLocPointer" where
  "newFileLocationPointer suffixNum beginningOffset relativeLP =
     \<lparr>fileSuffixNum = suffixNum,
      flp_loc = \<lparr>offset = beginningOffset + offset relativeLP, bytesLength = bytesLength relativeLP\<rparr>\<rparr>"

definition flp_marshal :: "fileLocPointer \<Rightarrow> bytes" where
  "flp_marshal flp =
     EncodeVarint (word_of_int (fileSuffixNum flp)) @ EncodeVarint (word_of_int (offset (flp_loc flp))) @
     EncodeVarint (word_of_int (bytesLength (flp_loc flp)))"

text \<open>Every caller starts from a zero location and drops the error, so what was read so far is kept.\<close>

definition zero_flp :: fileLocPointer where
  "zero_flp = \<lparr>fileSuffixNum = 0, flp_loc = \<lparr>offset = 0, bytesLength = 0\<rparr>\<rparr>"

definition flp_unmarshal :: "bytes \<Rightarrow> fileLocPointer" where
  "flp_unmarshal b =
     (case proto_DecodeVarint b of
        Ok (i, b1) \<Rightarrow>
          (let flp = zero_flp\<lparr>fileSuffixNum := sint i\<rparr>
           in (case proto_DecodeVarint b1 of
                 Ok (i, b2) \<Rightarrow>
                   (let flp = flp\<lparr>flp_loc := (flp_loc flp)\<lparr>offset := sint i\<rparr>\<rparr>
                    in (case proto_DecodeVarint b2 of
                          Ok (i, _) \<Rightarrow> flp\<lparr>flp_loc := (flp_loc flp)\<lparr>bytesLength := sint i\<rparr>\<rparr>
                        | _ \<Rightarrow> flp))
               | _ \<Rightarrow> flp))
      | _ \<Rightarrow> zero_flp)"

section \<open>Keys\<close>

datatype IndexableAttr =
    IndexableAttrBlockNum | IndexableAttrBlockHash | IndexableAttrTxID | IndexableAttrBlockNumTranNum
  | IndexableAttrBlockTxID | IndexableAttrTxValidationCode

definition indexCheckpointKey :: bytes where
  "indexCheckpointKey = ''indexCheckpointKey''"

definition constructBlockNumKey :: "uint64 \<Rightarrow> bytes" where
  "constructBlockNumKey blockNum = CHR ''n'' # EncodeOrderPreservingVarUint64 blockNum"

definition constructBlockHashKey :: "bytes \<Rightarrow> bytes" where
  "constructBlockHashKey blockHash = CHR ''h'' # blockHash"

definition constructTxIDKey :: "string \<Rightarrow> bytes" where
  "constructTxIDKey txID = CHR ''t'' # txID"

definition constructBlockTxIDKey :: "string \<Rightarrow> bytes" where
  "constructBlockTxIDKey txID = CHR ''b'' # txID"

definition constructTxValidationCodeIDKey :: "string \<Rightarrow> bytes" where
  "constructTxValidationCodeIDKey txID = CHR ''v'' # txID"

definition constructBlockNumTranNumKey :: "uint64 \<Rightarrow> uint64 \<Rightarrow> bytes" where
  "constructBlockNumTranNumKey blockNum txNum =
     CHR ''a'' # EncodeOrderPreservingVarUint64 blockNum @ EncodeOrderPreservingVarUint64 txNum"

definition encodeBlockNum :: "uint64 \<Rightarrow> bytes" where
  "encodeBlockNum blockNum = EncodeVarint blockNum"

definition decodeBlockNum :: "bytes \<Rightarrow> uint64" where
  "decodeBlockNum blockNumBytes = fst (DecodeVarint blockNumBytes)"

section \<open>Indexing a block\<close>

record blockIdxInfo =
  bi_blockNum :: uint64
  bi_blockHash :: bytes
  bi_flp :: fileLocPointer
  bi_txOffsets :: "txindexInfo list"
  bi_metadata :: "bytes list option"

definition tx_location :: "fileLocPointer \<Rightarrow> txindexInfo \<Rightarrow> fileLocPointer" where
  "tx_location flp txoffset = newFileLocationPointer (fileSuffixNum flp) (offset (flp_loc flp)) (ti_loc txoffset)"

text \<open>The loop of the sixth index, from the transaction with number \<open>idx\<close> on.\<close>

fun validation_puts :: "TxValidationFlags \<Rightarrow> nat \<Rightarrow> txindexInfo list \<Rightarrow> (string, (bytes \<times> bytes) list) res" where
  "validation_puts txsfltr idx [] = Ok []"
| "validation_puts txsfltr idx (txoffset # rest) =
     rbind (Flag txsfltr idx) (\<lambda>code.
     rbind (validation_puts txsfltr (idx + 1) rest) (\<lambda>puts.
     Ok ((constructTxValidationCodeIDKey (ti_txID txoffset), [char_of (nat code)]) # puts)))"

text \<open>
  The assignments to the batch in the order of the code; the batch itself is a map, and the write is
  atomic.
\<close>

definition index_puts :: "IndexableAttr list \<Rightarrow> blockIdxInfo \<Rightarrow> (string, (bytes \<times> bytes) list) res" where
  "index_puts items info =
     rbind (deref (bi_metadata info)) (\<lambda>md.
     rbind (index md BlockMetadataIndex_TRANSACTIONS_FILTER) (\<lambda>raw.
     let flp = bi_flp info; txOffsets = bi_txOffsets info; txsfltr = flags_of_bytes raw; flpBytes = flp_marshal flp;
         p1 = (if IndexableAttrBlockHash \<in> set items then [(constructBlockHashKey (bi_blockHash info), flpBytes)] else []);
         p2 = (if IndexableAttrBlockNum \<in> set items then [(constructBlockNumKey (bi_blockNum info), flpBytes)] else []);
         p3 = (if IndexableAttrTxID \<in> set items
               then map (\<lambda>t. (constructTxIDKey (ti_txID t), flp_marshal (tx_location flp t))) txOffsets else []);
         p4 = (if IndexableAttrBlockNumTranNum \<in> set items
               then map (\<lambda>(i, t). (constructBlockNumTranNumKey (bi_blockNum info) (of_nat i), flp_marshal (tx_location flp t)))
                      (enumerate 0 txOffsets) else []);
         p5 = (if IndexableAttrBlockTxID \<in> set items
               then map (\<lambda>t. (constructBlockTxIDKey (ti_txID t), flpBytes)) txOffsets else [])
     in rbind (if IndexableAttrTxValidationCode \<in> set items then validation_puts txsfltr 0 txOffsets else Ok []) (\<lambda>p6.
        Ok (p1 @ p2 @ p3 @ p4 @ p5 @ p6 @ [(indexCheckpointKey, encodeBlockNum (bi_blockNum info))]))))"

definition indexBlock ::
    "IndexableAttr list \<Rightarrow> 'd leveldb \<Rightarrow> string \<Rightarrow> 'd \<Rightarrow> blockIdxInfo \<Rightarrow> (string, 'd) res" where
  "indexBlock items L dbName d info =
     (if length items = 0 then Ok d
      else
        rbind (index_puts items info) (\<lambda>puts.
        DBHandle_WriteBatch L dbName d (go_map_of (map (\<lambda>(k, v). (k, Some v)) puts))))"

section \<open>Lookups\<close>

definition errIndexEmpty :: string where "errIndexEmpty = ''NoBlockIndexed''"
definition ErrNotFoundInIndex :: string where "ErrNotFoundInIndex = ''Entry not found in index''"
definition ErrAttrNotIndexed :: string where "ErrAttrNotIndexed = ''Attribute not indexed''"

definition getLastBlockIndexed :: "'d leveldb \<Rightarrow> string \<Rightarrow> 'd \<Rightarrow> (string, uint64) res" where
  "getLastBlockIndexed L dbName d =
     rbind (DBHandle_Get L dbName d indexCheckpointKey) (\<lambda>blockNumBytes.
     case blockNumBytes of None \<Rightarrow> Err errIndexEmpty | Some b \<Rightarrow> Ok (decodeBlockNum b))"

text \<open>The body that the five location lookups share.\<close>

definition lookup_loc ::
    "IndexableAttr \<Rightarrow> IndexableAttr list \<Rightarrow> 'd leveldb \<Rightarrow> string \<Rightarrow> 'd \<Rightarrow> bytes \<Rightarrow> (string, fileLocPointer) res" where
  "lookup_loc attr items L dbName d key =
     (if attr \<notin> set items then Err ErrAttrNotIndexed
      else
        rbind (DBHandle_Get L dbName d key) (\<lambda>b.
        case b of None \<Rightarrow> Err ErrNotFoundInIndex | Some b \<Rightarrow> Ok (flp_unmarshal b)))"

definition getBlockLocByHash ::
    "IndexableAttr list \<Rightarrow> 'd leveldb \<Rightarrow> string \<Rightarrow> 'd \<Rightarrow> bytes \<Rightarrow> (string, fileLocPointer) res" where
  "getBlockLocByHash items L dbName d blockHash =
     lookup_loc IndexableAttrBlockHash items L dbName d (constructBlockHashKey blockHash)"

definition getBlockLocByBlockNum ::
    "IndexableAttr list \<Rightarrow> 'd leveldb \<Rightarrow> string \<Rightarrow> 'd \<Rightarrow> uint64 \<Rightarrow> (string, fileLocPointer) res" where
  "getBlockLocByBlockNum items L dbName d blockNum =
     lookup_loc IndexableAttrBlockNum items L dbName d (constructBlockNumKey blockNum)"

definition getTxLoc ::
    "IndexableAttr list \<Rightarrow> 'd leveldb \<Rightarrow> string \<Rightarrow> 'd \<Rightarrow> string \<Rightarrow> (string, fileLocPointer) res" where
  "getTxLoc items L dbName d txID = lookup_loc IndexableAttrTxID items L dbName d (constructTxIDKey txID)"

definition getBlockLocByTxID ::
    "IndexableAttr list \<Rightarrow> 'd leveldb \<Rightarrow> string \<Rightarrow> 'd \<Rightarrow> string \<Rightarrow> (string, fileLocPointer) res" where
  "getBlockLocByTxID items L dbName d txID =
     lookup_loc IndexableAttrBlockTxID items L dbName d (constructBlockTxIDKey txID)"

definition getTXLocByBlockNumTranNum ::
    "IndexableAttr list \<Rightarrow> 'd leveldb \<Rightarrow> string \<Rightarrow> 'd \<Rightarrow> uint64 \<Rightarrow> uint64 \<Rightarrow> (string, fileLocPointer) res" where
  "getTXLocByBlockNumTranNum items L dbName d blockNum tranNum =
     lookup_loc IndexableAttrBlockNumTranNum items L dbName d (constructBlockNumTranNumKey blockNum tranNum)"

definition getTxValidationCodeByTxID ::
    "IndexableAttr list \<Rightarrow> 'd leveldb \<Rightarrow> string \<Rightarrow> 'd \<Rightarrow> string \<Rightarrow> (string, TxValidationCode) res" where
  "getTxValidationCodeByTxID items L dbName d txID =
     (if IndexableAttrTxValidationCode \<notin> set items then Err ErrAttrNotIndexed
      else
        rbind (DBHandle_Get L dbName d (constructTxValidationCodeIDKey txID)) (\<lambda>raw.
        case raw of
          None \<Rightarrow> Err ErrNotFoundInIndex
        | Some [c] \<Rightarrow> Ok (int (of_char c))
        | Some _ \<Rightarrow> Err ''Invalid value in indexItems''))"

section \<open>Locations read back\<close>

lemma proto_DecodeVarint_Encode: "proto_DecodeVarint (EncodeVarint x @ r) = Ok (x, r)"
  by (simp add: proto_DecodeVarint_def DecodeVarint_Encode EncodeVarint_nonempty)

text \<open>A Go \<open>int\<close>.\<close>

definition go_int :: "int \<Rightarrow> bool" where
  "go_int i \<longleftrightarrow> - (2 ^ 63) \<le> i \<and> i < 2 ^ 63"

lemma sint_word_of_int: "go_int i \<Longrightarrow> sint (word_of_int i :: uint64) = i"
  by (simp add: go_int_def sint_sbintrunc' signed_take_bit_int_eq_self)

definition go_flp :: "fileLocPointer \<Rightarrow> bool" where
  "go_flp flp \<longleftrightarrow> go_int (fileSuffixNum flp) \<and> go_int (offset (flp_loc flp)) \<and> go_int (bytesLength (flp_loc flp))"

lemma flp_unmarshal_marshal: "go_flp flp \<Longrightarrow> flp_unmarshal (flp_marshal flp) = flp"
proof -
  assume "go_flp flp"
  moreover have "EncodeVarint x = EncodeVarint x @ []" for x by simp
  ultimately show ?thesis
    using proto_DecodeVarint_Encode [of "word_of_int (bytesLength (flp_loc flp))" "[]"]
    by (simp add: flp_unmarshal_def flp_marshal_def proto_DecodeVarint_Encode sint_word_of_int go_flp_def zero_flp_def)
qed

section \<open>Lookups after indexing\<close>

text \<open>The provider of the ledger asks for all six indexes.\<close>

definition attrsToIndex :: "IndexableAttr list" where
  "attrsToIndex =
     [IndexableAttrBlockHash, IndexableAttrBlockNum, IndexableAttrTxID, IndexableAttrBlockNumTranNum,
      IndexableAttrBlockTxID, IndexableAttrTxValidationCode]"

lemma set_attrsToIndex [simp]: "set attrsToIndex = UNIV" "attrsToIndex \<noteq> []"
  by (auto simp: attrsToIndex_def intro: IndexableAttr.exhaust)

lemma attr_indexed [simp]: "a \<in> set attrsToIndex"
  by simp

lemmas index_keys =
  constructBlockNumKey_def constructBlockHashKey_def constructTxIDKey_def constructBlockTxIDKey_def
  constructTxValidationCodeIDKey_def constructBlockNumTranNumKey_def indexCheckpointKey_def

lemma map_of_rev_append: "map_of (rev (xs @ ys)) q = (case map_of (rev ys) q of None \<Rightarrow> map_of (rev xs) q | Some v \<Rightarrow> Some v)"
  by (simp add: map_add_def)

lemma map_of_rev_None: "q \<notin> fst ` set xs \<Longrightarrow> map_of (rev xs) q = None"
  by (simp add: map_of_eq_None_iff)

text \<open>The last item with a key wins.\<close>

definition last_with :: "('a \<Rightarrow> 'k) \<Rightarrow> 'a list \<Rightarrow> 'k \<Rightarrow> 'a option" where
  "last_with f xs k = map_of (rev (map (\<lambda>x. (f x, x)) xs)) k"

lemma last_with_None: "last_with f xs k = None \<longleftrightarrow> k \<notin> f ` set xs"
  by (auto simp: last_with_def map_of_eq_None_iff image_iff)

lemma last_with_Some: "last_with f xs k = Some x \<Longrightarrow> x \<in> set xs \<and> f x = k"
  unfolding last_with_def by (drule map_of_SomeD) auto

lemma map_of_rev_keys:
  assumes "inj c"
  shows "map_of (rev (map (\<lambda>x. (c (f x), g x)) xs)) (c k) = map_option g (last_with f xs k)"
  using assms
  by (induction xs rule: rev_induct) (auto simp: last_with_def inj_eq)

lemma index_puts_Ok:
  assumes "index_puts attrsToIndex info = Ok ps"
  obtains md p6 where "bi_metadata info = Some md" "BlockMetadataIndex_TRANSACTIONS_FILTER < length md"
    "validation_puts (flags_of_bytes (md ! BlockMetadataIndex_TRANSACTIONS_FILTER)) 0 (bi_txOffsets info) = Ok p6"
    "ps = (constructBlockHashKey (bi_blockHash info), flp_marshal (bi_flp info)) #
       (constructBlockNumKey (bi_blockNum info), flp_marshal (bi_flp info)) #
       map (\<lambda>t. (constructTxIDKey (ti_txID t), flp_marshal (tx_location (bi_flp info) t))) (bi_txOffsets info) @
       map (\<lambda>(i, t). (constructBlockNumTranNumKey (bi_blockNum info) (of_nat i), flp_marshal (tx_location (bi_flp info) t)))
         (enumerate 0 (bi_txOffsets info)) @
       map (\<lambda>t. (constructBlockTxIDKey (ti_txID t), flp_marshal (bi_flp info))) (bi_txOffsets info) @
       p6 @ [(indexCheckpointKey, encodeBlockNum (bi_blockNum info))]"
  using assms by (auto simp: index_puts_def go_res Let_def)

lemma validation_puts_eq:
  "validation_puts fl i ts = Ok p6 \<Longrightarrow>
     i + length ts \<le> length fl \<or> ts = [] \<and> p6 = []"
  by (induction ts arbitrary: i p6) (fastforce simp: go_res Flag_def)+

lemma validation_puts_map:
  "validation_puts fl i ts = Ok p6 \<Longrightarrow>
     p6 = map (\<lambda>(j, t). (constructTxValidationCodeIDKey (ti_txID t), [char_of (unat (fl ! j))])) (enumerate i ts)"
  by (induction ts arbitrary: i p6) (fastforce simp: go_res Flag_def)+

lemma indexBlock_get:
  assumes "ldb_laws L" and "indexBlock attrsToIndex L n d info = Ok d'"
  obtains ps where "index_puts attrsToIndex info = Ok ps"
    and "\<And>q. DBHandle_Get L n d' q =
      (case map_of (rev ps) q of None \<Rightarrow> DBHandle_Get L n d q | Some v \<Rightarrow> Ok (Some v))"
proof -
  from assms(2) obtain ps where ps: "index_puts attrsToIndex info = Ok ps"
      "DBHandle_WriteBatch L n d (go_map_of (map (\<lambda>(k, v). (k, Some v)) ps)) = Ok d'"
    by (auto simp: indexBlock_def go_res)
  let ?b = "go_map_of (map (\<lambda>(k, v). (k, Some v)) ps)"
  have dist: "distinct (map fst ?b)" by (rule distinct_go_map_of)
  obtain d1 where d1: "DBHandle_WriteBatch L n d ?b = Ok d1"
      "\<And>q. DBHandle_Get L n d1 q = (case map_of ?b q of None \<Rightarrow> DBHandle_Get L n d q | Some v \<Rightarrow> Ok v)"
    by (rule ldb_write_read [where n = n and d = d, OF assms(1) dist]) blast
  have "map_of ?b q = map_option Some (map_of (rev ps) q)" for q
    by (simp add: map_of_go_map_of rev_map map_of_map)
  with ps d1 have "DBHandle_Get L n d' q =
      (case map_of (rev ps) q of None \<Rightarrow> DBHandle_Get L n d q | Some v \<Rightarrow> Ok (Some v))" for q
    by (simp split: option.split)
  with ps(1) that show thesis by blast
qed

text \<open>
  The families of keys do not overlap, so a lookup sees only the assignments of its own family.
\<close>

lemma index_families:
  assumes "index_puts attrsToIndex info = Ok ps"
  shows "map_of (rev ps) indexCheckpointKey = Some (encodeBlockNum (bi_blockNum info))"
    and "map_of (rev ps) (constructBlockHashKey h) = (if h = bi_blockHash info then Some (flp_marshal (bi_flp info)) else None)"
    and "map_of (rev ps) (constructBlockNumKey k) = (if k = bi_blockNum info then Some (flp_marshal (bi_flp info)) else None)"
    and "map_of (rev ps) (constructTxIDKey txid) =
      map_option (\<lambda>t. flp_marshal (tx_location (bi_flp info) t)) (last_with ti_txID (bi_txOffsets info) txid)"
    and "map_of (rev ps) (constructBlockTxIDKey txid) =
      (if txid \<in> ti_txID ` set (bi_txOffsets info) then Some (flp_marshal (bi_flp info)) else None)"
proof -
  obtain p6 fl where p6: "validation_puts fl 0 (bi_txOffsets info) = Ok p6" and
    ps: "ps = [(constructBlockHashKey (bi_blockHash info), flp_marshal (bi_flp info))] @
       [(constructBlockNumKey (bi_blockNum info), flp_marshal (bi_flp info))] @
       map (\<lambda>t. (constructTxIDKey (ti_txID t), flp_marshal (tx_location (bi_flp info) t))) (bi_txOffsets info) @
       map (\<lambda>(i, t). (constructBlockNumTranNumKey (bi_blockNum info) (of_nat i), flp_marshal (tx_location (bi_flp info) t)))
         (enumerate 0 (bi_txOffsets info)) @
       map (\<lambda>t. (constructBlockTxIDKey (ti_txID t), flp_marshal (bi_flp info))) (bi_txOffsets info) @
       p6 @ [(indexCheckpointKey, encodeBlockNum (bi_blockNum info))]"
    (is "ps = ?h @ ?n @ ?t @ ?a @ ?b @ p6 @ ?c")
    by (rule index_puts_Ok [OF assms]) simp
  note v = validation_puts_map [OF p6]
  have none: "map_of (rev p) q = None" if "q \<notin> fst ` set p" for p :: "(bytes \<times> bytes) list" and q
    using that by (rule map_of_rev_None)
  show "map_of (rev ps) indexCheckpointKey = Some (encodeBlockNum (bi_blockNum info))"
    by (simp add: ps)
  have "map_of (rev ?n) (constructBlockHashKey h) = None" "map_of (rev ?t) (constructBlockHashKey h) = None" "map_of (rev ?a) (constructBlockHashKey h) = None" "map_of (rev ?b) (constructBlockHashKey h) = None" "map_of (rev p6) (constructBlockHashKey h) = None" "map_of (rev ?c) (constructBlockHashKey h) = None"
    by (rule none; use v in \<open>auto simp: index_keys\<close>)+
  then show "map_of (rev ps) (constructBlockHashKey h) = (if h = bi_blockHash info then Some (flp_marshal (bi_flp info)) else None)"
    unfolding ps map_of_rev_append by (simp only: option.case) (simp add: constructBlockHashKey_def)
  have "map_of (rev ?h) (constructBlockNumKey k) = None" "map_of (rev ?t) (constructBlockNumKey k) = None" "map_of (rev ?a) (constructBlockNumKey k) = None" "map_of (rev ?b) (constructBlockNumKey k) = None" "map_of (rev p6) (constructBlockNumKey k) = None" "map_of (rev ?c) (constructBlockNumKey k) = None"
    by (rule none; use v in \<open>auto simp: index_keys\<close>)+
  then show "map_of (rev ps) (constructBlockNumKey k) = (if k = bi_blockNum info then Some (flp_marshal (bi_flp info)) else None)"
    unfolding ps map_of_rev_append by (simp only: option.case) (simp add: constructBlockNumKey_def Encode_inj)
  have "map_of (rev ?h) (constructTxIDKey txid) = None" "map_of (rev ?n) (constructTxIDKey txid) = None" "map_of (rev ?a) (constructTxIDKey txid) = None" "map_of (rev ?b) (constructTxIDKey txid) = None" "map_of (rev p6) (constructTxIDKey txid) = None" "map_of (rev ?c) (constructTxIDKey txid) = None"
    by (rule none; use v in \<open>auto simp: index_keys\<close>)+
  moreover have "inj constructTxIDKey" by (simp add: inj_def constructTxIDKey_def)
  note map_of_rev_keys [OF this, of ti_txID "\<lambda>t. flp_marshal (tx_location (bi_flp info) t)" "bi_txOffsets info" txid]
  ultimately show "map_of (rev ps) (constructTxIDKey txid) =
      map_option (\<lambda>t. flp_marshal (tx_location (bi_flp info) t)) (last_with ti_txID (bi_txOffsets info) txid)"
    unfolding ps map_of_rev_append by (simp only: option.case) (simp split: option.split)
  have "map_of (rev ?h) (constructBlockTxIDKey txid) = None" "map_of (rev ?n) (constructBlockTxIDKey txid) = None" "map_of (rev ?t) (constructBlockTxIDKey txid) = None" "map_of (rev ?a) (constructBlockTxIDKey txid) = None" "map_of (rev p6) (constructBlockTxIDKey txid) = None" "map_of (rev ?c) (constructBlockTxIDKey txid) = None"
    by (rule none; use v in \<open>auto simp: index_keys\<close>)+
  moreover have "inj constructBlockTxIDKey" by (simp add: inj_def constructBlockTxIDKey_def)
  note map_of_rev_keys [OF this, of ti_txID "\<lambda>t. flp_marshal (bi_flp info)" "bi_txOffsets info" txid]
  ultimately show "map_of (rev ps) (constructBlockTxIDKey txid) =
      (if txid \<in> ti_txID ` set (bi_txOffsets info) then Some (flp_marshal (bi_flp info)) else None)"
    unfolding ps map_of_rev_append
    using last_with_None [of ti_txID "bi_txOffsets info" txid]
    by (simp only: option.case, cases "last_with ti_txID (bi_txOffsets info) txid") simp_all
qed

lemma TranNumKey_eq: "constructBlockNumTranNumKey k j = CHR ''a'' # ToBytes (Height k j)"
  by (simp add: constructBlockNumTranNumKey_def ToBytes_def)

lemma TranNumKey_inj:
  "constructBlockNumTranNumKey k j = constructBlockNumTranNumKey k' j' \<longleftrightarrow> k = k' \<and> j = j'"
  by (simp add: TranNumKey_eq ToBytes_inj)

lemma index_position_family:
  assumes "index_puts attrsToIndex info = Ok ps"
  shows "map_of (rev ps) (constructBlockNumTranNumKey k j) =
      map_of (rev (map (\<lambda>(i, t). (constructBlockNumTranNumKey (bi_blockNum info) (of_nat i),
        flp_marshal (tx_location (bi_flp info) t))) (enumerate 0 (bi_txOffsets info)))) (constructBlockNumTranNumKey k j)"
    and "map_of (rev ps) (constructTxValidationCodeIDKey txid) =
      map_option (\<lambda>(i, t). [char_of (unat (flags_of_bytes (slice (bi_metadata info) ! BlockMetadataIndex_TRANSACTIONS_FILTER) ! i))])
        (last_with (ti_txID \<circ> snd) (enumerate 0 (bi_txOffsets info)) txid)"
proof -
  let ?fl = "flags_of_bytes (slice (bi_metadata info) ! BlockMetadataIndex_TRANSACTIONS_FILTER)"
  obtain p6 where p6: "validation_puts ?fl 0 (bi_txOffsets info) = Ok p6" and
    ps: "ps = [(constructBlockHashKey (bi_blockHash info), flp_marshal (bi_flp info))] @
       [(constructBlockNumKey (bi_blockNum info), flp_marshal (bi_flp info))] @
       map (\<lambda>t. (constructTxIDKey (ti_txID t), flp_marshal (tx_location (bi_flp info) t))) (bi_txOffsets info) @
       map (\<lambda>(i, t). (constructBlockNumTranNumKey (bi_blockNum info) (of_nat i), flp_marshal (tx_location (bi_flp info) t)))
         (enumerate 0 (bi_txOffsets info)) @
       map (\<lambda>t. (constructBlockTxIDKey (ti_txID t), flp_marshal (bi_flp info))) (bi_txOffsets info) @
       p6 @ [(indexCheckpointKey, encodeBlockNum (bi_blockNum info))]"
    (is "ps = ?h @ ?n @ ?t @ ?a @ ?b @ p6 @ ?c")
    by (rule index_puts_Ok [OF assms]) simp
  note v = validation_puts_map [OF p6]
  have none: "map_of (rev p) q = None" if "q \<notin> fst ` set p" for p :: "(bytes \<times> bytes) list" and q
    using that by (rule map_of_rev_None)
  let ?k = "constructBlockNumTranNumKey k j"
  have "map_of (rev ?h) ?k = None" "map_of (rev ?n) ?k = None" "map_of (rev ?t) ?k = None"
    "map_of (rev ?b) ?k = None" "map_of (rev p6) ?k = None" "map_of (rev ?c) ?k = None"
    by (rule none; use v in \<open>auto simp: index_keys\<close>)+
  then show "map_of (rev ps) ?k = map_of (rev ?a) ?k"
    unfolding ps map_of_rev_append by (simp only: option.case) (simp split: option.split)
  let ?k = "constructTxValidationCodeIDKey txid"
  have "map_of (rev ?h) ?k = None" "map_of (rev ?n) ?k = None" "map_of (rev ?t) ?k = None"
    "map_of (rev ?a) ?k = None" "map_of (rev ?b) ?k = None" "map_of (rev ?c) ?k = None"
    by (rule none; auto simp: index_keys)+
  moreover have "inj constructTxValidationCodeIDKey" by (simp add: inj_def constructTxValidationCodeIDKey_def)
  note map_of_rev_keys [OF this, of "ti_txID \<circ> snd" "\<lambda>(i, t). [char_of (unat (?fl ! i))]" "enumerate 0 (bi_txOffsets info)" txid]
  moreover have "p6 = map (\<lambda>x. (constructTxValidationCodeIDKey ((ti_txID \<circ> snd) x), (case x of (i, t) \<Rightarrow> [char_of (unat (?fl ! i))])))
      (enumerate 0 (bi_txOffsets info))"
    unfolding v by (simp add: split_def)
  ultimately show "map_of (rev ps) ?k = map_option (\<lambda>(i, t). [char_of (unat (?fl ! i))])
      (last_with (ti_txID \<circ> snd) (enumerate 0 (bi_txOffsets info)) txid)"
    unfolding ps map_of_rev_append by (simp only: option.case) (simp split: option.split)
qed

lemma position_lookup:
  assumes "index_puts attrsToIndex info = Ok ps" and "length (bi_txOffsets info) < 2 ^ 64" and "i < length (bi_txOffsets info)"
  shows "map_of (rev ps) (constructBlockNumTranNumKey (bi_blockNum info) (of_nat i)) =
      Some (flp_marshal (tx_location (bi_flp info) (bi_txOffsets info ! i)))"
proof -
  let ?a = "map (\<lambda>(i, t). (constructBlockNumTranNumKey (bi_blockNum info) (of_nat i),
        flp_marshal (tx_location (bi_flp info) t))) (enumerate 0 (bi_txOffsets info))"
  have "unat (of_nat i :: uint64) = i" if "i < 2 ^ 64" for i
    using that by (simp add: unat_of_nat take_bit_nat_eq_self)
  then have word: "i = i'" if "i < 2 ^ 64" "i' < 2 ^ 64" "(of_nat i :: uint64) = of_nat i'" for i i'
    using that by metis
  have "map fst ?a = map (\<lambda>i. constructBlockNumTranNumKey (bi_blockNum info) (of_nat i)) [0..<length (bi_txOffsets info)]"
    by (rule nth_equalityI) (simp_all add: nth_enumerate_eq)
  moreover have "distinct (map (\<lambda>i. constructBlockNumTranNumKey (bi_blockNum info) (of_nat i)) [0..<length (bi_txOffsets info)])"
    using assms(2) word by (auto simp: distinct_map inj_on_def TranNumKey_inj)
  ultimately have "distinct (map fst ?a)" by simp
  then have "distinct (map fst (rev ?a))" by (simp only: rev_map [symmetric] distinct_rev)
  moreover have "(constructBlockNumTranNumKey (bi_blockNum info) (of_nat i),
      flp_marshal (tx_location (bi_flp info) (bi_txOffsets info ! i))) \<in> set (rev ?a)"
    using assms(3) by (force simp: in_set_enumerate_eq)
  ultimately have "map_of (rev ?a) (constructBlockNumTranNumKey (bi_blockNum info) (of_nat i)) =
      Some (flp_marshal (tx_location (bi_flp info) (bi_txOffsets info ! i)))"
    by (rule map_of_is_SomeI)
  then show "map_of (rev ps) (constructBlockNumTranNumKey (bi_blockNum info) (of_nat i)) =
      Some (flp_marshal (tx_location (bi_flp info) (bi_txOffsets info ! i)))"
    unfolding index_position_family(1) [OF assms(1)] .
qed

lemma DecodeVarint_whole: "fst (DecodeVarint (EncodeVarint x)) = x"
  using DecodeVarint_Encode [of x "[]"] by simp

lemma flag_byte: "int (unat (w :: 8 word) mod 256) = uint w"
proof -
  have "unat w < 2 ^ LENGTH(8)" by (rule unsigned_less)
  then show ?thesis by simp
qed

lemma index_lookups:
  assumes "ldb_laws L" and "indexBlock attrsToIndex L n d info = Ok d'" and "go_flp (bi_flp info)"
    and "\<forall>t \<in> set (bi_txOffsets info). go_flp (tx_location (bi_flp info) t)"
  shows "getLastBlockIndexed L n d' = Ok (bi_blockNum info)"
    and "getBlockLocByBlockNum attrsToIndex L n d' k =
      (if k = bi_blockNum info then Ok (bi_flp info) else getBlockLocByBlockNum attrsToIndex L n d k)"
    and "getBlockLocByHash attrsToIndex L n d' h =
      (if h = bi_blockHash info then Ok (bi_flp info) else getBlockLocByHash attrsToIndex L n d h)"
    and "getTxLoc attrsToIndex L n d' txid =
      (case last_with ti_txID (bi_txOffsets info) txid of
         None \<Rightarrow> getTxLoc attrsToIndex L n d txid | Some t \<Rightarrow> Ok (tx_location (bi_flp info) t))"
    and "getBlockLocByTxID attrsToIndex L n d' txid =
      (if txid \<in> ti_txID ` set (bi_txOffsets info) then Ok (bi_flp info) else getBlockLocByTxID attrsToIndex L n d txid)"
    and "getTxValidationCodeByTxID attrsToIndex L n d' txid =
      (case last_with (ti_txID \<circ> snd) (enumerate 0 (bi_txOffsets info)) txid of
         None \<Rightarrow> getTxValidationCodeByTxID attrsToIndex L n d txid
       | Some (i, t) \<Rightarrow> Ok (uint (flags_of_bytes (slice (bi_metadata info) ! BlockMetadataIndex_TRANSACTIONS_FILTER) ! i)))"
proof -
  obtain ps where ps: "index_puts attrsToIndex info = Ok ps" and
    get: "\<And>q. DBHandle_Get L n d' q = (case map_of (rev ps) q of None \<Rightarrow> DBHandle_Get L n d q | Some v \<Rightarrow> Ok (Some v))"
    by (rule indexBlock_get [OF assms(1,2)]) blast
  note fam = index_families [OF ps] index_position_family [OF ps]
  note flp = flp_unmarshal_marshal [OF assms(3)]
  show "getLastBlockIndexed L n d' = Ok (bi_blockNum info)"
    by (simp add: getLastBlockIndexed_def get fam decodeBlockNum_def encodeBlockNum_def DecodeVarint_whole)
  show "getBlockLocByBlockNum attrsToIndex L n d' k =
      (if k = bi_blockNum info then Ok (bi_flp info) else getBlockLocByBlockNum attrsToIndex L n d k)"
    by (simp add: getBlockLocByBlockNum_def lookup_loc_def get fam flp)
  show "getBlockLocByHash attrsToIndex L n d' h =
      (if h = bi_blockHash info then Ok (bi_flp info) else getBlockLocByHash attrsToIndex L n d h)"
    by (simp add: getBlockLocByHash_def lookup_loc_def get fam flp)
  show "getBlockLocByTxID attrsToIndex L n d' txid =
      (if txid \<in> ti_txID ` set (bi_txOffsets info) then Ok (bi_flp info) else getBlockLocByTxID attrsToIndex L n d txid)"
    by (simp add: getBlockLocByTxID_def lookup_loc_def get fam flp)
  show "getTxLoc attrsToIndex L n d' txid =
      (case last_with ti_txID (bi_txOffsets info) txid of
         None \<Rightarrow> getTxLoc attrsToIndex L n d txid | Some t \<Rightarrow> Ok (tx_location (bi_flp info) t))"
    using assms(4) last_with_Some [of ti_txID "bi_txOffsets info" txid]
    by (auto simp: getTxLoc_def lookup_loc_def get fam flp_unmarshal_marshal split: option.split)
  show "getTxValidationCodeByTxID attrsToIndex L n d' txid =
      (case last_with (ti_txID \<circ> snd) (enumerate 0 (bi_txOffsets info)) txid of
         None \<Rightarrow> getTxValidationCodeByTxID attrsToIndex L n d txid
       | Some (i, t) \<Rightarrow> Ok (uint (flags_of_bytes (slice (bi_metadata info) ! BlockMetadataIndex_TRANSACTIONS_FILTER) ! i)))"
    by (auto simp: getTxValidationCodeByTxID_def get fam flag_byte split: option.split)
qed

lemma index_position_lookup:
  assumes "ldb_laws L" and "indexBlock attrsToIndex L n d info = Ok d'" and "length (bi_txOffsets info) < 2 ^ 64"
    and "\<forall>t \<in> set (bi_txOffsets info). go_flp (tx_location (bi_flp info) t)" and "i < length (bi_txOffsets info)"
  shows "getTXLocByBlockNumTranNum attrsToIndex L n d' (bi_blockNum info) (of_nat i) =
    Ok (tx_location (bi_flp info) (bi_txOffsets info ! i))"
proof (rule indexBlock_get [OF assms(1,2)])
  fix ps
  assume "index_puts attrsToIndex info = Ok ps"
    "\<And>q. DBHandle_Get L n d' q = (case map_of (rev ps) q of None \<Rightarrow> DBHandle_Get L n d q | Some v \<Rightarrow> Ok (Some v))"
  with position_lookup(1) [OF _ assms(3,5)] assms(4,5) show ?thesis
    by (simp add: getTXLocByBlockNumTranNum_def lookup_loc_def flp_unmarshal_marshal)
qed

lemma index_position_frame:
  assumes "ldb_laws L" and "indexBlock attrsToIndex L n d info = Ok d'" and "k \<noteq> bi_blockNum info"
  shows "getTXLocByBlockNumTranNum attrsToIndex L n d' k j = getTXLocByBlockNumTranNum attrsToIndex L n d k j"
proof (rule indexBlock_get [OF assms(1,2)])
  fix ps
  assume *: "index_puts attrsToIndex info = Ok ps"
    "\<And>q. DBHandle_Get L n d' q = (case map_of (rev ps) q of None \<Rightarrow> DBHandle_Get L n d q | Some v \<Rightarrow> Ok (Some v))"
  have "map_of (rev ps) (constructBlockNumTranNumKey k j) = None"
    unfolding index_position_family(1) [OF *(1)] by (rule map_of_rev_None) (use assms(3) in \<open>auto simp: TranNumKey_inj\<close>)
  with * show ?thesis by (simp add: getTXLocByBlockNumTranNum_def lookup_loc_def)
qed

text \<open>
  The checkpoint of the block file manager is kept in the same database under a key that starts with
  the prefix of the fifth family.
\<close>

definition blkMgrInfoKey :: bytes where
  "blkMgrInfoKey = ''blkMgrInfo''"

lemma index_manager_key:
  assumes "ldb_laws L" and "indexBlock attrsToIndex L n d info = Ok d'"
  shows "DBHandle_Get L n d' blkMgrInfoKey =
    (if ''lkMgrInfo'' \<in> ti_txID ` set (bi_txOffsets info) then Ok (Some (flp_marshal (bi_flp info)))
     else DBHandle_Get L n d blkMgrInfoKey)"
proof (rule indexBlock_get [OF assms])
  fix ps
  have key: "blkMgrInfoKey = constructBlockTxIDKey ''lkMgrInfo''"
    by (simp add: blkMgrInfoKey_def constructBlockTxIDKey_def)
  assume *: "index_puts attrsToIndex info = Ok ps"
    "\<And>q. DBHandle_Get L n d' q = (case map_of (rev ps) q of None \<Rightarrow> DBHandle_Get L n d q | Some v \<Rightarrow> Ok (Some v))"
  show ?thesis unfolding key *(2) index_families(5) [OF *(1)] by simp
qed

end
