(* ===== verification/Block_Files.thy ===== *)
theory Block_Files
  imports Block_Index
begin

text \<open>
  The block file manager: \<open>fsblkstorage/blockfile_mgr.go\<close>, \<open>block_stream.go\<close>, \<open>blockfile_rw.go\<close>
  and \<open>fs_blockstore.go\<close>. Blocks are appended, each with its length in front, to numbered files; a
  checkpoint in LevelDB says where the last block ends, and the index where every block starts.

  \<^item> The directory of a ledger is a map from file numbers to contents. An append can fail after any
    number of bytes: the argument \<open>fault\<close> of \<open>addBlock\<close> says after how many. Other failures of the
    file system are not modelled.
  \<^item> The hash of a header, SHA-256 over ASN.1, is the field \<open>sc_hash\<close> of the configuration.
  \<^item> A \<open>Put\<close> to LevelDB is a write of a batch with one entry.
  \<^item> Readers that wait for new blocks (\<open>cpInfoCond\<close>, \<open>blocks_itr.go\<close>) are not modelled.

  The lemmas show that the manager refines a list of blocks, and what a restart finds.
\<close>

section \<open>The manager\<close>

record checkpointInfo =
  latestFileChunkSuffixNum :: int
  latestFileChunksize :: int
  isChainEmpty :: bool
  lastBlockNumber :: uint64

definition cp_marshal :: "checkpointInfo \<Rightarrow> bytes" where
  "cp_marshal i =
     EncodeVarint (word_of_int (latestFileChunkSuffixNum i)) @ EncodeVarint (word_of_int (latestFileChunksize i)) @
     EncodeVarint (lastBlockNumber i) @ EncodeVarint (if isChainEmpty i then 1 else 0)"

definition cp_unmarshal :: "bytes \<Rightarrow> (string, checkpointInfo) res" where
  "cp_unmarshal b =
     rbind (proto_DecodeVarint b) (\<lambda>(suffixNum, b1).
     rbind (proto_DecodeVarint b1) (\<lambda>(chunksize, b2).
     rbind (proto_DecodeVarint b2) (\<lambda>(lastNum, b3).
     rbind (proto_DecodeVarint b3) (\<lambda>(chainEmptyMarker, _).
     Ok \<lparr>latestFileChunkSuffixNum = sint suffixNum, latestFileChunksize = sint chunksize,
         isChainEmpty = (chainEmptyMarker = 1), lastBlockNumber = lastNum\<rparr>))))"

record BlockchainInfo =
  bc_Height :: uint64
  bc_CurrentBlockHash :: bytes
  bc_PreviousBlockHash :: bytes

type_synonym dir = "(int, bytes) gomap"

record 'd store_conf =
  sc_codec :: codec
  sc_hash :: "BlockHeader \<Rightarrow> bytes"
  sc_maxBlockfileSize :: int
  sc_items :: "IndexableAttr list"
  sc_L :: "'d leveldb"
  sc_dbName :: string

text \<open>The writer of the current file is given by the number of the file.\<close>

record 'd blockfileMgr =
  bm_dir :: dir
  bm_db :: 'd
  bm_cpInfo :: checkpointInfo
  bm_currentFileWriter :: int
  bm_bcInfo :: BlockchainInfo

text \<open>Go cannot encode numbers beyond the signed range.\<close>

definition BlockHeader_Hash :: "(BlockHeader \<Rightarrow> bytes) \<Rightarrow> BlockHeader \<Rightarrow> (string, bytes) res" where
  "BlockHeader_Hash hh b = (if unat (bh_Number b) > 2 ^ 63 - 1 then Panic else Ok (hh b))"

section \<open>Files\<close>

definition file_of :: "dir \<Rightarrow> int \<Rightarrow> bytes" where
  "file_of fs k = slice (map_of fs k)"

definition newBlockfileWriter :: "int \<Rightarrow> dir \<Rightarrow> dir" where
  "newBlockfileWriter k fs = (if map_of fs k = None then AList.update k [] fs else fs)"

definition truncateFile :: "int \<Rightarrow> int \<Rightarrow> dir \<Rightarrow> dir" where
  "truncateFile k targetSize fs =
     (if int (length (file_of fs k)) > targetSize
      then AList.update k (take (nat targetSize) (file_of fs k)) fs else fs)"

definition writer_append :: "int \<Rightarrow> bytes \<Rightarrow> dir \<Rightarrow> dir" where
  "writer_append k b fs = AList.update k (file_of fs k @ b) fs"

definition reader_read :: "dir \<Rightarrow> int \<Rightarrow> int \<Rightarrow> int \<Rightarrow> (string, bytes) res" where
  "reader_read fs k off len =
     (case map_of fs k of
        None \<Rightarrow> Err ''no such file''
      | Some f \<Rightarrow>
          if len < 0 then Panic
          else if off < 0 then Err ''negative offset''
          else if off + len > int (length f) then Err ''EOF''
          else Ok (take (nat len) (drop (nat off) f)))"

section \<open>Streams\<close>

definition ErrUnexpectedEndOfBlockfile :: string where
  "ErrUnexpectedEndOfBlockfile = ''unexpected end of blockfile''"

record blockfileStream =
  bs_fileNum :: int
  bs_file :: bytes
  bs_currentOffset :: int

record blockPlacementInfo =
  pi_fileNum :: int
  pi_blockStartOffset :: int
  pi_blockBytesOffset :: int

definition newBlockfileStream :: "dir \<Rightarrow> int \<Rightarrow> int \<Rightarrow> (string, blockfileStream) res" where
  "newBlockfileStream fs k startOffset =
     (case map_of fs k of
        None \<Rightarrow> Err ''no such file''
      | Some f \<Rightarrow>
          if startOffset < 0 then Err ''invalid argument''
          else Ok \<lparr>bs_fileNum = k, bs_file = f, bs_currentOffset = startOffset\<rparr>)"

text \<open>A nil block is \<open>None\<close>.\<close>

definition fileStream_next ::
    "blockfileStream \<Rightarrow> (string, (bytes \<times> blockPlacementInfo) option \<times> blockfileStream) res" where
  "fileStream_next s =
     (let fsize = int (length (bs_file s))
      in if bs_currentOffset s = fsize then Ok (None, s)
      else
        (let remainingBytes = fsize - bs_currentOffset s;
             moreContentAvailable = (remainingBytes \<ge> 8);
             peekBytes = (if remainingBytes < 8 then remainingBytes else 8)
         in if peekBytes < 0 then Err ''bufio: negative count''
         else
           (let lenBytes = take (nat peekBytes) (drop (nat (bs_currentOffset s)) (bs_file s));
                (len, n) = DecodeVarint lenBytes
            in if n = 0 then (if \<not> moreContentAvailable then Err ErrUnexpectedEndOfBlockfile else Panic)
            else
              (let bytesExpected = int n + sint len
               in if bytesExpected > remainingBytes then Err ErrUnexpectedEndOfBlockfile
               else
                 Ok (Some (take (unat len) (drop (nat (bs_currentOffset s) + n) (bs_file s)),
                           \<lparr>pi_fileNum = bs_fileNum s, pi_blockStartOffset = bs_currentOffset s,
                            pi_blockBytesOffset = bs_currentOffset s + int n\<rparr>),
                     s\<lparr>bs_currentOffset := bs_currentOffset s + int n + int (unat len)\<rparr>)))))"

definition fileStream_nextBlockBytes :: "blockfileStream \<Rightarrow> (string, bytes option \<times> blockfileStream) res" where
  "fileStream_nextBlockBytes s =
     rbind (fileStream_next s) (\<lambda>(r, s1). Ok (map_option fst r, s1))"

record blockStream =
  st_dir :: dir
  st_currentFileNum :: int
  st_endFileNum :: int
  st_currentFileStream :: blockfileStream

definition newBlockStream :: "dir \<Rightarrow> int \<Rightarrow> int \<Rightarrow> int \<Rightarrow> (string, blockStream) res" where
  "newBlockStream fs startFileNum startOffset endFileNum =
     rbind (newBlockfileStream fs startFileNum startOffset) (\<lambda>startFileStream.
     Ok \<lparr>st_dir = fs, st_currentFileNum = startFileNum, st_endFileNum = endFileNum,
         st_currentFileStream = startFileStream\<rparr>)"

definition moveToNextBlockfileStream :: "blockStream \<Rightarrow> (string, blockStream) res" where
  "moveToNextBlockfileStream s =
     (let num = st_currentFileNum s + 1
      in rbind (newBlockfileStream (st_dir s) num 0) (\<lambda>fs.
         Ok (s\<lparr>st_currentFileNum := num, st_currentFileStream := fs\<rparr>)))"

text \<open>A file that exists is opened once on the way up, so the recursion ends.\<close>

function blockStream_next ::
    "blockStream \<Rightarrow> (string, (bytes \<times> blockPlacementInfo) option \<times> blockStream) res" where
  "blockStream_next s =
     rbind (fileStream_next (st_currentFileStream s)) (\<lambda>(r, fs1).
     let s1 = s\<lparr>st_currentFileStream := fs1\<rparr>
     in if r = None \<and> (st_currentFileNum s < st_endFileNum s \<or> st_endFileNum s < 0)
        then rbind (moveToNextBlockfileStream s1) blockStream_next
        else Ok (r, s1))"
  by pat_completeness auto
termination
proof (relation "measure (\<lambda>s. length (filter (\<lambda>k. k > st_currentFileNum s) (map fst (st_dir s))))", goal_cases)
  case (2 s x r fs1 s1 s2)
  have shorter: "length (filter (\<lambda>k. k > c + 1) ks) < length (filter (\<lambda>k. k > c) ks)" if "c + 1 \<in> set ks" for c :: int and ks
    using that
  proof (induction ks)
    case (Cons k ks)
    have "length (filter (\<lambda>k. k > c + 1) ks) \<le> length (filter (\<lambda>k. k > c) ks)"
      by (induction ks) auto
    with Cons show ?case by (auto simp: less_Suc_eq_le)
  qed simp
  from 2 have "st_dir s2 = st_dir s" "st_currentFileNum s2 = st_currentFileNum s + 1"
      "map_of (st_dir s) (st_currentFileNum s + 1) \<noteq> None"
    by (auto simp: moveToNextBlockfileStream_def newBlockfileStream_def Let_def go_res split: option.splits if_splits)
  with shorter [of "st_currentFileNum s" "map fst (st_dir s)"] show ?case by (simp add: map_of_eq_None_iff)
qed simp

declare blockStream_next.simps [simp del]

text \<open>Every block read moves the stream on.\<close>

lemma fileStream_next_Some:
  assumes "fileStream_next s = Ok (Some x, s1)"
  shows "bs_file s1 = bs_file s \<and> bs_currentOffset s < int (length (bs_file s)) \<and> bs_currentOffset s < bs_currentOffset s1"
proof -
  have "0 < int m + uint w" if "0 < m" for m and w :: uint64
    using that unsigned_greater_eq [of w, where 'a = int] by linarith
  with assms show ?thesis by (auto simp: fileStream_next_def Let_def split: if_splits prod.splits)
qed

lemma fileStream_next_None:
  "fileStream_next s = Ok (None, s1) \<longleftrightarrow> s1 = s \<and> bs_currentOffset s = int (length (bs_file s))"
  by (auto simp: fileStream_next_def Let_def split: if_splits prod.splits)

definition unread :: "blockStream \<Rightarrow> nat" where
  "unread s = sum_list (map (length \<circ> snd) (filter (\<lambda>(k, f). k > st_currentFileNum s) (st_dir s))) +
     nat (int (length (bs_file (st_currentFileStream s))) - bs_currentOffset (st_currentFileStream s))"

lemma later_files:
  fixes c :: int
  assumes "map_of fs (c + 1) = Some f"
  shows "sum_list (map (length \<circ> snd) (filter (\<lambda>(k, f). k > c + 1) fs)) + length f \<le>
    sum_list (map (length \<circ> snd) (filter (\<lambda>(k, f). k > c) fs))"
  using assms
proof (induction fs)
  case (Cons e fs)
  have "sum_list (map (length \<circ> snd) (filter (\<lambda>(k, f). k > c + 1) fs)) \<le> sum_list (map (length \<circ> snd) (filter (\<lambda>(k, f). k > c) fs))"
    by (induction fs) auto
  with Cons show ?case by (cases e) (auto simp: comp_def split: if_splits)
qed simp

lemma blockStream_next_Some: "blockStream_next s = Ok (Some x, s1) \<Longrightarrow> unread s1 < unread s"
proof (induction s rule: blockStream_next.induct)
  case (1 s)
  from "1.prems" obtain r fs1 where r: "fileStream_next (st_currentFileStream s) = Ok (r, fs1)"
      "(let s1 = s\<lparr>st_currentFileStream := fs1\<rparr>
        in if r = None \<and> (st_currentFileNum s < st_endFileNum s \<or> st_endFileNum s < 0)
           then rbind (moveToNextBlockfileStream s1) blockStream_next else Ok (r, s1)) = Ok (Some x, s1)"
    by (subst (asm) blockStream_next.simps) (auto simp: go_res)
  show ?case
  proof (cases "r = None \<and> (st_currentFileNum s < st_endFileNum s \<or> st_endFileNum s < 0)")
    case True
    with r obtain s2 where s2: "moveToNextBlockfileStream (s\<lparr>st_currentFileStream := fs1\<rparr>) = Ok s2"
        "blockStream_next s2 = Ok (Some x, s1)"
      by (auto simp: go_res Let_def)
    then obtain f where "map_of (st_dir s) (st_currentFileNum s + 1) = Some f"
        "s2 = s\<lparr>st_currentFileNum := st_currentFileNum s + 1,
          st_currentFileStream := \<lparr>bs_fileNum = st_currentFileNum s + 1, bs_file = f, bs_currentOffset = 0\<rparr>\<rparr>"
      by (auto simp: moveToNextBlockfileStream_def newBlockfileStream_def Let_def go_res split: option.splits)
    with later_files [of "st_dir s" "st_currentFileNum s" f] have "unread s2 \<le> unread s" by (simp add: unread_def)
    moreover have "unread s1 < unread s2"
      using "1.IH" [OF r(1) refl refl True, of s2] s2 by simp
    ultimately show ?thesis by simp
  next
    case False
    with r have "r = Some x" "s1 = s\<lparr>st_currentFileStream := fs1\<rparr>" by (auto simp: Let_def split: if_splits)
    with fileStream_next_Some [of "st_currentFileStream s" x fs1] r(1) show ?thesis
      by (auto simp: unread_def)
  qed
qed

section \<open>The checkpoint\<close>

definition loadCurrentInfo :: "'d store_conf \<Rightarrow> 'd \<Rightarrow> (string, checkpointInfo option) res" where
  "loadCurrentInfo c d =
     rbind (DBHandle_Get (sc_L c) (sc_dbName c) d blkMgrInfoKey) (\<lambda>b.
     case b of None \<Rightarrow> Ok None | Some b \<Rightarrow> rbind (cp_unmarshal b) (\<lambda>i. Ok (Some i)))"

definition saveCurrentInfo :: "'d store_conf \<Rightarrow> checkpointInfo \<Rightarrow> 'd \<Rightarrow> (string, 'd) res" where
  "saveCurrentInfo c i d = DBHandle_WriteBatch (sc_L c) (sc_dbName c) d [(blkMgrInfoKey, Some (cp_marshal i))]"

text \<open>
  The loop of \<open>scanForLastCompleteBlock\<close>. A partial block at the end of the file ends the scan; any
  other error is reported.
\<close>

function scan_loop :: "blockfileStream \<Rightarrow> int \<Rightarrow> (string, int \<times> int) res" where
  "scan_loop s numBlocks =
     (case fileStream_next s of
        Ok (Some _, s1) \<Rightarrow> scan_loop s1 (numBlocks + 1)
      | Ok (None, s1) \<Rightarrow> Ok (bs_currentOffset s1, numBlocks)
      | Err e \<Rightarrow> if e = ErrUnexpectedEndOfBlockfile then Ok (bs_currentOffset s, numBlocks) else Err e
      | Panic \<Rightarrow> Panic)"
  by pat_completeness auto
termination
proof (relation "measure (\<lambda>(s, _). nat (int (length (bs_file s)) - bs_currentOffset s))", goal_cases)
  case (2 s num r)
  then show ?case using fileStream_next_Some [of s] by fastforce
qed simp

declare scan_loop.simps [simp del]

definition scanForLastCompleteBlock :: "dir \<Rightarrow> int \<Rightarrow> int \<Rightarrow> (string, int \<times> int) res" where
  "scanForLastCompleteBlock fs fileNum startingOffset =
     rbind (newBlockfileStream fs fileNum startingOffset) (\<lambda>blockStream. scan_loop blockStream 0)"

text \<open>An error of the scan is a panic.\<close>

definition syncCPInfoFromFS :: "dir \<Rightarrow> checkpointInfo \<Rightarrow> (string, checkpointInfo) res" where
  "syncCPInfoFromFS fs cpInfo =
     (case map_of fs (latestFileChunkSuffixNum cpInfo) of
        None \<Rightarrow> Ok cpInfo
      | Some f \<Rightarrow>
          if int (length f) = latestFileChunksize cpInfo then Ok cpInfo
          else
            (case scanForLastCompleteBlock fs (latestFileChunkSuffixNum cpInfo) (latestFileChunksize cpInfo) of
               Ok (endOffsetLastBlock, numBlocks) \<Rightarrow>
                 (let cp1 = cpInfo\<lparr>latestFileChunksize := endOffsetLastBlock\<rparr>
                  in if numBlocks = 0 then Ok cp1
                     else Ok (cp1\<lparr>lastBlockNumber := (if isChainEmpty cp1 then word_of_int (numBlocks - 1)
                                                      else lastBlockNumber cp1 + word_of_int numBlocks),
                                  isChainEmpty := False\<rparr>))
             | _ \<Rightarrow> Panic))"

section \<open>Adding a block\<close>

definition updateBlockchainInfo :: "bytes \<Rightarrow> Block \<Rightarrow> BlockchainInfo \<Rightarrow> BlockchainInfo" where
  "updateBlockchainInfo latestBlockHash latestBlock currentBCInfo =
     \<lparr>bc_Height = bc_Height currentBCInfo + 1, bc_CurrentBlockHash = latestBlockHash,
      bc_PreviousBlockHash = bh_PreviousHash (blk_Header latestBlock)\<rparr>"

text \<open>The new checkpoint leaves \<open>isChainEmpty\<close> at its zero value.\<close>

definition moveToNextFile :: "'d store_conf \<Rightarrow> 'd blockfileMgr \<Rightarrow> (string, 'd blockfileMgr) res" where
  "moveToNextFile c m =
     (let cpInfo = \<lparr>latestFileChunkSuffixNum = latestFileChunkSuffixNum (bm_cpInfo m) + 1, latestFileChunksize = 0,
                    isChainEmpty = False, lastBlockNumber = lastBlockNumber (bm_cpInfo m)\<rparr>;
          num = latestFileChunkSuffixNum cpInfo
      in (case saveCurrentInfo c cpInfo (bm_db m) of
            Ok d \<Rightarrow> Ok (m\<lparr>bm_dir := newBlockfileWriter num (bm_dir m), bm_db := d, bm_currentFileWriter := num,
                          bm_cpInfo := cpInfo\<rparr>)
          | _ \<Rightarrow> Panic))"

text \<open>
  The steps after the block is known to fit: append, save the checkpoint, index, and publish the new
  state. An error of the index is dropped by the code.
\<close>

definition append_block ::
    "'d store_conf \<Rightarrow> nat option \<Rightarrow> Block \<Rightarrow> bytes \<Rightarrow> serializedBlockInfo \<Rightarrow> bytes \<Rightarrow> int \<Rightarrow> 'd blockfileMgr \<Rightarrow>
      'd blockfileMgr \<times> (string, unit) res" where
  "append_block c fault block blockBytes info blockHash currentOffset m =
     (let blockBytesEncodedLen = EncodeVarint (of_nat (length blockBytes));
          content = blockBytesEncodedLen @ blockBytes;
          w = bm_currentFileWriter m; cp = bm_cpInfo m
      in case fault of
           Some j \<Rightarrow>
             (m\<lparr>bm_dir := truncateFile w (latestFileChunksize cp) (writer_append w (take j content) (bm_dir m))\<rparr>,
              Err ''Error while appending block to file'')
         | None \<Rightarrow>
             (let fs = writer_append w content (bm_dir m);
                  newCPInfo = \<lparr>latestFileChunkSuffixNum = latestFileChunkSuffixNum cp,
                               latestFileChunksize = latestFileChunksize cp + int (length content),
                               isChainEmpty = False, lastBlockNumber = bh_Number (blk_Header block)\<rparr>
              in case saveCurrentInfo c newCPInfo (bm_db m) of
                   Panic \<Rightarrow> (m\<lparr>bm_dir := fs\<rparr>, Panic)
                 | Err _ \<Rightarrow> (m\<lparr>bm_dir := truncateFile w (latestFileChunksize cp) fs\<rparr>,
                             Err ''Error while saving current file info to db'')
                 | Ok d \<Rightarrow>
                     (let blockFLP = \<lparr>fileSuffixNum = latestFileChunkSuffixNum newCPInfo,
                                      flp_loc = \<lparr>offset = currentOffset, bytesLength = 0\<rparr>\<rparr>;
                          txOffsets = map (\<lambda>t. t\<lparr>ti_loc := (ti_loc t)\<lparr>offset := offset (ti_loc t) +
                                        int (length blockBytesEncodedLen)\<rparr>\<rparr>) (si_txOffsets info);
                          idx = \<lparr>bi_blockNum = bh_Number (blk_Header block), bi_blockHash = blockHash, bi_flp = blockFLP,
                                 bi_txOffsets = txOffsets, bi_metadata = blk_Metadata block\<rparr>;
                          publish = (\<lambda>d. m\<lparr>bm_dir := fs, bm_db := d, bm_cpInfo := newCPInfo,
                                           bm_bcInfo := updateBlockchainInfo blockHash block (bm_bcInfo m)\<rparr>)
                      in case indexBlock (sc_items c) (sc_L c) (sc_dbName c) d idx of
                           Panic \<Rightarrow> (m\<lparr>bm_dir := fs, bm_db := d\<rparr>, Panic)
                         | Err _ \<Rightarrow> (publish d, Ok ())
                         | Ok d1 \<Rightarrow> (publish d1, Ok ()))))"

definition addBlock ::
    "'d store_conf \<Rightarrow> nat option \<Rightarrow> Block \<Rightarrow> 'd blockfileMgr \<Rightarrow> 'd blockfileMgr \<times> (string, unit) res" where
  "addBlock c fault block m =
     (if bh_Number (blk_Header block) \<noteq> bc_Height (bm_bcInfo m) then (m, Err ''Block number should have been the height'')
      else case serializeBlock (sc_codec c) block of
        Panic \<Rightarrow> (m, Panic)
      | Err _ \<Rightarrow> (m, Err ''Error while serializing block'')
      | Ok (blockBytes, info) \<Rightarrow>
          (case BlockHeader_Hash (sc_hash c) (blk_Header block) of
             Ok blockHash \<Rightarrow>
               (let currentOffset = latestFileChunksize (bm_cpInfo m);
                    totalBytesToAppend = int (length blockBytes + length (EncodeVarint (of_nat (length blockBytes))))
                in if currentOffset + totalBytesToAppend > sc_maxBlockfileSize c
                   then (case moveToNextFile c m of
                           Ok m1 \<Rightarrow> append_block c fault block blockBytes info blockHash 0 m1
                         | _ \<Rightarrow> (m, Panic))
                   else append_block c fault block blockBytes info blockHash currentOffset m)
           | _ \<Rightarrow> (m, Panic)))"

section \<open>Retrieving\<close>

definition fetchBlockBytes :: "dir \<Rightarrow> fileLocPointer \<Rightarrow> (string, bytes option) res" where
  "fetchBlockBytes fs lp =
     rbind (newBlockfileStream fs (fileSuffixNum lp) (offset (flp_loc lp))) (\<lambda>stream.
     rbind (fileStream_nextBlockBytes stream) (\<lambda>(b, _). Ok b))"

definition fetchBlock :: "'d store_conf \<Rightarrow> dir \<Rightarrow> fileLocPointer \<Rightarrow> (string, Block) res" where
  "fetchBlock c fs lp =
     rbind (fetchBlockBytes fs lp) (\<lambda>b. deserializeBlock (sc_codec c) (slice b))"

definition fetchRawBytes :: "dir \<Rightarrow> fileLocPointer \<Rightarrow> (string, bytes) res" where
  "fetchRawBytes fs lp = reader_read fs (fileSuffixNum lp) (offset (flp_loc lp)) (bytesLength (flp_loc lp))"

definition fetchTransactionEnvelope :: "'d store_conf \<Rightarrow> dir \<Rightarrow> fileLocPointer \<Rightarrow> (string, Envelope) res" where
  "fetchTransactionEnvelope c fs lp =
     rbind (fetchRawBytes fs lp) (\<lambda>txEnvelopeBytes.
     let (_, n) = DecodeVarint txEnvelopeBytes
     in GetEnvelopeFromBlock (sc_codec c) (drop n txEnvelopeBytes))"

definition retrieveBlockByHash :: "'d store_conf \<Rightarrow> 'd blockfileMgr \<Rightarrow> bytes \<Rightarrow> (string, Block) res" where
  "retrieveBlockByHash c m blockHash =
     rbind (getBlockLocByHash (sc_items c) (sc_L c) (sc_dbName c) (bm_db m) blockHash) (\<lambda>loc. fetchBlock c (bm_dir m) loc)"

definition retrieveBlockByNumber :: "'d store_conf \<Rightarrow> 'd blockfileMgr \<Rightarrow> uint64 \<Rightarrow> (string, Block) res" where
  "retrieveBlockByNumber c m blockNum =
     (let blockNum = (if blockNum = - 1 then bc_Height (bm_bcInfo m) - 1 else blockNum)
      in rbind (getBlockLocByBlockNum (sc_items c) (sc_L c) (sc_dbName c) (bm_db m) blockNum) (\<lambda>loc.
         fetchBlock c (bm_dir m) loc))"

definition retrieveBlockByTxID :: "'d store_conf \<Rightarrow> 'd blockfileMgr \<Rightarrow> string \<Rightarrow> (string, Block) res" where
  "retrieveBlockByTxID c m txID =
     rbind (getBlockLocByTxID (sc_items c) (sc_L c) (sc_dbName c) (bm_db m) txID) (\<lambda>loc. fetchBlock c (bm_dir m) loc)"

definition retrieveTxValidationCodeByTxID :: "'d store_conf \<Rightarrow> 'd blockfileMgr \<Rightarrow> string \<Rightarrow> (string, TxValidationCode) res" where
  "retrieveTxValidationCodeByTxID c m txID = getTxValidationCodeByTxID (sc_items c) (sc_L c) (sc_dbName c) (bm_db m) txID"

definition retrieveTransactionByID :: "'d store_conf \<Rightarrow> 'd blockfileMgr \<Rightarrow> string \<Rightarrow> (string, Envelope) res" where
  "retrieveTransactionByID c m txID =
     rbind (getTxLoc (sc_items c) (sc_L c) (sc_dbName c) (bm_db m) txID) (\<lambda>loc. fetchTransactionEnvelope c (bm_dir m) loc)"

definition retrieveTransactionByBlockNumTranNum ::
    "'d store_conf \<Rightarrow> 'd blockfileMgr \<Rightarrow> uint64 \<Rightarrow> uint64 \<Rightarrow> (string, Envelope) res" where
  "retrieveTransactionByBlockNumTranNum c m blockNum tranNum =
     rbind (getTXLocByBlockNumTranNum (sc_items c) (sc_L c) (sc_dbName c) (bm_db m) blockNum tranNum) (\<lambda>loc.
     fetchTransactionEnvelope c (bm_dir m) loc)"

definition retrieveBlockHeaderByNumber :: "'d store_conf \<Rightarrow> dir \<Rightarrow> 'd \<Rightarrow> uint64 \<Rightarrow> (string, BlockHeader) res" where
  "retrieveBlockHeaderByNumber c fs d blockNum =
     rbind (getBlockLocByBlockNum (sc_items c) (sc_L c) (sc_dbName c) d blockNum) (\<lambda>loc.
     rbind (fetchBlockBytes fs loc) (\<lambda>blockBytes.
     rbind (extractSerializedBlockInfo (sc_codec c) (slice blockBytes)) (\<lambda>info.
     Ok (si_blockHeader info))))"

section \<open>Starting\<close>

text \<open>
  The loop of \<open>syncIndex\<close>: what it has indexed stays in the database when it fails, and
  \<open>newBlockfileMgr\<close> drops the error.
\<close>

function sync_loop :: "'d store_conf \<Rightarrow> blockStream \<Rightarrow> 'd \<Rightarrow> 'd \<times> (string, unit) res" where
  "sync_loop c s d =
     (case blockStream_next s of
        Err e \<Rightarrow> (d, Err e)
      | Panic \<Rightarrow> (d, Panic)
      | Ok (None, _) \<Rightarrow> (d, Ok ())
      | Ok (Some (blockBytes, placement), s1) \<Rightarrow>
          (case extractSerializedBlockInfo (sc_codec c) blockBytes of
             Err e \<Rightarrow> (d, Err e)
           | Panic \<Rightarrow> (d, Panic)
           | Ok info \<Rightarrow>
               (case BlockHeader_Hash (sc_hash c) (si_blockHeader info) of
                  Ok blockHash \<Rightarrow>
                    (let numBytesToShift = pi_blockBytesOffset placement - pi_blockStartOffset placement;
                         idx = \<lparr>bi_blockNum = bh_Number (si_blockHeader info), bi_blockHash = blockHash,
                                bi_flp = \<lparr>fileSuffixNum = pi_fileNum placement,
                                  flp_loc = \<lparr>offset = pi_blockStartOffset placement, bytesLength = 0\<rparr>\<rparr>,
                                bi_txOffsets = map (\<lambda>t. t\<lparr>ti_loc := (ti_loc t)\<lparr>offset := offset (ti_loc t) + numBytesToShift\<rparr>\<rparr>)
                                  (si_txOffsets info),
                                bi_metadata = si_metadata info\<rparr>
                     in (case indexBlock (sc_items c) (sc_L c) (sc_dbName c) d idx of
                           Err e \<Rightarrow> (d, Err e)
                         | Panic \<Rightarrow> (d, Panic)
                         | Ok d1 \<Rightarrow> sync_loop c s1 d1))
                | _ \<Rightarrow> (d, Panic))))"
  by pat_completeness auto
termination
  by (relation "measure (\<lambda>(c, s, d). unread s)") (auto dest: blockStream_next_Some)

declare sync_loop.simps [simp del]

definition syncIndex :: "'d store_conf \<Rightarrow> checkpointInfo \<Rightarrow> dir \<Rightarrow> 'd \<Rightarrow> 'd \<times> (string, unit) res" where
  "syncIndex c cpInfo fs d =
     (let endFileNum = latestFileChunkSuffixNum cpInfo;
          start = (case getLastBlockIndexed (sc_L c) (sc_dbName c) d of
                     Ok lastBlockIndexed \<Rightarrow>
                       rbind (getBlockLocByBlockNum (sc_items c) (sc_L c) (sc_dbName c) d lastBlockIndexed) (\<lambda>flp.
                       rbind (newBlockStream fs (fileSuffixNum flp) (offset (flp_loc flp)) endFileNum) (\<lambda>stream.
                       rbind (blockStream_next stream) (\<lambda>(r, stream1).
                       case r of None \<Rightarrow> Err ''block bytes should not be nil here'' | Some _ \<Rightarrow> Ok stream1)))
                   | Err e \<Rightarrow> if e = errIndexEmpty then newBlockStream fs 0 0 endFileNum else Err e
                   | Panic \<Rightarrow> Panic)
      in (case start of Err e \<Rightarrow> (d, Err e) | Panic \<Rightarrow> (d, Panic) | Ok stream \<Rightarrow> sync_loop c stream d))"

definition newBlockfileMgr :: "'d store_conf \<Rightarrow> dir \<Rightarrow> 'd \<Rightarrow> (string, 'd blockfileMgr) res" where
  "newBlockfileMgr c fs d =
     (case loadCurrentInfo c d of
        Ok loaded \<Rightarrow>
          (let cp0 = \<lparr>latestFileChunkSuffixNum = 0, latestFileChunksize = 0, isChainEmpty = True, lastBlockNumber = 0\<rparr>
           in case (case loaded of Some cp \<Rightarrow> Ok (cp, d) | None \<Rightarrow> rbind (saveCurrentInfo c cp0 d) (\<lambda>d1. Ok (cp0, d1))) of
                Ok (cp, d1) \<Rightarrow>
                  rbind (syncCPInfoFromFS fs cp) (\<lambda>cpInfo.
                  let num = latestFileChunkSuffixNum cpInfo;
                      fs1 = truncateFile num (latestFileChunksize cpInfo) (newBlockfileWriter num fs);
                      (d2, synced) = syncIndex c cpInfo fs1 d1
                  in if synced = Panic then Panic
                     else
                       (let m = (\<lambda>bc. \<lparr>bm_dir = fs1, bm_db = d2, bm_cpInfo = cpInfo, bm_currentFileWriter = num, bm_bcInfo = bc\<rparr>)
                        in if isChainEmpty cpInfo
                           then Ok (m \<lparr>bc_Height = 0, bc_CurrentBlockHash = [], bc_PreviousBlockHash = []\<rparr>)
                           else (case retrieveBlockHeaderByNumber c fs1 d2 (lastBlockNumber cpInfo) of
                                   Ok hdr \<Rightarrow>
                                     rbind (BlockHeader_Hash (sc_hash c) hdr) (\<lambda>lastBlockHash.
                                     Ok (m \<lparr>bc_Height = lastBlockNumber cpInfo + 1, bc_CurrentBlockHash = lastBlockHash,
                                            bc_PreviousBlockHash = bh_PreviousHash hdr\<rparr>))
                                 | _ \<Rightarrow> Panic)))
              | _ \<Rightarrow> Panic)
      | _ \<Rightarrow> Panic)"

section \<open>The block store\<close>

text \<open>The exported operations; the state of \<open>fsBlockStore\<close> is that of its file manager.\<close>

definition newFsBlockStore :: "'d store_conf \<Rightarrow> dir \<Rightarrow> 'd \<Rightarrow> (string, 'd blockfileMgr) res" where
  "newFsBlockStore c fs d = newBlockfileMgr c fs d"

definition AddBlock ::
    "'d store_conf \<Rightarrow> nat option \<Rightarrow> Block \<Rightarrow> 'd blockfileMgr \<Rightarrow> 'd blockfileMgr \<times> (string, unit) res" where
  "AddBlock c fault block store = addBlock c fault block store"

definition GetBlockchainInfo :: "'d blockfileMgr \<Rightarrow> BlockchainInfo" where
  "GetBlockchainInfo store = bm_bcInfo store"

definition RetrieveBlockByHash :: "'d store_conf \<Rightarrow> 'd blockfileMgr \<Rightarrow> bytes \<Rightarrow> (string, Block) res" where
  "RetrieveBlockByHash c store blockHash = retrieveBlockByHash c store blockHash"

definition RetrieveBlockByNumber :: "'d store_conf \<Rightarrow> 'd blockfileMgr \<Rightarrow> uint64 \<Rightarrow> (string, Block) res" where
  "RetrieveBlockByNumber c store blockNum = retrieveBlockByNumber c store blockNum"

definition RetrieveTxByID :: "'d store_conf \<Rightarrow> 'd blockfileMgr \<Rightarrow> string \<Rightarrow> (string, Envelope) res" where
  "RetrieveTxByID c store txID = retrieveTransactionByID c store txID"

definition RetrieveTxByBlockNumTranNum ::
    "'d store_conf \<Rightarrow> 'd blockfileMgr \<Rightarrow> uint64 \<Rightarrow> uint64 \<Rightarrow> (string, Envelope) res" where
  "RetrieveTxByBlockNumTranNum c store blockNum tranNum = retrieveTransactionByBlockNumTranNum c store blockNum tranNum"

definition RetrieveBlockByTxID :: "'d store_conf \<Rightarrow> 'd blockfileMgr \<Rightarrow> string \<Rightarrow> (string, Block) res" where
  "RetrieveBlockByTxID c store txID = retrieveBlockByTxID c store txID"

definition RetrieveTxValidationCodeByTxID :: "'d store_conf \<Rightarrow> 'd blockfileMgr \<Rightarrow> string \<Rightarrow> (string, TxValidationCode) res" where
  "RetrieveTxValidationCodeByTxID c store txID = retrieveTxValidationCodeByTxID c store txID"

lemmas block_store_api =
  newFsBlockStore_def AddBlock_def GetBlockchainInfo_def RetrieveBlockByHash_def RetrieveBlockByNumber_def RetrieveTxByID_def
  RetrieveTxByBlockNumTranNum_def RetrieveBlockByTxID_def RetrieveTxValidationCodeByTxID_def

end
