(* ===== verification/Block_Store.thy ===== *)
theory Block_Store
  imports Block_Files
begin

text \<open>
  The block store as a list of blocks. The files of a store are described by the blocks they hold, in
  order; an entry is a block with the file and the offset where it starts. The lemmas show that a block
  is read back from its entry, that adding a block keeps the description and that a restart restores
  it after a crash at any point of the addition.
\<close>

section \<open>Blocks in files\<close>

definition block_bytes :: "'d store_conf \<Rightarrow> Block \<Rightarrow> bytes" where
  "block_bytes c b = fst (the_ok (serializeBlock (sc_codec c) b))"

definition block_info :: "'d store_conf \<Rightarrow> Block \<Rightarrow> serializedBlockInfo" where
  "block_info c b = snd (the_ok (serializeBlock (sc_codec c) b))"

definition len_bytes :: "'d store_conf \<Rightarrow> Block \<Rightarrow> bytes" where
  "len_bytes c b = EncodeVarint (of_nat (length (block_bytes c b)))"

definition framed :: "'d store_conf \<Rightarrow> Block \<Rightarrow> bytes" where
  "framed c b = len_bytes c b @ block_bytes c b"

text \<open>
  The stream peeks at eight bytes for the length of a block, so a block has fewer than \<open>2 ^ 56\<close> bytes;
  a header with a number beyond the signed range has no hash.
\<close>

definition storable :: "'d store_conf \<Rightarrow> Block \<Rightarrow> bool" where
  "storable c b \<longleftrightarrow> serializeBlock (sc_codec c) b = Ok (block_bytes c b, block_info c b) \<and>
     length (block_bytes c b) < 2 ^ 56 \<and> unat (bh_Number (blk_Header b)) \<le> 2 ^ 63 - 1"

lemma storableI:
  assumes "serializeBlock (sc_codec c) b = Ok (bs, info)" and "length bs < 2 ^ 56" and "unat (bh_Number (blk_Header b)) \<le> 2 ^ 63 - 1"
  shows "storable c b" "block_bytes c b = bs" "block_info c b = info"
  using assms by (simp_all add: storable_def block_bytes_def block_info_def)

lemma serializeBlock_info:
  "serializeBlock pc b = Ok (bs, info) \<Longrightarrow> si_blockHeader info = blk_Header b \<and> si_metadata info = blk_Metadata b"
  by (auto simp: serializeBlock_def go_res)

lemma storable_read_back:
  assumes "storable c b"
  shows "deserializeBlock (sc_codec c) (block_bytes c b) = Ok b"
    and "extractSerializedBlockInfo (sc_codec c) (block_bytes c b) = Ok (block_info c b)"
    and "list_all2 (located (sc_codec c) (block_bytes c b)) (blk_Data b) (si_txOffsets (block_info c b))"
    and "si_blockHeader (block_info c b) = blk_Header b" and "si_metadata (block_info c b) = blk_Metadata b"
proof -
  from assms have *: "serializeBlock (sc_codec c) b = Ok (block_bytes c b, block_info c b)" "length (block_bytes c b) < 2 ^ 63"
    by (auto simp: storable_def)
  from deserialize_serialize [OF *] serialize_located [OF *(1)] *(1)
  show "deserializeBlock (sc_codec c) (block_bytes c b) = Ok b"
    "extractSerializedBlockInfo (sc_codec c) (block_bytes c b) = Ok (block_info c b)"
    "list_all2 (located (sc_codec c) (block_bytes c b)) (blk_Data b) (si_txOffsets (block_info c b))"
    by blast+
  from serializeBlock_info [OF *(1)]
  show "si_blockHeader (block_info c b) = blk_Header b" "si_metadata (block_info c b) = blk_Metadata b" by blast+
qed

lemma SizeVarint_bound: "unat x < 128 ^ k \<Longrightarrow> 0 < k \<Longrightarrow> SizeVarint x \<le> k"
proof (induction k arbitrary: x)
  case (Suc k)
  show ?case
  proof (cases "drop_bit 7 x = 0")
    case True
    then show ?thesis by (simp add: SizeVarint.simps [of x])
  next
    case False
    then have "0 < k" using Suc.prems by (cases k) (auto simp: drop_seven_zero word_less_nat_alt)
    moreover have "unat x div 128 < 128 ^ k"
      using Suc.prems(1) by (intro less_mult_imp_div_less) (simp add: mult.commute)
    then have "unat (drop_bit 7 x) < 128 ^ k" by (simp add: drop_bit_eq_div unat_div)
    ultimately have "SizeVarint (drop_bit 7 x) \<le> k" using Suc.IH by blast
    with False show ?thesis by (simp add: SizeVarint.simps [of x])
  qed
qed simp

lemma len_bytes_short:
  assumes "storable c b"
  shows "0 < length (len_bytes c b)" "length (len_bytes c b) \<le> 8"
    "unat (of_nat (length (block_bytes c b)) :: uint64) = length (block_bytes c b)"
proof -
  have len: "length (block_bytes c b) < 2 ^ 56" using assms by (simp add: storable_def)
  then show unat: "unat (of_nat (length (block_bytes c b)) :: uint64) = length (block_bytes c b)"
    by (simp add: unat_of_nat take_bit_nat_eq_self)
  show "0 < length (len_bytes c b)" by (simp add: len_bytes_def length_EncodeVarint)
  have "unat (of_nat (length (block_bytes c b)) :: uint64) < 128 ^ 8" using len unfolding unat by simp
  then show "length (len_bytes c b) \<le> 8"
    unfolding len_bytes_def length_EncodeVarint by (rule SizeVarint_bound) simp
qed

text \<open>The varint of a block's length can be read from the peeked bytes.\<close>

lemma decode_len:
  assumes "storable c b"
  shows "DecodeVarint (take 8 (framed c b @ r)) = (of_nat (length (block_bytes c b)), length (len_bytes c b))"
proof -
  have "take 8 (framed c b @ r) = len_bytes c b @ take (8 - length (len_bytes c b)) (block_bytes c b @ r)"
    using len_bytes_short(2) [OF assms] by (simp add: framed_def)
  then show ?thesis by (simp only: len_bytes_def DecodeVarint_Encode)
qed

lemma fileStream_next_eq:
  assumes "off < int (length f)" and "rem = int (length f) - off" and "peek = (if rem < 8 then rem else 8)"
    and "DecodeVarint (take (nat peek) (drop (nat off) f)) = (len, m)" and "0 < m" and "int m + sint len \<le> rem"
  shows "fileStream_next \<lparr>bs_fileNum = k, bs_file = f, bs_currentOffset = off\<rparr> =
    Ok (Some (take (unat len) (drop (nat off + m) f),
          \<lparr>pi_fileNum = k, pi_blockStartOffset = off, pi_blockBytesOffset = off + int m\<rparr>),
        \<lparr>bs_fileNum = k, bs_file = f, bs_currentOffset = off + int m + int (unat len)\<rparr>)"
proof -
  have "fileStream_next \<lparr>bs_fileNum = k, bs_file = f, bs_currentOffset = off\<rparr> =
      (let (len, n) = DecodeVarint (take (nat peek) (drop (nat off) f))
       in if n = 0 then (if \<not> rem \<ge> 8 then Err ErrUnexpectedEndOfBlockfile else Panic)
          else if int n + sint len > rem then Err ErrUnexpectedEndOfBlockfile
          else Ok (Some (take (unat len) (drop (nat off + n) f),
            \<lparr>pi_fileNum = k, pi_blockStartOffset = off, pi_blockBytesOffset = off + int n\<rparr>),
            \<lparr>bs_fileNum = k, bs_file = f, bs_currentOffset = off + int n + int (unat len)\<rparr>))"
    using assms(1-3) by (simp add: fileStream_next_def Let_def cong: if_cong)
  with assms(4-6) show ?thesis by (simp add: Let_def)
qed

lemma fileStream_next_block:
  assumes "storable c b" and "0 \<le> off" and "nat off \<le> length f" and "drop (nat off) f = framed c b @ r"
  shows "fileStream_next \<lparr>bs_fileNum = k, bs_file = f, bs_currentOffset = off\<rparr> =
    Ok (Some (block_bytes c b, \<lparr>pi_fileNum = k, pi_blockStartOffset = off, pi_blockBytesOffset = off + int (length (len_bytes c b))\<rparr>),
      \<lparr>bs_fileNum = k, bs_file = f, bs_currentOffset = off + int (length (framed c b))\<rparr>)"
proof -
  note short = len_bytes_short [OF assms(1)]
  have f: "int (length f) - off = int (length (framed c b @ r))"
    using assms(2,3) by (simp flip: assms(4))
  have pos: "0 < length (framed c b)" using short(1) by (simp add: framed_def)
  have peek: "take (nat (if int (length f) - off < 8 then int (length f) - off else 8)) (drop (nat off) f) = take 8 (framed c b @ r)"
    unfolding assms(4) f by auto
  have len: "sint (of_nat (length (block_bytes c b)) :: uint64) = int (length (block_bytes c b))"
    using assms(1) by (intro sint_length) (simp add: storable_def)
  have body: "take (length (block_bytes c b)) (drop (nat off + length (len_bytes c b)) f) = block_bytes c b"
    using assms(4) by (simp add: framed_def flip: drop_drop add.commute [of "length _"])
  have "0 < int (length f) - off" unfolding f length_append using pos by linarith
  then have 1: "off < int (length f)" by simp
  have 2: "DecodeVarint (take (nat (if int (length f) - off < 8 then int (length f) - off else 8)) (drop (nat off) f)) =
      (of_nat (length (block_bytes c b)), length (len_bytes c b))"
    unfolding peek by (rule decode_len [OF assms(1)])
  have 3: "int (length (len_bytes c b)) + sint (of_nat (length (block_bytes c b)) :: uint64) \<le> int (length f) - off"
    unfolding f len by (simp add: framed_def)
  show ?thesis
    using fileStream_next_eq [OF 1 refl refl 2 short(1) 3, of k] body short(3) by (simp add: framed_def add.assoc)
qed

lemma decode_loop_partial:
  "j < length (EncodeVarint y) \<Longrightarrow> decode_varint_loop (take j (EncodeVarint y)) s x n = (0, 0)"
proof (induction y arbitrary: j s x n rule: EncodeVarint.induct)
  case (1 y)
  show ?case
  proof (cases j)
    case 0
    then show ?thesis by (simp add: decode_varint_loop.simps [of "[]"])
  next
    case (Suc i)
    with "1.prems" have "y > 127" by (auto simp: EncodeVarint.simps [of y] split: if_splits)
    with "1.prems" "1.IH" Suc varint_byte(1) [of y] show ?thesis
      by (simp add: EncodeVarint.simps [of y] decode_varint_loop.simps [of "_ # _"] Let_def)
  qed
qed

text \<open>A partial block at the end of a file is recognised.\<close>

lemma fileStream_next_partial:
  assumes "storable c b" and "0 \<le> off" and "nat off \<le> length f" and "drop (nat off) f = take j (framed c b)"
    and "0 < j" and "j < length (framed c b)"
  shows "fileStream_next \<lparr>bs_fileNum = k, bs_file = f, bs_currentOffset = off\<rparr> = Err ErrUnexpectedEndOfBlockfile"
proof -
  let ?rem = "int (length f) - off" and ?peek = "if int (length f) - off < 8 then int (length f) - off else 8"
  have rem: "?rem = int j" using assms(2,3,6) arg_cong [OF assms(4), of length] by simp
  have peek: "take (nat ?peek) (drop (nat off) f) = take (min 8 j) (framed c b)"
    unfolding assms(4) rem by (simp add: min_def)
  obtain len m where dec: "DecodeVarint (take (min 8 j) (framed c b)) = (len, m)" by fastforce
  have eq: "fileStream_next \<lparr>bs_fileNum = k, bs_file = f, bs_currentOffset = off\<rparr> =
      (if m = 0 then (if \<not> ?rem \<ge> 8 then Err ErrUnexpectedEndOfBlockfile else Panic)
       else if int m + sint len > ?rem then Err ErrUnexpectedEndOfBlockfile
       else Ok (Some (take (unat len) (drop (nat off + m) f),
            \<lparr>pi_fileNum = k, pi_blockStartOffset = off, pi_blockBytesOffset = off + int m\<rparr>),
            \<lparr>bs_fileNum = k, bs_file = f, bs_currentOffset = off + int m + int (unat len)\<rparr>))"
    using rem assms(5) dec unfolding peek [symmetric]
    by (simp add: fileStream_next_def Let_def cong: if_cong)
  show ?thesis
  proof (cases "length (len_bytes c b) \<le> j")
    case True
    have "length (len_bytes c b) \<le> min 8 j" using True len_bytes_short(2) [OF assms(1)] by simp
    then have "take (min 8 j) (framed c b) = len_bytes c b @ take (min 8 j - length (len_bytes c b)) (block_bytes c b)"
      by (simp add: framed_def)
    then have "DecodeVarint (take (min 8 j) (framed c b)) = (of_nat (length (block_bytes c b)), length (len_bytes c b))"
      by (simp only: len_bytes_def DecodeVarint_Encode)
    with dec have "len = of_nat (length (block_bytes c b))" "m = length (len_bytes c b)" by simp_all
    moreover have "sint (of_nat (length (block_bytes c b)) :: uint64) = int (length (block_bytes c b))"
      using assms(1) by (intro sint_length) (simp add: storable_def)
    ultimately show ?thesis
      unfolding eq rem using assms(6) len_bytes_short(1) [OF assms(1)] by (simp add: framed_def)
  next
    case False
    then have "j < 8" "take (min 8 j) (framed c b) = take j (len_bytes c b)"
      using len_bytes_short(2) [OF assms(1)] by (simp_all add: framed_def)
    moreover have "DecodeVarint (take j (EncodeVarint x)) = (0, 0)" if "j < length (EncodeVarint x)" for x
      using decode_loop_partial [OF that] by (simp add: DecodeVarint_def)
    ultimately have "m = 0" using dec False by (simp add: len_bytes_def)
    with \<open>j < 8\<close> show ?thesis unfolding eq rem by simp
  qed
qed

section \<open>Scanning files\<close>

definition contents :: "'d store_conf \<Rightarrow> Block list \<Rightarrow> bytes" where
  "contents c bs = concat (map (framed c) bs)"

lemma contents_simps [simp]:
  "contents c [] = []" "contents c (b # bs) = framed c b @ contents c bs" "contents c (bs @ bs') = contents c bs @ contents c bs'"
  by (simp_all add: contents_def)

text \<open>What a crash can leave behind the last complete block.\<close>

definition torn :: "'d store_conf \<Rightarrow> bytes \<Rightarrow> bool" where
  "torn c t \<longleftrightarrow> t = [] \<or> (\<exists>b j. storable c b \<and> 0 < j \<and> j < length (framed c b) \<and> t = take j (framed c b))"

lemma scan_loop_blocks:
  assumes "list_all (storable c) bs" and "0 \<le> off" and "nat off \<le> length f"
    and "drop (nat off) f = contents c bs @ t" and "torn c t"
  shows "scan_loop \<lparr>bs_fileNum = k, bs_file = f, bs_currentOffset = off\<rparr> num =
    Ok (off + int (length (contents c bs)), num + int (length bs))"
  using assms
proof (induction bs arbitrary: off num)
  case Nil
  show ?case
  proof (cases "t = []")
    case True
    with Nil have "off = int (length f)" by simp
    then have "fileStream_next \<lparr>bs_fileNum = k, bs_file = f, bs_currentOffset = off\<rparr> =
        Ok (None, \<lparr>bs_fileNum = k, bs_file = f, bs_currentOffset = off\<rparr>)" by (simp add: fileStream_next_None)
    then show ?thesis by (simp add: scan_loop.simps)
  next
    case False
    with Nil obtain b j where b: "storable c b" "0 < j" "j < length (framed c b)" "drop (nat off) f = take j (framed c b)"
      by (auto simp: torn_def)
    from fileStream_next_partial [OF b(1) Nil.prems(2,3) b(4,2,3), of k] show ?thesis by (simp add: scan_loop.simps)
  qed
next
  case (Cons b bs)
  then have b: "storable c b" "drop (nat off) f = framed c b @ (contents c bs @ t)" by simp_all
  let ?off = "off + int (length (framed c b))"
  have nat: "nat ?off = nat off + length (framed c b)" using Cons.prems(2) by (simp add: nat_add_distrib)
  have rest: "drop (nat ?off) f = contents c bs @ t"
    unfolding nat using b(2) by (simp add: add.commute [of "nat off"] flip: drop_drop)
  have le: "nat ?off \<le> length f"
    unfolding nat using Cons.prems(3) arg_cong [OF b(2), of length] by simp
  have "scan_loop \<lparr>bs_fileNum = k, bs_file = f, bs_currentOffset = ?off\<rparr> (num + 1) =
      Ok (?off + int (length (contents c bs)), (num + 1) + int (length bs))"
    using Cons.prems(1,2,5) le rest by (intro Cons.IH) simp_all
  with fileStream_next_block [OF b(1) Cons.prems(2,3) b(2), of k] show ?case
    by (simp add: scan_loop.simps [of "\<lparr>bs_fileNum = k, bs_file = f, bs_currentOffset = off\<rparr>"] add_ac)
qed

section \<open>Reading all files\<close>

type_synonym block_entry = "int \<times> int \<times> Block"

fun entries_file :: "'d store_conf \<Rightarrow> int \<Rightarrow> int \<Rightarrow> Block list \<Rightarrow> block_entry list" where
  "entries_file c k off [] = []"
| "entries_file c k off (b # bs) = (k, off, b) # entries_file c k (off + int (length (framed c b))) bs"

fun entries_from :: "'d store_conf \<Rightarrow> int \<Rightarrow> Block list list \<Rightarrow> block_entry list" where
  "entries_from c k [] = []"
| "entries_from c k (ch # chs) = entries_file c k 0 ch @ entries_from c (k + 1) chs"

definition stream_at :: "dir \<Rightarrow> int \<Rightarrow> int \<Rightarrow> bytes \<Rightarrow> int \<Rightarrow> blockStream" where
  "stream_at fs k e f off =
     \<lparr>st_dir = fs, st_currentFileNum = k, st_endFileNum = e,
      st_currentFileStream = \<lparr>bs_fileNum = k, bs_file = f, bs_currentOffset = off\<rparr>\<rparr>"

lemma stream_block:
  assumes "storable c b" and "0 \<le> off" and "nat off \<le> length f" and "drop (nat off) f = framed c b @ r"
  shows "blockStream_next (stream_at fs k e f off) =
    Ok (Some (block_bytes c b, \<lparr>pi_fileNum = k, pi_blockStartOffset = off, pi_blockBytesOffset = off + int (length (len_bytes c b))\<rparr>),
      stream_at fs k e f (off + int (length (framed c b))))"
  using fileStream_next_block [OF assms, of k]
  by (subst blockStream_next.simps) (simp add: stream_at_def Let_def)

lemma stream_next_file:
  assumes "off = int (length f)" and "k < e" and "map_of fs (k + 1) = Some f'"
  shows "blockStream_next (stream_at fs k e f off) = blockStream_next (stream_at fs (k + 1) e f' 0)"
proof -
  have "fileStream_next \<lparr>bs_fileNum = k, bs_file = f, bs_currentOffset = off\<rparr> =
      Ok (None, \<lparr>bs_fileNum = k, bs_file = f, bs_currentOffset = off\<rparr>)" using assms(1) by (simp add: fileStream_next_None)
  with assms(2,3) show ?thesis
    by (subst blockStream_next.simps)
      (simp add: stream_at_def Let_def moveToNextBlockfileStream_def newBlockfileStream_def)
qed

lemma stream_end:
  assumes "off = int (length f)" and "0 \<le> k"
  shows "blockStream_next (stream_at fs k k f off) = Ok (None, stream_at fs k k f off)"
proof -
  have "fileStream_next \<lparr>bs_fileNum = k, bs_file = f, bs_currentOffset = off\<rparr> =
      Ok (None, \<lparr>bs_fileNum = k, bs_file = f, bs_currentOffset = off\<rparr>)" using assms(1) by (simp add: fileStream_next_None)
  with assms(2) show ?thesis by (subst blockStream_next.simps) (simp add: stream_at_def Let_def)
qed

text \<open>What both \<open>addBlock\<close> and \<open>syncIndex\<close> hand to the index for an entry.\<close>

fun idx_info :: "'d store_conf \<Rightarrow> block_entry \<Rightarrow> blockIdxInfo" where
  "idx_info c (k, off, b) =
     \<lparr>bi_blockNum = bh_Number (blk_Header b), bi_blockHash = sc_hash c (blk_Header b),
      bi_flp = \<lparr>fileSuffixNum = k, flp_loc = \<lparr>offset = off, bytesLength = 0\<rparr>\<rparr>,
      bi_txOffsets = map (\<lambda>t. t\<lparr>ti_loc := (ti_loc t)\<lparr>offset := offset (ti_loc t) + int (length (len_bytes c b))\<rparr>\<rparr>)
        (si_txOffsets (block_info c b)),
      bi_metadata = blk_Metadata b\<rparr>"

definition index_entry :: "'d store_conf \<Rightarrow> block_entry \<Rightarrow> 'd \<Rightarrow> (string, 'd) res" where
  "index_entry c e d = indexBlock (sc_items c) (sc_L c) (sc_dbName c) d (idx_info c e)"

fun index_all :: "'d store_conf \<Rightarrow> block_entry list \<Rightarrow> 'd \<Rightarrow> (string, 'd) res" where
  "index_all c [] d = Ok d"
| "index_all c (e # es) d = rbind (index_entry c e d) (index_all c es)"

lemma index_all_append: "index_all c (es @ es') d = rbind (index_all c es d) (index_all c es')"
proof (induction es arbitrary: d)
  case (Cons e es)
  then show ?case by (cases "index_entry c e d") simp_all
qed simp

lemma sync_loop_step:
  assumes "storable c b" and "0 \<le> off" and "nat off \<le> length f" and "drop (nat off) f = framed c b @ r"
    and "index_entry c (k, off, b) d = Ok d1"
  shows "sync_loop c (stream_at fs k e f off) d = sync_loop c (stream_at fs k e f (off + int (length (framed c b)))) d1"
proof -
  have "BlockHeader_Hash (sc_hash c) (blk_Header b) = Ok (sc_hash c (blk_Header b))"
    using assms(1) by (simp add: BlockHeader_Hash_def storable_def)
  with stream_block [OF assms(1-4), of fs k e] storable_read_back [OF assms(1)] assms(5) show ?thesis
    by (subst sync_loop.simps) (simp add: index_entry_def Let_def)
qed

lemma sync_loop_file:
  assumes "list_all (storable c) ch" and "0 \<le> off" and "nat off \<le> length f" and "drop (nat off) f = contents c ch"
    and "index_all c (entries_file c k off ch) d = Ok d1"
  shows "sync_loop c (stream_at fs k e f off) d = sync_loop c (stream_at fs k e f (int (length f))) d1"
  using assms
proof (induction ch arbitrary: off d)
  case Nil
  then have "off = int (length f)" by simp
  with Nil show ?case by simp
next
  case (Cons b ch)
  then obtain d2 where d2: "index_entry c (k, off, b) d = Ok d2" "index_all c (entries_file c k (off + int (length (framed c b))) ch) d2 = Ok d1"
    by (auto simp: go_res)
  from Cons.prems have b: "storable c b" "drop (nat off) f = framed c b @ contents c ch" by simp_all
  have nat: "nat (off + int (length (framed c b))) = nat off + length (framed c b)"
    using Cons.prems(2) by (simp add: nat_add_distrib)
  have "sync_loop c (stream_at fs k e f (off + int (length (framed c b)))) d2 = sync_loop c (stream_at fs k e f (int (length f))) d1"
  proof (rule Cons.IH)
    show "drop (nat (off + int (length (framed c b)))) f = contents c ch"
      unfolding nat using b(2) by (simp add: add.commute [of "nat off"] flip: drop_drop)
    show "nat (off + int (length (framed c b))) \<le> length f"
      unfolding nat using Cons.prems(3) arg_cong [OF b(2), of length] by simp
  qed (use Cons.prems d2 in simp_all)
  with sync_loop_step [OF b(1) Cons.prems(2,3) b(2) d2(1)] show ?case by simp
qed

lemma sync_loop_cong: "blockStream_next s = blockStream_next s' \<Longrightarrow> sync_loop c s d = sync_loop c s' d"
  by (subst (1 2) sync_loop.simps) simp

definition files_at :: "'d store_conf \<Rightarrow> dir \<Rightarrow> int \<Rightarrow> Block list list \<Rightarrow> bool" where
  "files_at c fs k chs \<longleftrightarrow> (\<forall>i < length chs. map_of fs (k + int i) = Some (contents c (chs ! i)))"

lemma files_at_Cons: "files_at c fs k (ch # chs) \<longleftrightarrow> map_of fs k = Some (contents c ch) \<and> files_at c fs (k + 1) chs"
  by (auto simp: files_at_def less_Suc_eq_0_disj add.assoc)

lemma sync_loop_files:
  assumes "files_at c fs (k + 1) chs" and "list_all (list_all (storable c)) chs" and "0 \<le> k"
    and "index_all c (entries_from c (k + 1) chs) d = Ok d1"
  shows "sync_loop c (stream_at fs k (k + int (length chs)) f (int (length f))) d = (d1, Ok ())"
  using assms
proof (induction chs arbitrary: k f d)
  case Nil
  then show ?case using stream_end [of "int (length f)" f k fs] by (subst sync_loop.simps) simp
next
  case (Cons ch chs)
  let ?e = "k + int (length (ch # chs))"
  from Cons.prems(1) have f: "map_of fs (k + 1) = Some (contents c ch)" "files_at c fs (k + 1 + 1) chs"
    by (simp_all add: files_at_Cons)
  from Cons.prems(4) obtain d2 where d2: "index_all c (entries_file c (k + 1) 0 ch) d = Ok d2"
      "index_all c (entries_from c (k + 1 + 1) chs) d2 = Ok d1"
    by (auto simp: index_all_append go_res)
  have "sync_loop c (stream_at fs k ?e f (int (length f))) d = sync_loop c (stream_at fs (k + 1) ?e (contents c ch) 0) d"
    by (rule sync_loop_cong, rule stream_next_file [OF refl _ f(1)]) simp
  also have "\<dots> = sync_loop c (stream_at fs (k + 1) ?e (contents c ch) (int (length (contents c ch)))) d2"
    using Cons.prems(2) d2(1) by (intro sync_loop_file) simp_all
  also have "?e = (k + 1) + int (length chs)" by simp
  also have "sync_loop c (stream_at fs (k + 1) \<dots> (contents c ch) (int (length (contents c ch)))) d2 = (d1, Ok ())"
    using Cons.prems f(2) d2(2) by (intro Cons.IH) simp_all
  finally show ?case by (simp add: add.assoc)
qed

section \<open>The database\<close>

definition store_ok :: "'d store_conf \<Rightarrow> bool" where
  "store_ok c \<longleftrightarrow> ldb_laws (sc_L c) \<and> sc_items c = attrsToIndex \<and> sc_maxBlockfileSize c < 2 ^ 62"

abbreviation getc :: "'d store_conf \<Rightarrow> 'd \<Rightarrow> bytes \<Rightarrow> (string, bytes option) res" where
  "getc c d \<equiv> DBHandle_Get (sc_L c) (sc_dbName c) d"

lemma save_effect:
  assumes "store_ok c"
  obtains d' where "saveCurrentInfo c i d = Ok d'" and "getc c d' blkMgrInfoKey = Ok (Some (cp_marshal i))"
    and "\<And>q. q \<noteq> blkMgrInfoKey \<Longrightarrow> getc c d' q = getc c d q"
proof -
  have "ldb_laws (sc_L c)" using assms by (simp add: store_ok_def)
  then show thesis
    by (rule ldb_write_read [where kvs = "[(blkMgrInfoKey, Some (cp_marshal i))]" and n = "sc_dbName c" and d = d])
      (use that in \<open>simp_all add: saveCurrentInfo_def\<close>)
qed

definition go_cp :: "checkpointInfo \<Rightarrow> bool" where
  "go_cp i \<longleftrightarrow> go_int (latestFileChunkSuffixNum i) \<and> go_int (latestFileChunksize i)"

lemma cp_unmarshal_marshal: "go_cp i \<Longrightarrow> cp_unmarshal (cp_marshal i) = Ok i"
  using proto_DecodeVarint_Encode [of "if isChainEmpty i then 1 else 0" "[]"]
  by (cases "isChainEmpty i")
    (simp_all add: cp_unmarshal_def cp_marshal_def proto_DecodeVarint_Encode sint_word_of_int go_cp_def)

lemma load_saved: "getc c d blkMgrInfoKey = Ok (Some (cp_marshal i)) \<Longrightarrow> go_cp i \<Longrightarrow> loadCurrentInfo c d = Ok (Some i)"
  by (simp add: loadCurrentInfo_def cp_unmarshal_marshal)

text \<open>A block has a validation flag for each of its transactions.\<close>

definition indexable :: "Block \<Rightarrow> bool" where
  "indexable b \<longleftrightarrow> blk_Metadata b \<noteq> None \<and> BlockMetadataIndex_TRANSACTIONS_FILTER < length (slice (blk_Metadata b)) \<and>
     length (blk_Data b) \<le> length (slice (blk_Metadata b) ! BlockMetadataIndex_TRANSACTIONS_FILTER)"

lemma validation_puts_total: "i + length ts \<le> length fl \<Longrightarrow> \<exists>ps. validation_puts fl i ts = Ok ps"
proof (induction ts arbitrary: i)
  case (Cons t ts)
  from Cons.IH [of "i + 1"] Cons.prems obtain ps where "validation_puts fl (i + 1) ts = Ok ps" by auto
  with Cons.prems show ?case by (simp add: Flag_def index_def)
qed simp

lemma index_entry_defined:
  assumes "store_ok c" and "storable c b" and "indexable b"
  shows "\<exists>d'. index_entry c (k, off, b) d = Ok d'"
proof -
  obtain md where md: "blk_Metadata b = Some md" "BlockMetadataIndex_TRANSACTIONS_FILTER < length md"
      "length (blk_Data b) \<le> length (md ! BlockMetadataIndex_TRANSACTIONS_FILTER)"
    using assms(3) by (auto simp: indexable_def)
  have "length (si_txOffsets (block_info c b)) = length (blk_Data b)"
    using storable_read_back(3) [OF assms(2)] by (simp add: list_all2_lengthD)
  then obtain p6 where "validation_puts (flags_of_bytes (md ! BlockMetadataIndex_TRANSACTIONS_FILTER)) 0
      (bi_txOffsets (idx_info c (k, off, b))) = Ok p6"
    using validation_puts_total [of 0 "bi_txOffsets (idx_info c (k, off, b))"
        "flags_of_bytes (md ! BlockMetadataIndex_TRANSACTIONS_FILTER)"] md(3)
    by (auto simp: flags_of_bytes_def)
  with md obtain ps where ps: "index_puts attrsToIndex (idx_info c (k, off, b)) = Ok ps"
    by (auto simp: index_puts_def index_def Let_def)
  have "ldb_laws (sc_L c)" using assms(1) by (simp add: store_ok_def)
  then obtain d' where "DBHandle_WriteBatch (sc_L c) (sc_dbName c) d (go_map_of (map (\<lambda>(k, v). (k, Some v)) ps)) = Ok d'"
    by (rule ldb_write_read [OF _ distinct_go_map_of])
  with ps assms(1) show ?thesis by (simp add: index_entry_def indexBlock_def store_ok_def)
qed

section \<open>The index of a list of entries\<close>

fun entry_number :: "block_entry \<Rightarrow> uint64" where
  "entry_number (k, off, b) = bh_Number (blk_Header b)"

fun entry_data :: "block_entry \<Rightarrow> bytes list" where
  "entry_data (k, off, b) = blk_Data b"

fun entry_flags :: "block_entry \<Rightarrow> TxValidationFlags" where
  "entry_flags (k, off, b) = tx_flags b"

definition block_ids :: "'d store_conf \<Rightarrow> Block \<Rightarrow> string set" where
  "block_ids c b = ti_txID ` set (si_txOffsets (block_info c b))"

text \<open>No transaction id may reach the key of the checkpoint.\<close>

fun good_entry :: "'d store_conf \<Rightarrow> block_entry \<Rightarrow> bool" where
  "good_entry c (k, off, b) \<longleftrightarrow> storable c b \<and> indexable b \<and> 0 \<le> k \<and> k < 2 ^ 62 \<and> 0 \<le> off \<and>
     off + int (length (framed c b)) < 2 ^ 62 \<and> ''lkMgrInfo'' \<notin> block_ids c b"

definition entry_locs :: "'d store_conf \<Rightarrow> block_entry \<Rightarrow> (string \<times> fileLocPointer) list" where
  "entry_locs c e = map (\<lambda>t. (ti_txID t, tx_location (bi_flp (idx_info c e)) t)) (bi_txOffsets (idx_info c e))"

definition entry_codes :: "'d store_conf \<Rightarrow> block_entry \<Rightarrow> (string \<times> TxValidationCode) list" where
  "entry_codes c e = map (\<lambda>(i, t). (ti_txID t, uint (entry_flags e ! i))) (enumerate 0 (bi_txOffsets (idx_info c e)))"

definition indexed :: "'d store_conf \<Rightarrow> 'd \<Rightarrow> block_entry \<Rightarrow> bool" where
  "indexed c d e \<longleftrightarrow>
     getBlockLocByBlockNum attrsToIndex (sc_L c) (sc_dbName c) d (entry_number e) = Ok (bi_flp (idx_info c e)) \<and>
     (\<forall>i < length (entry_data e). getTXLocByBlockNumTranNum attrsToIndex (sc_L c) (sc_dbName c) d (entry_number e) (of_nat i) =
        Ok (tx_location (bi_flp (idx_info c e)) (bi_txOffsets (idx_info c e) ! i)))"

definition entry_ids :: "'d store_conf \<Rightarrow> block_entry \<Rightarrow> string set" where
  "entry_ids c e = ti_txID ` set (bi_txOffsets (idx_info c e))"

lemma entry_ids_block: "entry_ids c (k, off, b) = block_ids c b"
  by (simp add: entry_ids_def block_ids_def image_image)

definition index_rel :: "'d store_conf \<Rightarrow> 'd \<Rightarrow> block_entry list \<Rightarrow> bool" where
  "index_rel c d es \<longleftrightarrow>
     (\<forall>e \<in> set es. indexed c d e) \<and>
     (\<forall>k. k \<notin> entry_number ` set es \<longrightarrow>
        getBlockLocByBlockNum attrsToIndex (sc_L c) (sc_dbName c) d k = Err ErrNotFoundInIndex) \<and>
     (\<forall>h. getBlockLocByHash attrsToIndex (sc_L c) (sc_dbName c) d h =
        or_err ErrNotFoundInIndex (map_option (\<lambda>e. bi_flp (idx_info c e)) (find (\<lambda>e. bi_blockHash (idx_info c e) = h) (rev es)))) \<and>
     (\<forall>txid. txid \<noteq> ''lkMgrInfo'' \<longrightarrow> getBlockLocByTxID attrsToIndex (sc_L c) (sc_dbName c) d txid =
        or_err ErrNotFoundInIndex (map_option (\<lambda>e. bi_flp (idx_info c e)) (find (\<lambda>e. txid \<in> entry_ids c e) (rev es)))) \<and>
     (\<forall>txid. getTxLoc attrsToIndex (sc_L c) (sc_dbName c) d txid =
        or_err ErrNotFoundInIndex (map_of (rev (concat (map (entry_locs c) es))) txid)) \<and>
     (\<forall>txid. getTxValidationCodeByTxID attrsToIndex (sc_L c) (sc_dbName c) d txid =
        or_err ErrNotFoundInIndex (map_of (rev (concat (map (entry_codes c) es))) txid)) \<and>
     getLastBlockIndexed (sc_L c) (sc_dbName c) d = (if es = [] then Err errIndexEmpty else Ok (entry_number (last es)))"

lemma mgr_key_distinct:
  "constructBlockNumKey x \<noteq> blkMgrInfoKey" "constructBlockNumTranNumKey x y \<noteq> blkMgrInfoKey"
  "constructTxIDKey s \<noteq> blkMgrInfoKey" "constructTxValidationCodeIDKey s \<noteq> blkMgrInfoKey" "indexCheckpointKey \<noteq> blkMgrInfoKey"
  "constructBlockHashKey h \<noteq> blkMgrInfoKey" "txid \<noteq> ''lkMgrInfo'' \<Longrightarrow> constructBlockTxIDKey txid \<noteq> blkMgrInfoKey"
  by (simp_all add: index_keys blkMgrInfoKey_def)

lemma index_rel_cong:
  assumes "\<And>q. q \<noteq> blkMgrInfoKey \<Longrightarrow> getc c d' q = getc c d q"
  shows "index_rel c d' es = index_rel c d es"
  by (simp add: index_rel_def indexed_def getBlockLocByBlockNum_def getBlockLocByHash_def getBlockLocByTxID_def getTXLocByBlockNumTranNum_def getTxLoc_def
      getTxValidationCodeByTxID_def getLastBlockIndexed_def lookup_loc_def assms mgr_key_distinct)

lemma good_entry_flps:
  assumes "good_entry c e"
  shows "go_flp (bi_flp (idx_info c e))" "\<forall>t \<in> set (bi_txOffsets (idx_info c e)). go_flp (tx_location (bi_flp (idx_info c e)) t)"
    "length (bi_txOffsets (idx_info c e)) = length (entry_data e)" "length (entry_data e) < 2 ^ 64"
proof -
  obtain k off b where e: "e = (k, off, b)" by (metis surj_pair)
  with assms have b: "storable c b" "0 \<le> k" "k < 2 ^ 62" "0 \<le> off" "off + int (length (framed c b)) < 2 ^ 62" by simp_all
  note loc = storable_read_back(3) [OF b(1)]
  show "go_flp (bi_flp (idx_info c e))" using b by (simp add: e go_flp_def go_int_def)
  show "length (bi_txOffsets (idx_info c e)) = length (entry_data e)"
    using loc by (simp add: e list_all2_lengthD)
  have "go_flp (tx_location (bi_flp (idx_info c e)) (t\<lparr>ti_loc := (ti_loc t)\<lparr>offset := offset (ti_loc t) + int (length (len_bytes c b))\<rparr>\<rparr>))"
    if t: "t \<in> set (si_txOffsets (block_info c b))" for t
  proof -
    from loc t obtain env where "located (sc_codec c) (block_bytes c b) env t"
      by (auto simp: list_all2_conv_all_nth in_set_conv_nth)
    then obtain u v where "block_bytes c b = u @ EncodeRawBytes env @ v" "offset (ti_loc t) = int (length u)"
        "bytesLength (ti_loc t) = int (length (EncodeRawBytes env))"
      by (auto simp: located_def)
    then show ?thesis
      using b by (simp add: e go_flp_def go_int_def tx_location_def newFileLocationPointer_def framed_def)
  qed
  then show "\<forall>t \<in> set (bi_txOffsets (idx_info c e)). go_flp (tx_location (bi_flp (idx_info c e)) t)"
    by (simp add: e)
  have "length (blk_Data b) \<le> length (concat (map EncodeRawBytes (blk_Data b)))" by (rule items_bound)
  also have "\<dots> \<le> length (block_bytes c b)"
  proof -
    have "serializeBlock (sc_codec c) b = Ok (block_bytes c b, block_info c b)" using b(1) by (simp add: storable_def)
    then show ?thesis by (rule serializeBlock_parts) simp
  qed
  also have "\<dots> < 2 ^ 56" using b(1) by (simp add: storable_def)
  finally show "length (entry_data e) < 2 ^ 64" by (simp add: e)
qed

lemma idx_number: "bi_blockNum (idx_info c e) = entry_number e"
  by (cases e rule: prod_cases3) simp

lemma idx_flags: "flags_of_bytes (slice (bi_metadata (idx_info c e)) ! BlockMetadataIndex_TRANSACTIONS_FILTER) = entry_flags e"
  by (cases e rule: prod_cases3) (simp add: tx_flags_def)

lemma entry_locs_lookup:
  "map_of (rev (entry_locs c e)) txid =
     map_option (tx_location (bi_flp (idx_info c e))) (last_with ti_txID (bi_txOffsets (idx_info c e)) txid)"
  unfolding entry_locs_def using map_of_rev_keys [of "\<lambda>x. x" ti_txID] by simp

lemma entry_codes_lookup:
  "map_of (rev (entry_codes c e)) txid =
     map_option (\<lambda>(i, t). uint (entry_flags e ! i))
       (last_with (ti_txID \<circ> snd) (enumerate 0 (bi_txOffsets (idx_info c e))) txid)"
  unfolding entry_codes_def
  using map_of_rev_keys [of "\<lambda>x. x" "ti_txID \<circ> snd" "\<lambda>(i, t). uint (entry_flags e ! i)" "enumerate 0 (bi_txOffsets (idx_info c e))" txid]
  by (simp add: split_def)

lemma index_rel_step:
  assumes "store_ok c" and "good_entry c e" and "index_rel c d es" and "entry_number e \<notin> entry_number ` set es"
    and "index_entry c e d = Ok d'"
  shows "index_rel c d' (es @ [e])"
    and "getc c d' blkMgrInfoKey = getc c d blkMgrInfoKey"
proof -
  have L: "ldb_laws (sc_L c)" and idx: "indexBlock attrsToIndex (sc_L c) (sc_dbName c) d (idx_info c e) = Ok d'"
    using assms(1,5) by (simp_all add: store_ok_def index_entry_def)
  note good = good_entry_flps [OF assms(2)]
  note look = index_lookups [OF L idx good(1,2), unfolded idx_number]
  have "indexed c d' e"
    using look(2) good(3,4) index_position_lookup [OF L idx _ good(2), unfolded idx_number]
    by (simp add: indexed_def)
  moreover have "indexed c d' e'" if "e' \<in> set es" for e'
  proof -
    have ne: "entry_number e' \<noteq> entry_number e" using assms(4) that by (metis image_eqI)
    moreover have "indexed c d e'" using assms(3) that by (simp add: index_rel_def)
    ultimately show ?thesis
      using look(2) index_position_frame [OF L idx, unfolded idx_number, OF ne] by (simp add: indexed_def)
  qed
  moreover have "getBlockLocByBlockNum attrsToIndex (sc_L c) (sc_dbName c) d' k = Err ErrNotFoundInIndex"
    if "k \<notin> entry_number ` set (es @ [e])" for k
    using that look(2) [of k] assms(3) by (simp add: index_rel_def)
  moreover have "getBlockLocByHash attrsToIndex (sc_L c) (sc_dbName c) d' h =
      or_err ErrNotFoundInIndex (map_option (\<lambda>e. bi_flp (idx_info c e)) (find (\<lambda>e. bi_blockHash (idx_info c e) = h) (rev (es @ [e]))))" for h
    using look(3) [of h] assms(3) by (simp add: index_rel_def)
  moreover have "getBlockLocByTxID attrsToIndex (sc_L c) (sc_dbName c) d' txid =
      or_err ErrNotFoundInIndex (map_option (\<lambda>e. bi_flp (idx_info c e)) (find (\<lambda>e. txid \<in> entry_ids c e) (rev (es @ [e]))))"
    if "txid \<noteq> ''lkMgrInfo''" for txid
    using look(5) [of txid] assms(3) that by (simp add: index_rel_def entry_ids_def)
  moreover have "getTxLoc attrsToIndex (sc_L c) (sc_dbName c) d' txid =
      or_err ErrNotFoundInIndex (map_of (rev (concat (map (entry_locs c) (es @ [e])))) txid)" for txid
    using look(4) [of txid] assms(3)
    by (simp add: index_rel_def map_add_def entry_locs_lookup split: option.split)
  moreover have "getTxValidationCodeByTxID attrsToIndex (sc_L c) (sc_dbName c) d' txid =
      or_err ErrNotFoundInIndex (map_of (rev (concat (map (entry_codes c) (es @ [e])))) txid)" for txid
    using look(6) [of txid] assms(3) unfolding idx_flags
    by (simp add: index_rel_def map_add_def entry_codes_lookup split: option.split)
  ultimately show "index_rel c d' (es @ [e])" using look(1) by (auto simp: index_rel_def simp del: rev_append rev.simps)
  have "''lkMgrInfo'' \<notin> entry_ids c e"
    using assms(2) by (cases e rule: prod_cases3) (simp add: entry_ids_block)
  then show "getc c d' blkMgrInfoKey = getc c d blkMgrInfoKey"
    using index_manager_key [OF L idx] by (simp add: entry_ids_def)
qed

lemma index_all_rel:
  assumes "store_ok c" and "list_all (good_entry c) es'" and "index_rel c d es" and "distinct (map entry_number (es @ es'))"
  obtains d' where "index_all c es' d = Ok d'" and "index_rel c d' (es @ es')"
    and "getc c d' blkMgrInfoKey = getc c d blkMgrInfoKey"
  using assms(2-4)
proof (induction es' arbitrary: d es thesis)
  case Nil
  then show ?case by simp
next
  case (Cons e es')
  obtain k off b where e: "e = (k, off, b)" by (metis surj_pair)
  with Cons.prems(2) have "storable c b" "indexable b" by simp_all
  from index_entry_defined [OF assms(1) this, of k off d] e obtain d1 where d1: "index_entry c e d = Ok d1" by blast
  have step: "index_rel c d1 (es @ [e])" "getc c d1 blkMgrInfoKey = getc c d blkMgrInfoKey"
    using index_rel_step [OF assms(1) _ Cons.prems(3) _ d1] Cons.prems(2,4) by auto
  obtain d' where "index_all c es' d1 = Ok d'" "index_rel c d' ((es @ [e]) @ es')"
      "getc c d' blkMgrInfoKey = getc c d1 blkMgrInfoKey"
    by (rule Cons.IH [OF _ _ step(1)]) (use Cons.prems(2,4) in auto)
  with d1 step(2) show ?case by (intro Cons.prems(1) [of d']) auto
qed

section \<open>The state of a store\<close>

lemma entries_file_snoc:
  "entries_file c k off (bs @ [b]) = entries_file c k off bs @ [(k, off + int (length (contents c bs)), b)]"
  by (induction bs arbitrary: off) (simp_all add: add.assoc)

lemma entries_from_snoc: "entries_from c k (chs @ [ch]) = entries_from c k chs @ entries_file c (k + int (length chs)) 0 ch"
  by (induction chs arbitrary: k) (simp_all add: add.assoc)

lemma entries_file_blocks: "map (snd \<circ> snd) (entries_file c k off bs) = bs"
  by (induction bs arbitrary: off) simp_all

lemma entries_from_blocks: "map (snd \<circ> snd) (entries_from c k chs) = concat chs"
  by (induction chs arbitrary: k) (simp_all add: entries_file_blocks)

definition number_of :: "Block \<Rightarrow> uint64" where
  "number_of b = bh_Number (blk_Header b)"

lemma entry_number_block: "entry_number e = number_of (snd (snd e))"
  by (cases e rule: prod_cases3) (simp add: number_of_def)

lemma entries_numbers: "map entry_number (entries_from c k chs) = map number_of (concat chs)"
  unfolding entries_from_blocks [of c k chs, symmetric] by (simp add: entry_number_block comp_def)

definition numbered :: "Block list \<Rightarrow> bool" where
  "numbered bs \<longleftrightarrow> map number_of bs = map of_nat [0..<length bs]"

lemma distinct_numbers: "length bs < 2 ^ 63 \<Longrightarrow> numbered bs \<Longrightarrow> distinct (map number_of bs)"
proof -
  assume "length bs < 2 ^ 63" "numbered bs"
  moreover have "unat (of_nat i :: uint64) = i" if "i < 2 ^ 63" for i
    using that by (simp add: unat_of_nat take_bit_nat_eq_self)
  then have "inj_on (of_nat :: nat \<Rightarrow> uint64) {i. i < 2 ^ 63}" by (metis (mono_tags, lifting) inj_onI mem_Collect_eq)
  ultimately show ?thesis
    by (auto simp: numbered_def distinct_map intro: inj_on_subset)
qed

definition checkpoint_of :: "'d store_conf \<Rightarrow> Block list list \<Rightarrow> checkpointInfo" where
  "checkpoint_of c chs =
     \<lparr>latestFileChunkSuffixNum = int (length chs) - 1, latestFileChunksize = int (length (contents c (last chs))),
      isChainEmpty = (concat chs = []), lastBlockNumber = of_nat (length (concat chs) - 1)\<rparr>"

definition dir_ok :: "'d store_conf \<Rightarrow> dir \<Rightarrow> Block list list \<Rightarrow> bool" where
  "dir_ok c fs chs \<longleftrightarrow> chs \<noteq> [] \<and> files_at c fs 0 chs \<and> (\<forall>k \<ge> int (length chs). map_of fs k = None \<or> map_of fs k = Some [])"

text \<open>
  The relation without the mark of an empty chain and without the saved checkpoint, which are only
  restored at the end of an addition.
\<close>

definition base_rel :: "'d store_conf \<Rightarrow> 'd blockfileMgr \<Rightarrow> Block list list \<Rightarrow> bool" where
  "base_rel c m chs \<longleftrightarrow>
     list_all (good_entry c) (entries_from c 0 chs) \<and> numbered (concat chs) \<and> length (concat chs) < 2 ^ 63 \<and>
     int (length chs) < 2 ^ 62 \<and> int (length (contents c (last chs))) < 2 ^ 62 \<and>
     dir_ok c (bm_dir m) chs \<and> index_rel c (bm_db m) (entries_from c 0 chs) \<and>
     bm_cpInfo m = (checkpoint_of c chs)\<lparr>isChainEmpty := isChainEmpty (bm_cpInfo m)\<rparr> \<and>
     bm_currentFileWriter m = int (length chs) - 1 \<and> bc_Height (bm_bcInfo m) = of_nat (length (concat chs))"

lemma base_rel_cp:
  assumes "base_rel c m chs"
  shows "latestFileChunkSuffixNum (bm_cpInfo m) = int (length chs) - 1"
    "latestFileChunksize (bm_cpInfo m) = int (length (contents c (last chs)))"
    "lastBlockNumber (bm_cpInfo m) = of_nat (length (concat chs) - 1)"
proof -
  from assms have "bm_cpInfo m = (checkpoint_of c chs)\<lparr>isChainEmpty := isChainEmpty (bm_cpInfo m)\<rparr>"
    by (simp add: base_rel_def)
  then show "latestFileChunkSuffixNum (bm_cpInfo m) = int (length chs) - 1"
    "latestFileChunksize (bm_cpInfo m) = int (length (contents c (last chs)))"
    "lastBlockNumber (bm_cpInfo m) = of_nat (length (concat chs) - 1)"
    by (subst (asm) checkpoint_of_def, metis checkpointInfo.select_convs checkpointInfo.update_convs(3))+
qed

text \<open>
  The saved checkpoint may be behind the current one, but in the same file.
\<close>

definition saved_rel :: "'d store_conf \<Rightarrow> 'd \<Rightarrow> Block list list \<Rightarrow> bool" where
  "saved_rel c d chs \<longleftrightarrow> (\<exists>pre suf. last chs = pre @ suf \<and>
     getc c d blkMgrInfoKey = Ok (Some (cp_marshal (checkpoint_of c (butlast chs @ [pre])))))"

definition store_rel :: "'d store_conf \<Rightarrow> 'd blockfileMgr \<Rightarrow> Block list list \<Rightarrow> bool" where
  "store_rel c m chs \<longleftrightarrow> base_rel c m chs \<and> (isChainEmpty (bm_cpInfo m) \<longleftrightarrow> concat chs = []) \<and> saved_rel c (bm_db m) chs"

lemma map_of_writer_append: "map_of (writer_append w x fs) k = (if k = w then Some (file_of fs w @ x) else map_of fs k)"
  by (simp add: writer_append_def)

lemma dir_ok_append:
  assumes "dir_ok c fs chs" and "w = int (length chs) - 1"
  shows "dir_ok c (writer_append w (framed c b) fs) (butlast chs @ [last chs @ [b]])"
proof -
  from assms(1) have chs: "chs \<noteq> []" and files: "files_at c fs 0 chs" by (simp_all add: dir_ok_def)
  have w: "w = int (length chs - 1)" "length chs - 1 < length chs"
    using chs assms(2) by (simp_all add: of_nat_diff Suc_leI)
  have "map_of fs (0 + int (length chs - 1)) = Some (contents c (chs ! (length chs - 1)))"
    using files w(2) unfolding files_at_def by blast
  then have last: "file_of fs w = contents c (last chs)"
    unfolding file_of_def w(1) last_conv_nth [OF chs] by simp
  have "map_of (writer_append w (framed c b) fs) (int i) = Some (contents c ((butlast chs @ [last chs @ [b]]) ! i))"
    if "i < length chs" for i
  proof (cases "i = length chs - 1")
    case True
    with w last show ?thesis by (simp add: map_of_writer_append nth_append)
  next
    case False
    then have "i < length chs - 1" using that by linarith
    moreover from this w(1) have "int i \<noteq> w" by simp
    ultimately show ?thesis using files that
      by (simp add: map_of_writer_append nth_append nth_butlast files_at_def)
  qed
  then have "files_at c (writer_append w (framed c b) fs) 0 (butlast chs @ [last chs @ [b]])"
    using chs by (simp add: files_at_def)
  with assms show ?thesis by (auto simp: dir_ok_def map_of_writer_append)
qed

lemma numbered_snoc: "numbered bs \<Longrightarrow> number_of b = of_nat (length bs) \<Longrightarrow> numbered (bs @ [b])"
  by (simp add: numbered_def)

lemma entries_append:
  assumes "chs \<noteq> []"
  shows "entries_from c 0 (butlast chs @ [last chs @ [b]]) =
    entries_from c 0 chs @ [(int (length chs) - 1, int (length (contents c (last chs))), b)]"
  using assms by (cases chs rule: rev_cases) (simp_all add: entries_from_snoc entries_file_snoc)

lemma concat_append:
  "chs \<noteq> [] \<Longrightarrow> concat (butlast chs @ [last chs @ [b]]) = concat chs @ [b]"
  by (cases chs rule: rev_cases) simp_all

lemma append_block_rel:
  assumes c: "store_ok c" and rel: "base_rel c m chs" and b: "storable c b" "indexable b" "''lkMgrInfo'' \<notin> block_ids c b"
    and num: "number_of b = of_nat (length (concat chs))" and len: "length (concat chs) + 1 < 2 ^ 63"
    and fits: "int (length (contents c (last chs))) + int (length (framed c b)) < 2 ^ 62"
  obtains m' where "append_block c None b (block_bytes c b) (block_info c b) (sc_hash c (blk_Header b))
      (latestFileChunksize (bm_cpInfo m)) m = (m', Ok ())"
    and "store_rel c m' (butlast chs @ [last chs @ [b]])"
proof -
  let ?chs = "butlast chs @ [last chs @ [b]]" and ?es = "entries_from c 0 chs"
  let ?e = "(int (length chs) - 1, int (length (contents c (last chs))), b)"
  from rel have chs: "chs \<noteq> []" and dir: "dir_ok c (bm_dir m) chs" and w: "bm_currentFileWriter m = int (length chs) - 1"
    and idx: "index_rel c (bm_db m) ?es" and nums: "numbered (concat chs)" and small: "int (length chs) < 2 ^ 62"
    and good: "list_all (good_entry c) ?es" and height: "bc_Height (bm_bcInfo m) = of_nat (length (concat chs))"
    by (auto simp: base_rel_def dir_ok_def)
  note cpf = base_rel_cp [OF rel]
  let ?cp = "\<lparr>latestFileChunkSuffixNum = latestFileChunkSuffixNum (bm_cpInfo m),
      latestFileChunksize = latestFileChunksize (bm_cpInfo m) + int (length (framed c b)), isChainEmpty = False,
      lastBlockNumber = bh_Number (blk_Header b)\<rparr>"
  have new_cp: "?cp = checkpoint_of c ?chs"
    using chs num unfolding checkpoint_of_def concat_append [OF chs]
    by (simp add: cpf number_of_def of_nat_diff Suc_leI)
  obtain d where d: "saveCurrentInfo c ?cp (bm_db m) = Ok d" "getc c d blkMgrInfoKey = Ok (Some (cp_marshal ?cp))"
      "\<And>q. q \<noteq> blkMgrInfoKey \<Longrightarrow> getc c d q = getc c (bm_db m) q"
    by (rule save_effect [OF c, of ?cp "bm_db m"]) blast
  have rel_d: "index_rel c d ?es" using idx index_rel_cong [OF d(3)] by simp
  have good_e: "good_entry c ?e" using b chs small fits by (simp add: Suc_leI)
  have "distinct (map number_of (concat chs @ [b]))"
    using distinct_numbers [OF _ numbered_snoc [OF nums num]] len by simp
  then have fresh: "entry_number ?e \<notin> entry_number ` set ?es"
    using entries_numbers [of c 0 chs] by (simp add: number_of_def flip: set_map)
  obtain d' where d': "index_entry c ?e d = Ok d'" using index_entry_defined [OF c b(1,2)] by blast
  note step = index_rel_step [OF c good_e rel_d fresh d']
  let ?m = "m\<lparr>bm_dir := writer_append (bm_currentFileWriter m) (framed c b) (bm_dir m), bm_db := d', bm_cpInfo := ?cp,
      bm_bcInfo := updateBlockchainInfo (sc_hash c (blk_Header b)) b (bm_bcInfo m)\<rparr>"
  have "append_block c None b (block_bytes c b) (block_info c b) (sc_hash c (blk_Header b))
      (latestFileChunksize (bm_cpInfo m)) m = (?m, Ok ())"
    using d(1) d' by (simp add: append_block_def Let_def index_entry_def cpf framed_def len_bytes_def)
  moreover have "base_rel c ?m ?chs"
    using good good_e nums num len small fits dir_ok_append [OF dir w, of b] step(1) new_cp height chs
    unfolding base_rel_def entries_append [OF chs] concat_append [OF chs]
    by (simp add: numbered_snoc w updateBlockchainInfo_def)
  moreover have "saved_rel c d' ?chs"
    using step(2) d(2) new_cp by (auto simp: saved_rel_def)
  ultimately show thesis
    using that by (simp add: store_rel_def)
qed

lemma dir_ok_next:
  assumes "dir_ok c fs chs"
  shows "dir_ok c (newBlockfileWriter (int (length chs)) fs) (chs @ [[]])"
proof -
  have "map_of (newBlockfileWriter (int (length chs)) fs) k = (if k = int (length chs) then Some [] else map_of fs k)" for k
    using assms by (auto simp: newBlockfileWriter_def dir_ok_def)
  with assms show ?thesis
    by (auto simp: dir_ok_def files_at_def nth_append less_Suc_eq)
qed

lemma move_rel:
  assumes "store_ok c" and "base_rel c m chs" and "int (length chs) + 1 < 2 ^ 62"
  obtains m1 where "moveToNextFile c m = Ok m1" and "base_rel c m1 (chs @ [[]])"
    and "getc c (bm_db m1) blkMgrInfoKey = Ok (Some (cp_marshal (bm_cpInfo m1)))" and "\<not> isChainEmpty (bm_cpInfo m1)"
    and "bm_dir m1 = newBlockfileWriter (int (length chs)) (bm_dir m)"
proof -
  note cpf = base_rel_cp [OF assms(2)]
  let ?cp = "\<lparr>latestFileChunkSuffixNum = int (length chs), latestFileChunksize = 0,
      isChainEmpty = False, lastBlockNumber = of_nat (length (concat chs) - 1)\<rparr>"
  obtain d where d: "saveCurrentInfo c ?cp (bm_db m) = Ok d" "getc c d blkMgrInfoKey = Ok (Some (cp_marshal ?cp))"
      "\<And>q. q \<noteq> blkMgrInfoKey \<Longrightarrow> getc c d q = getc c (bm_db m) q"
    by (rule save_effect [OF assms(1), of ?cp "bm_db m"]) blast
  let ?m = "m\<lparr>bm_dir := newBlockfileWriter (int (length chs)) (bm_dir m), bm_db := d,
      bm_currentFileWriter := int (length chs), bm_cpInfo := ?cp\<rparr>"
  have "moveToNextFile c m = Ok ?m" using d(1) by (simp add: moveToNextFile_def cpf Let_def)
  moreover have "base_rel c ?m (chs @ [[]])"
    using assms(2,3) index_rel_cong [OF d(3)] dir_ok_next [of c "bm_dir m" chs]
    by (simp add: base_rel_def entries_from_snoc checkpoint_of_def)
  ultimately show thesis using that d(2) by simp
qed

definition admissible :: "'d store_conf \<Rightarrow> 'd blockfileMgr \<Rightarrow> Block \<Rightarrow> bool" where
  "admissible c m b \<longleftrightarrow> storable c b \<and> indexable b \<and> ''lkMgrInfo'' \<notin> block_ids c b \<and>
     latestFileChunkSuffixNum (bm_cpInfo m) < 2 ^ 61 \<and> unat (bc_Height (bm_bcInfo m)) < 2 ^ 62"

lemma addBlock_eq:
  assumes "storable c b" and "number_of b = bc_Height (bm_bcInfo m)"
  shows "addBlock c fault b m =
    (if latestFileChunksize (bm_cpInfo m) + int (length (framed c b)) > sc_maxBlockfileSize c
     then (case moveToNextFile c m of
             Ok m1 \<Rightarrow> append_block c fault b (block_bytes c b) (block_info c b) (sc_hash c (blk_Header b)) 0 m1
           | _ \<Rightarrow> (m, Panic))
     else append_block c fault b (block_bytes c b) (block_info c b) (sc_hash c (blk_Header b))
       (latestFileChunksize (bm_cpInfo m)) m)"
proof -
  have "BlockHeader_Hash (sc_hash c) (blk_Header b) = Ok (sc_hash c (blk_Header b))"
    using assms(1) by (simp add: BlockHeader_Hash_def storable_def)
  with assms show ?thesis
    by (simp add: addBlock_def storable_def number_of_def framed_def len_bytes_def add_ac)
qed

lemma rel_bounds:
  assumes "base_rel c m chs" and "admissible c m b"
  shows "length (concat chs) + 1 < 2 ^ 63" "int (length chs) + 1 < 2 ^ 62" "length (framed c b) < 2 ^ 57"
proof -
  from assms(1) have height: "bc_Height (bm_bcInfo m) = of_nat (length (concat chs))" and len: "length (concat chs) < 2 ^ 63"
    by (simp_all add: base_rel_def)
  from assms(2) base_rel_cp(1) [OF assms(1)] show "int (length chs) + 1 < 2 ^ 62" by (simp add: admissible_def)
  have "unat (of_nat (length (concat chs)) :: uint64) = length (concat chs)"
    using len by (simp add: unat_of_nat take_bit_nat_eq_self)
  with assms(2) height show "length (concat chs) + 1 < 2 ^ 63" by (simp add: admissible_def)
  from assms(2) len_bytes_short(2) [of c b] show "length (framed c b) < 2 ^ 57"
    by (simp add: admissible_def storable_def framed_def)
qed

lemma addBlock_rel:
  assumes c: "store_ok c" and rel: "store_rel c m chs" and b: "admissible c m b"
    and num: "number_of b = bc_Height (bm_bcInfo m)"
  obtains m' chs' where "addBlock c None b m = (m', Ok ())" and "store_rel c m' chs'" and "concat chs' = concat chs @ [b]"
proof -
  from rel have base: "base_rel c m chs" by (simp add: store_rel_def)
  then have height: "bc_Height (bm_bcInfo m) = of_nat (length (concat chs))" and chs: "chs \<noteq> []"
    by (simp_all add: base_rel_def dir_ok_def)
  note sz = base_rel_cp(2) [OF base]
  note bounds = rel_bounds [OF base b]
  from b have ok: "storable c b" "indexable b" "''lkMgrInfo'' \<notin> block_ids c b" by (simp_all add: admissible_def)
  show thesis
  proof (cases "latestFileChunksize (bm_cpInfo m) + int (length (framed c b)) > sc_maxBlockfileSize c")
    case True
    obtain m1 where m1: "moveToNextFile c m = Ok m1" "base_rel c m1 (chs @ [[]])"
      by (rule move_rel [OF c base bounds(2)])
    with base_rel_cp(2) have "latestFileChunksize (bm_cpInfo m1) = 0" by fastforce
    moreover obtain m' where "append_block c None b (block_bytes c b) (block_info c b) (sc_hash c (blk_Header b))
        (latestFileChunksize (bm_cpInfo m1)) m1 = (m', Ok ())" "store_rel c m' (butlast (chs @ [[]]) @ [last (chs @ [[]]) @ [b]])"
      by (rule append_block_rel [OF c m1(2) ok]) (use num height bounds in auto)
    ultimately show thesis
      using that [of m' "chs @ [[b]]"] True m1(1) addBlock_eq [OF ok(1) num] by simp
  next
    case False
    obtain m' where "append_block c None b (block_bytes c b) (block_info c b) (sc_hash c (blk_Header b))
        (latestFileChunksize (bm_cpInfo m)) m = (m', Ok ())" "store_rel c m' (butlast chs @ [last chs @ [b]])"
      by (rule append_block_rel [OF c base ok]) (use num height bounds False c sz in \<open>auto simp: store_ok_def\<close>)
    with that [of m' "butlast chs @ [last chs @ [b]]"] False addBlock_eq [OF ok(1) num] concat_append [OF chs]
    show thesis by simp
  qed
qed

end
