(* ===== verification/Block_Recovery.thy ===== *)
theory Block_Recovery
  imports Block_Store
begin

text \<open>
  What can be retrieved from a block store, and what a restart finds: the operations of
  \<open>fsblkstorage/blockfile_mgr.go\<close> against the list of the blocks that were added.
\<close>

section \<open>Retrieving from an entry\<close>

definition at_entry :: "'d store_conf \<Rightarrow> dir \<Rightarrow> block_entry \<Rightarrow> bool" where
  "at_entry c fs e \<longleftrightarrow> (case e of (k, off, b) \<Rightarrow>
     \<exists>u v. map_of fs k = Some (u @ framed c b @ v) \<and> off = int (length u))"

lemma entries_file_at:
  assumes "e \<in> set (entries_file c k off bs)" and "map_of fs k = Some (u @ contents c bs)" and "off = int (length u)"
  shows "at_entry c fs e"
  using assms
proof (induction bs arbitrary: u off)
  case (Cons b bs)
  show ?case
  proof (cases "e = (k, off, b)")
    case True
    with Cons.prems show ?thesis by (auto simp: at_entry_def)
  next
    case False
    with Cons.prems show ?thesis by (intro Cons.IH [of _ "u @ framed c b"]) simp_all
  qed
qed simp

lemma entries_at: "files_at c fs k chs \<Longrightarrow> e \<in> set (entries_from c k chs) \<Longrightarrow> at_entry c fs e"
proof (induction chs arbitrary: k)
  case (Cons ch chs)
  then show ?case
    using entries_file_at [of e c k 0 ch fs "[]"] by (auto simp: files_at_Cons)
qed simp

lemma fetchBlockBytes_entry:
  assumes "at_entry c fs (k, off, b)" and "storable c b"
  shows "fetchBlockBytes fs (bi_flp (idx_info c (k, off, b))) = Ok (Some (block_bytes c b))"
proof -
  from assms(1) obtain u v where f: "map_of fs k = Some (u @ framed c b @ v)" "off = int (length u)"
    by (auto simp: at_entry_def)
  then show ?thesis
    using fileStream_next_block [OF assms(2), of off "u @ framed c b @ v" v k]
    by (simp add: fetchBlockBytes_def newBlockfileStream_def fileStream_nextBlockBytes_def)
qed

lemma fetchBlock_entry:
  assumes "at_entry c fs (k, off, b)" and "storable c b"
  shows "fetchBlock c fs (bi_flp (idx_info c (k, off, b))) = Ok b"
  using fetchBlockBytes_entry [OF assms] storable_read_back(1) [OF assms(2)] by (simp add: fetchBlock_def del: idx_info.simps)

lemma fetchTransaction_entry:
  assumes "at_entry c fs (k, off, b)" and "storable c b" and "i < length (blk_Data b)"
  shows "fetchTransactionEnvelope c fs (tx_location (bi_flp (idx_info c (k, off, b))) (bi_txOffsets (idx_info c (k, off, b)) ! i)) =
    GetEnvelopeFromBlock (sc_codec c) (blk_Data b ! i)"
proof -
  from assms(1) obtain u v where f: "map_of fs k = Some (u @ framed c b @ v)" "off = int (length u)"
    by (auto simp: at_entry_def)
  let ?t = "si_txOffsets (block_info c b) ! i" and ?env = "blk_Data b ! i"
  note loc = storable_read_back(3) [OF assms(2)]
  then have i: "i < length (si_txOffsets (block_info c b))" using assms(3) by (simp add: list_all2_lengthD)
  from loc assms(3) have "located (sc_codec c) (block_bytes c b) ?env ?t" by (simp add: list_all2_nthD)
  then obtain u' v' where t: "block_bytes c b = u' @ EncodeRawBytes ?env @ v'" "offset (ti_loc ?t) = int (length u')"
      "bytesLength (ti_loc ?t) = int (length (EncodeRawBytes ?env))"
    by (auto simp: located_def)
  let ?f = "(u @ len_bytes c b @ u') @ EncodeRawBytes ?env @ v' @ v"
  have "map_of fs k = Some ?f" using f(1) t(1) by (simp add: framed_def)
  moreover have "take (length (EncodeRawBytes ?env)) (drop (length (u @ len_bytes c b @ u')) ?f) = EncodeRawBytes ?env"
    by simp
  moreover have "nat (int (length u) + (int (length u') + int (length (len_bytes c b)))) = length (u @ len_bytes c b @ u')"
    by simp
  ultimately have "fetchRawBytes fs (tx_location (bi_flp (idx_info c (k, off, b))) (bi_txOffsets (idx_info c (k, off, b)) ! i)) =
      Ok (EncodeRawBytes ?env)"
    using t f(2) i by (simp add: fetchRawBytes_def reader_read_def tx_location_def newFileLocationPointer_def)
  then show ?thesis
    by (simp add: fetchTransactionEnvelope_def EncodeRawBytes_def DecodeVarint_Encode del: idx_info.simps)
qed

section \<open>Retrieving from a store\<close>

text \<open>The transactions of a chain and their validation codes, by transaction id, in the order of the chain.\<close>

definition tx_id :: "'d store_conf \<Rightarrow> bytes \<Rightarrow> string" where
  "tx_id c env = the_ok (extractTxID (sc_codec c) env)"

definition chain_txs :: "'d store_conf \<Rightarrow> Block list \<Rightarrow> (string \<times> bytes) list" where
  "chain_txs c bs = concat (map (\<lambda>b. map (\<lambda>env. (tx_id c env, env)) (blk_Data b)) bs)"

definition chain_codes :: "'d store_conf \<Rightarrow> Block list \<Rightarrow> (string \<times> TxValidationCode) list" where
  "chain_codes c bs =
     concat (map (\<lambda>b. map (\<lambda>(i, env). (tx_id c env, uint (tx_flags b ! i))) (enumerate 0 (blk_Data b))) bs)"

lemma storable_ids:
  assumes "storable c b"
  shows "length (si_txOffsets (block_info c b)) = length (blk_Data b)"
    and "i < length (blk_Data b) \<Longrightarrow> ti_txID (si_txOffsets (block_info c b) ! i) = tx_id c (blk_Data b ! i)"
    and "block_ids c b = tx_id c ` set (blk_Data b)"
proof -
  note loc = storable_read_back(3) [OF assms]
  show len: "length (si_txOffsets (block_info c b)) = length (blk_Data b)" using loc by (simp add: list_all2_lengthD)
  show nth: "ti_txID (si_txOffsets (block_info c b) ! i) = tx_id c (blk_Data b ! i)" if "i < length (blk_Data b)" for i
    using list_all2_nthD [OF loc, of i] that by (simp add: located_def tx_id_def)
  have "map ti_txID (si_txOffsets (block_info c b)) = map (tx_id c) (blk_Data b)"
    using len nth by (intro nth_equalityI) simp_all
  then show "block_ids c b = tx_id c ` set (blk_Data b)" by (simp add: block_ids_def flip: set_map)
qed

lemma entry_locs_fetch:
  assumes "at_entry c fs (k, off, b)" and "storable c b"
  shows "map (\<lambda>(i, l). (i, fetchTransactionEnvelope c fs l)) (entry_locs c (k, off, b)) =
    map (\<lambda>env. (tx_id c env, GetEnvelopeFromBlock (sc_codec c) env)) (blk_Data b)"
proof (rule nth_equalityI)
  fix i
  assume "i < length (map (\<lambda>(i, l). (i, fetchTransactionEnvelope c fs l)) (entry_locs c (k, off, b)))"
  then have i: "i < length (blk_Data b)" using storable_ids(1) [OF assms(2)] by (simp add: entry_locs_def)
  moreover have "ti_txID (bi_txOffsets (idx_info c (k, off, b)) ! i) = tx_id c (blk_Data b ! i)"
    using i storable_ids(1,2) [OF assms(2)] by simp
  moreover have "length (bi_txOffsets (idx_info c (k, off, b))) = length (blk_Data b)"
    using storable_ids(1) [OF assms(2)] by simp
  ultimately show "map (\<lambda>(i, l). (i, fetchTransactionEnvelope c fs l)) (entry_locs c (k, off, b)) ! i =
      map (\<lambda>env. (tx_id c env, GetEnvelopeFromBlock (sc_codec c) env)) (blk_Data b) ! i"
    using fetchTransaction_entry [OF assms i] by (simp add: entry_locs_def del: idx_info.simps)
qed (use storable_ids(1) [OF assms(2)] in \<open>simp add: entry_locs_def\<close>)

lemma entry_codes_block:
  assumes "storable c b"
  shows "entry_codes c (k, off, b) = map (\<lambda>(i, env). (tx_id c env, uint (tx_flags b ! i))) (enumerate 0 (blk_Data b))"
  by (rule nth_equalityI) (use storable_ids [OF assms] in \<open>simp_all add: entry_codes_def nth_enumerate_eq\<close>)

lemma find_blocks: "find P (map f xs) = map_option f (find (P \<circ> f) xs)"
  by (induction xs) simp_all

lemma map_of_values: "map_of (map (\<lambda>(k, v). (k, f v)) xs) k = map_option f (map_of xs k)"
  by (induction xs) auto

definition is_store :: "'d store_conf \<Rightarrow> 'd blockfileMgr \<Rightarrow> Block list list \<Rightarrow> bool" where
  "is_store c m chs \<longleftrightarrow> store_ok c \<and> base_rel c m chs"

lemma store_parts:
  assumes "is_store c m chs"
  shows "sc_items c = attrsToIndex" "list_all (good_entry c) (entries_from c 0 chs)" "files_at c (bm_dir m) 0 chs"
    "index_rel c (bm_db m) (entries_from c 0 chs)" "bc_Height (bm_bcInfo m) = of_nat (length (concat chs))"
    "length (concat chs) < 2 ^ 63" "numbered (concat chs)"
  using assms by (simp_all add: is_store_def store_ok_def base_rel_def dir_ok_def)

lemma store_entry:
  assumes "is_store c m chs" and "e \<in> set (entries_from c 0 chs)"
  shows "at_entry c (bm_dir m) e" "storable c (snd (snd e))" "good_entry c e" "indexed c (bm_db m) e"
proof -
  note parts = store_parts [OF assms(1)]
  show "at_entry c (bm_dir m) e" using entries_at [OF parts(3) assms(2)] .
  show "good_entry c e" using parts(2) assms(2) by (simp add: list_all_iff)
  then show "storable c (snd (snd e))" by (cases e rule: prod_cases3) simp
  show "indexed c (bm_db m) e" using parts(4) assms(2) by (simp add: index_rel_def)
qed

lemma store_fetch:
  assumes "is_store c m chs" and "e \<in> set (entries_from c 0 chs)"
  shows "fetchBlock c (bm_dir m) (bi_flp (idx_info c e)) = Ok (snd (snd e))"
  using fetchBlock_entry store_entry [OF assms] by (cases e rule: prod_cases3) (simp del: idx_info.simps)

lemma store_nth:
  assumes "is_store c m chs" and "i < length (concat chs)"
  obtains k off where "(k, off, concat chs ! i) \<in> set (entries_from c 0 chs)"
    and "bh_Number (blk_Header (concat chs ! i)) = of_nat i"
proof -
  have len: "length (entries_from c 0 chs) = length (concat chs)"
    using arg_cong [OF entries_from_blocks, of length c 0 chs] by simp
  have "snd (snd (entries_from c 0 chs ! i)) = concat chs ! i"
    using arg_cong [OF entries_from_blocks, of "\<lambda>xs. xs ! i" c 0 chs] assms(2) len by simp
  moreover have "bh_Number (blk_Header (concat chs ! i)) = of_nat i"
    using arg_cong [OF store_parts(7) [OF assms(1), unfolded numbered_def], of "\<lambda>xs. xs ! i"] assms(2)
    by (simp add: number_of_def)
  ultimately show thesis using that nth_mem [of i "entries_from c 0 chs"] assms(2) len by (metis prod.collapse)
qed

lemma small_number: "i < 2 ^ 63 \<Longrightarrow> (of_nat i :: uint64) \<noteq> - 1"
proof
  assume i: "i < 2 ^ 63" and "(of_nat i :: uint64) = - 1"
  from this(2) have "unat (of_nat i :: uint64) = unat (- 1 :: uint64)" by simp
  then show False using i by (simp add: unat_of_nat take_bit_nat_eq_self unsigned_minus_1_eq_mask mask_eq_exp_minus_1)
qed

lemma store_by_number:
  assumes "is_store c m chs" and "i < length (concat chs)"
  shows "retrieveBlockByNumber c m (of_nat i) = Ok (concat chs ! i)"
proof (rule store_nth [OF assms])
  fix k off
  assume e: "(k, off, concat chs ! i) \<in> set (entries_from c 0 chs)" "bh_Number (blk_Header (concat chs ! i)) = of_nat i"
  have "(of_nat i :: uint64) \<noteq> - 1" using small_number store_parts(6) [OF assms(1)] assms(2) by (meson order_less_trans)
  with e(2) store_entry(4) [OF assms(1) e(1)] store_fetch [OF assms(1) e(1)] store_parts(1) [OF assms(1)] show ?thesis
    by (simp add: retrieveBlockByNumber_def Let_def indexed_def del: idx_info.simps)
qed

lemma store_by_position:
  assumes "is_store c m chs" and "i < length (concat chs)" and "j < length (blk_Data (concat chs ! i))"
  shows "retrieveTransactionByBlockNumTranNum c m (of_nat i) (of_nat j) =
    GetEnvelopeFromBlock (sc_codec c) (blk_Data (concat chs ! i) ! j)"
proof (rule store_nth [OF assms(1,2)])
  fix k off
  assume e: "(k, off, concat chs ! i) \<in> set (entries_from c 0 chs)" "bh_Number (blk_Header (concat chs ! i)) = of_nat i"
  with store_entry(4) [OF assms(1) e(1)] assms(3) store_parts(1) [OF assms(1)]
    fetchTransaction_entry [OF store_entry(1,2) [OF assms(1) e(1), simplified] assms(3)]
  show ?thesis by (simp add: retrieveTransactionByBlockNumTranNum_def indexed_def del: idx_info.simps)
qed

lemma store_newest:
  assumes "is_store c m chs" and "concat chs \<noteq> []"
  shows "retrieveBlockByNumber c m (- 1) = Ok (last (concat chs))"
proof -
  have len: "length (concat chs) - 1 < length (concat chs)" using assms(2) by (metis diff_less length_greater_0_conv zero_less_one)
  then have "bc_Height (bm_bcInfo m) - 1 = of_nat (length (concat chs) - 1)"
    unfolding store_parts(5) [OF assms(1)] by (metis Suc_diff_1 add_diff_cancel_right' gr_implies_not0 neq0_conv of_nat_Suc of_nat_add add.commute plus_1_eq_Suc)
  moreover have "(of_nat (length (concat chs) - 1) :: uint64) \<noteq> - 1"
    using small_number store_parts(6) [OF assms(1)] len by (meson order_less_trans)
  ultimately have "retrieveBlockByNumber c m (- 1) = retrieveBlockByNumber c m (of_nat (length (concat chs) - 1))"
    by (simp only: retrieveBlockByNumber_def Let_def if_True if_False refl simp_thms)
  also have "\<dots> = Ok (concat chs ! (length (concat chs) - 1))" by (rule store_by_number [OF assms(1) len])
  finally show ?thesis using assms(2) by (simp add: last_conv_nth)
qed

lemma store_by_number_missing:
  assumes "is_store c m chs" and "unat n \<ge> length (concat chs)" and "n \<noteq> - 1"
  shows "retrieveBlockByNumber c m n = Err ErrNotFoundInIndex"
proof -
  note parts = store_parts [OF assms(1)]
  have "n \<notin> set (map number_of (concat chs))"
  proof
    assume "n \<in> set (map number_of (concat chs))"
    then have "n \<in> of_nat ` {0..<length (concat chs)}"
      unfolding parts(7) [unfolded numbered_def] by simp
    then obtain i where "i < length (concat chs)" "n = of_nat i" by (metis atLeastLessThan_iff imageE)
    moreover from this(1) have "i < 2 ^ 63" using parts(6) by linarith
    ultimately show False using assms(2) by (simp add: unat_of_nat take_bit_nat_eq_self)
  qed
  then have "n \<notin> entry_number ` set (entries_from c 0 chs)" unfolding entries_numbers [of c 0, symmetric] set_map .
  with parts(1,4) assms(3) show ?thesis by (simp add: retrieveBlockByNumber_def index_rel_def)
qed

lemma store_found:
  assumes "is_store c m chs"
  shows "rbind (or_err er (map_option (\<lambda>e. bi_flp (idx_info c e)) (find P (rev (entries_from c 0 chs))))) (\<lambda>loc. fetchBlock c (bm_dir m) loc) =
     or_err er (map_option (snd \<circ> snd) (find P (rev (entries_from c 0 chs))))"
proof (cases "find P (rev (entries_from c 0 chs))")
  case (Some x)
  then have "x \<in> set (rev (entries_from c 0 chs))" unfolding find_Some_iff by (metis nth_mem)
  with Some store_fetch [OF assms] show ?thesis by (simp del: idx_info.simps)
qed simp

lemma find_entries:
  assumes "\<And>e. P e \<longleftrightarrow> Q (snd (snd e))"
  shows "map_option (snd \<circ> snd) (find P (rev (entries_from c 0 chs))) = find Q (rev (concat chs))"
proof -
  have "P = Q \<circ> (snd \<circ> snd)" using assms by auto
  then show ?thesis unfolding entries_from_blocks [of c 0 chs, symmetric] rev_map find_blocks by simp
qed

lemma store_by_hash:
  assumes "is_store c m chs"
  shows "retrieveBlockByHash c m h =
    or_err ErrNotFoundInIndex (find (\<lambda>b. sc_hash c (blk_Header b) = h) (rev (concat chs)))"
proof -
  have "map_option (snd \<circ> snd) (find (\<lambda>e. bi_blockHash (idx_info c e) = h) (rev (entries_from c 0 chs))) =
      find (\<lambda>b. sc_hash c (blk_Header b) = h) (rev (concat chs))"
    by (rule find_entries) auto
  with store_found [OF assms] store_parts(1,4) [OF assms] show ?thesis
    by (simp add: retrieveBlockByHash_def index_rel_def)
qed

lemma store_block_by_tx:
  assumes "is_store c m chs" and "txid \<noteq> ''lkMgrInfo''"
  shows "retrieveBlockByTxID c m txid =
    or_err ErrNotFoundInIndex (find (\<lambda>b. txid \<in> block_ids c b) (rev (concat chs)))"
proof -
  have "map_option (snd \<circ> snd) (find (\<lambda>e. txid \<in> entry_ids c e) (rev (entries_from c 0 chs))) =
      find (\<lambda>b. txid \<in> block_ids c b) (rev (concat chs))"
    by (rule find_entries) (auto simp: entry_ids_block)
  with store_found [OF assms(1)] store_parts(1,4) [OF assms(1)] assms(2) show ?thesis
    by (simp add: retrieveBlockByTxID_def index_rel_def)
qed

lemma store_by_tx:
  assumes "is_store c m chs"
  shows "retrieveTransactionByID c m txid =
    rbind (or_err ErrNotFoundInIndex (map_of (rev (chain_txs c (concat chs))) txid)) (GetEnvelopeFromBlock (sc_codec c))"
proof -
  let ?es = "entries_from c 0 chs"
  have "map (\<lambda>(i, l). (i, fetchTransactionEnvelope c (bm_dir m) l)) (concat (map (entry_locs c) es)) =
      map (\<lambda>(i, env). (i, GetEnvelopeFromBlock (sc_codec c) env)) (chain_txs c (map (snd \<circ> snd) es))"
    if "set es \<subseteq> set ?es" for es
    using that
  proof (induction es)
    case (Cons e es)
    moreover obtain k off b where e: "e = (k, off, b)" by (metis surj_pair)
    ultimately show ?case
      using entry_locs_fetch [of c "bm_dir m" k off b] store_entry(1,2) [OF assms, of e]
      by (simp add: chain_txs_def comp_def del: idx_info.simps)
  qed (simp add: chain_txs_def)
  from this [of ?es] have "map (\<lambda>(i, l). (i, fetchTransactionEnvelope c (bm_dir m) l)) (rev (concat (map (entry_locs c) ?es))) =
      map (\<lambda>(i, env). (i, GetEnvelopeFromBlock (sc_codec c) env)) (rev (chain_txs c (concat chs)))"
    unfolding entries_from_blocks by (simp flip: rev_map)
  then have "map_option (fetchTransactionEnvelope c (bm_dir m)) (map_of (rev (concat (map (entry_locs c) ?es))) txid) =
      map_option (GetEnvelopeFromBlock (sc_codec c)) (map_of (rev (chain_txs c (concat chs))) txid)"
    unfolding map_of_values [symmetric] by simp
  moreover have "getTxLoc (sc_items c) (sc_L c) (sc_dbName c) (bm_db m) txid =
      or_err ErrNotFoundInIndex (map_of (rev (concat (map (entry_locs c) ?es))) txid)"
    using store_parts(1,4) [OF assms] by (simp add: index_rel_def)
  ultimately show ?thesis
    unfolding retrieveTransactionByID_def
    by (cases "map_of (rev (concat (map (entry_locs c) ?es))) txid"; cases "map_of (rev (chain_txs c (concat chs))) txid") simp_all
qed

lemma store_code:
  assumes "is_store c m chs"
  shows "retrieveTxValidationCodeByTxID c m txid =
    or_err ErrNotFoundInIndex (map_of (rev (chain_codes c (concat chs))) txid)"
proof -
  let ?es = "entries_from c 0 chs"
  have "concat (map (entry_codes c) es) = chain_codes c (map (snd \<circ> snd) es)" if "set es \<subseteq> set ?es" for es
    using that
  proof (induction es)
    case (Cons e es)
    moreover obtain k off b where e: "e = (k, off, b)" by (metis surj_pair)
    ultimately show ?case
      using entry_codes_block [of c b k off] store_entry(2) [OF assms, of e] by (simp add: chain_codes_def)
  qed (simp add: chain_codes_def)
  from this [of ?es] have "concat (map (entry_codes c) ?es) = chain_codes c (concat chs)"
    unfolding entries_from_blocks by simp
  with store_parts(1,4) [OF assms] show ?thesis
    by (simp add: retrieveTxValidationCodeByTxID_def index_rel_def)
qed

section \<open>Restarting\<close>

text \<open>
  What a restart may find: complete files but for a partial block at the end of the last one, a
  checkpoint that may lag behind within the last file, and an index that may lack the last entries.
\<close>

definition restartable :: "'d store_conf \<Rightarrow> dir \<Rightarrow> 'd \<Rightarrow> Block list list \<Rightarrow> bool" where
  "restartable c fs d chs \<longleftrightarrow>
     list_all (good_entry c) (entries_from c 0 chs) \<and> numbered (concat chs) \<and> length (concat chs) < 2 ^ 63 \<and>
     int (length chs) < 2 ^ 62 \<and> int (length (contents c (last chs))) < 2 ^ 62 \<and> chs \<noteq> [] \<and>
     files_at c fs 0 (butlast chs) \<and>
     (if map_of fs (int (length chs) - 1) = None then last chs = []
      else \<exists>t. torn c t \<and> map_of fs (int (length chs) - 1) = Some (contents c (last chs) @ t)) \<and>
     (\<forall>k \<ge> int (length chs). map_of fs k = None \<or> map_of fs k = Some []) \<and>
     saved_rel c d chs \<and>
     (\<exists>es1 es2. entries_from c 0 chs = es1 @ es2 \<and> index_rel c d es1)"

lemma entries_file_storable: "list_all (good_entry c) (entries_file c k off bs) \<Longrightarrow> list_all (storable c) bs"
  by (induction bs arbitrary: off) auto

lemma entries_storable: "list_all (good_entry c) (entries_from c k chs) \<Longrightarrow> list_all (list_all (storable c)) chs"
  by (induction chs arbitrary: k) (auto dest: entries_file_storable)

lemma framed_pos: "storable c b \<Longrightarrow> framed c b \<noteq> []"
  using len_bytes_short(1) [of c b] by (auto simp: framed_def)

lemma contents_Nil: "list_all (storable c) bs \<Longrightarrow> contents c bs = [] \<longleftrightarrow> bs = []"
  by (cases bs) (simp_all add: framed_pos)

lemma number_extend:
  assumes "suf \<noteq> []"
  shows "(if bs = [] then word_of_int (int (length suf) - 1) else of_nat (length bs - 1) + word_of_int (int (length suf))) =
    (of_nat (length (bs @ suf) - 1) :: uint64)"
proof (cases "bs = []")
  case True
  have "int (length suf) - 1 = int (length suf - 1)" using assms by (cases suf) simp_all
  with True show ?thesis by (metis append_Nil of_int_of_nat_eq)
next
  case False
  then have "length (bs @ suf) - 1 = (length bs - 1) + length suf" by (cases bs) simp_all
  then have "(of_nat (length (bs @ suf) - 1) :: uint64) = of_nat (length bs - 1) + of_nat (length suf)" by (simp only: of_nat_add)
  with False show ?thesis by simp
qed

lemma checkpoint_extend:
  assumes "suf \<noteq> []"
  shows "(checkpoint_of c (cs @ [pre]))\<lparr>latestFileChunksize := int (length (contents c (pre @ suf))),
      lastBlockNumber := (if concat (cs @ [pre]) = [] then word_of_int (int (length suf) - 1)
         else of_nat (length (concat (cs @ [pre])) - 1) + word_of_int (int (length suf))),
      isChainEmpty := False\<rparr> = checkpoint_of c (cs @ [pre @ suf])"
  unfolding number_extend [OF assms] using assms by (simp add: checkpoint_of_def)

lemma sync_scanned:
  assumes "map_of fs (latestFileChunkSuffixNum cp) = Some f" and "int (length f) \<noteq> latestFileChunksize cp"
    and "scanForLastCompleteBlock fs (latestFileChunkSuffixNum cp) (latestFileChunksize cp) = Ok (e, k)" and "k \<noteq> 0"
  shows "syncCPInfoFromFS fs cp = Ok (cp\<lparr>latestFileChunksize := e,
    lastBlockNumber := (if isChainEmpty cp then word_of_int (k - 1) else lastBlockNumber cp + word_of_int k), isChainEmpty := False\<rparr>)"
  using assms by (simp add: syncCPInfoFromFS_def Let_def)

lemma sync_checkpoint:
  assumes "restartable c fs d chs"
  obtains cp where "loadCurrentInfo c d = Ok (Some cp)" and "syncCPInfoFromFS fs cp = Ok (checkpoint_of c chs)"
proof -
  from assms obtain pre suf where pre: "last chs = pre @ suf" and
      saved: "getc c d blkMgrInfoKey = Ok (Some (cp_marshal (checkpoint_of c (butlast chs @ [pre]))))"
    by (auto simp: restartable_def saved_rel_def)
  let ?cp = "checkpoint_of c (butlast chs @ [pre])" and ?n = "int (length chs) - 1"
  from assms have chs: "chs \<noteq> []" and nums: "numbered (concat chs)"
    and small: "int (length chs) < 2 ^ 62" "int (length (contents c (last chs))) < 2 ^ 62"
    and stor: "list_all (list_all (storable c)) chs"
    by (auto simp: restartable_def dest: entries_storable)
  have chs_eq: "chs = butlast chs @ [pre @ suf]" using chs pre by (metis append_butlast_last_id)
  have stor_suf: "list_all (storable c) suf" using stor by (subst (asm) chs_eq) simp
  have n: "latestFileChunkSuffixNum ?cp = ?n" "latestFileChunksize ?cp = int (length (contents c pre))"
    using chs by (simp_all add: checkpoint_of_def of_nat_diff Suc_leI)
  have "go_cp ?cp" using small chs pre by (simp add: go_cp_def go_int_def n)
  with saved have load: "loadCurrentInfo c d = Ok (Some ?cp)" by (rule load_saved)
  show thesis
  proof (cases "map_of fs ?n")
    case None
    with assms have "last chs = []" by (simp add: restartable_def)
    with pre chs_eq None load that n show thesis by (simp add: syncCPInfoFromFS_def)
  next
    case (Some f)
    with assms obtain t where t: "torn c t" "f = contents c pre @ contents c suf @ t"
      by (auto simp: restartable_def pre)
    show thesis
    proof (cases "int (length f) = int (length (contents c pre))")
      case True
      with t(2) have "length (contents c suf) = 0" by (simp only: length_append of_nat_eq_iff)
      then have "contents c suf = []" by simp
      with stor_suf have "suf = []" by (simp add: contents_Nil)
      with chs_eq Some True load that n show thesis by (simp add: syncCPInfoFromFS_def)
    next
      case False
      have "scan_loop \<lparr>bs_fileNum = ?n, bs_file = f, bs_currentOffset = int (length (contents c pre))\<rparr> 0 =
          Ok (int (length (contents c pre)) + int (length (contents c suf)), 0 + int (length suf))"
        by (rule scan_loop_blocks [OF stor_suf, of _ _ t]) (use t in simp_all)
      then have scan: "scanForLastCompleteBlock fs ?n (int (length (contents c pre))) =
          Ok (int (length (contents c (pre @ suf))), int (length suf))"
        using Some by (simp add: scanForLastCompleteBlock_def newBlockfileStream_def)
      have "syncCPInfoFromFS fs ?cp = Ok (checkpoint_of c chs)"
      proof (cases "suf = []")
        case True
        then show ?thesis
          using Some False scan chs_eq n by (simp add: syncCPInfoFromFS_def Let_def)
      next
        case ne: False
        have cpf: "isChainEmpty ?cp = (concat (butlast chs @ [pre]) = [])"
            "lastBlockNumber ?cp = of_nat (length (concat (butlast chs @ [pre])) - 1)"
          by (simp_all add: checkpoint_of_def)
        have "syncCPInfoFromFS fs ?cp = Ok (?cp\<lparr>latestFileChunksize := int (length (contents c (pre @ suf))),
            lastBlockNumber := (if isChainEmpty ?cp then word_of_int (int (length suf) - 1)
              else lastBlockNumber ?cp + word_of_int (int (length suf))), isChainEmpty := False\<rparr>)"
          by (rule sync_scanned [of _ _ f]) (use Some False scan ne n in simp_all)
        then show ?thesis
          unfolding cpf checkpoint_extend [where c = c and cs = "butlast chs" and pre = pre, OF ne] chs_eq [symmetric] .
      qed
      with load that show thesis by blast
    qed
  qed
qed

lemma restart_dir:
  assumes "restartable c fs d chs" and "n = int (length chs) - 1"
  shows "dir_ok c (truncateFile n (int (length (contents c (last chs)))) (newBlockfileWriter n fs)) chs"
proof -
  let ?fs = "truncateFile n (int (length (contents c (last chs)))) (newBlockfileWriter n fs)"
  from assms(1) have chs: "chs \<noteq> []" and files: "files_at c fs 0 (butlast chs)"
    and later: "\<forall>k \<ge> int (length chs). map_of fs k = None \<or> map_of fs k = Some []"
    by (simp_all add: restartable_def)
  have fs: "map_of ?fs k = (if k = n then Some (contents c (last chs)) else map_of fs k)" for k
  proof (cases "map_of fs n")
    case None
    with assms have "last chs = []" by (simp add: restartable_def)
    with None show ?thesis by (simp add: newBlockfileWriter_def truncateFile_def file_of_def)
  next
    case (Some f)
    with assms obtain t where "f = contents c (last chs) @ t" by (auto simp: restartable_def)
    with Some show ?thesis by (cases "t = []") (simp_all add: newBlockfileWriter_def truncateFile_def file_of_def)
  qed
  have "map_of ?fs (0 + int i) = Some (contents c (chs ! i))" if i: "i < length chs" for i
  proof (cases "i = length chs - 1")
    case True
    then have "int i = n" using chs assms(2) by (simp add: of_nat_diff Suc_leI)
    moreover have "chs ! i = last chs" using True chs by (simp add: last_conv_nth)
    ultimately show ?thesis by (simp add: fs)
  next
    case False
    then have "i < length chs - 1" using i by linarith
    moreover from this have "int i \<noteq> n" using assms(2) by linarith
    ultimately show ?thesis using files by (simp add: fs files_at_def nth_butlast)
  qed
  then have "files_at c ?fs 0 chs" unfolding files_at_def by blast
  moreover have "map_of ?fs k = None \<or> map_of ?fs k = Some []" if "k \<ge> int (length chs)" for k
    using that later assms(2) unfolding fs by simp
  ultimately show ?thesis using chs unfolding dir_ok_def by blast
qed

lemma entries_file_split:
  assumes "entries_file c k off bs = es1 @ es2" and "es1 \<noteq> []" and "last es1 = (k', off', b)"
  obtains pre suf where "bs = pre @ b # suf" and "k' = k" and "off' = off + int (length (contents c pre))"
    and "es2 = entries_file c k (off' + int (length (framed c b))) suf"
  using assms
proof (induction bs arbitrary: off es1 thesis)
  case (Cons b0 bs)
  then obtain es1' where es1: "es1 = (k, off, b0) # es1'" "entries_file c k (off + int (length (framed c b0))) bs = es1' @ es2"
    by (auto simp: Cons_eq_append_conv)
  show ?case
  proof (cases "es1' = []")
    case True
    with es1 Cons.prems show ?thesis by (intro Cons.prems(1) [of "[]" bs]) auto
  next
    case False
    with es1 Cons.prems(4) obtain pre suf where "bs = pre @ b # suf" "k' = k"
        "off' = off + int (length (framed c b0)) + int (length (contents c pre))"
        "es2 = entries_file c k (off' + int (length (framed c b))) suf"
      by (elim Cons.IH [rotated]) auto
    then show ?thesis by (intro Cons.prems(1) [of "b0 # pre" suf]) simp_all
  qed
qed simp

lemma entries_split:
  assumes "entries_from c k chs = es1 @ es2" and "es1 \<noteq> []" and "last es1 = (k', off, b)"
  obtains i pre suf where "i < length chs" and "chs ! i = pre @ b # suf" and "k' = k + int i" and "off = int (length (contents c pre))"
    and "es2 = entries_file c k' (off + int (length (framed c b))) suf @ entries_from c (k' + 1) (drop (Suc i) chs)"
  using assms
proof (induction chs arbitrary: k es1 thesis)
  case (Cons ch chs)
  from Cons.prems(2) obtain us where
    "(es1 = entries_file c k 0 ch @ us \<and> entries_from c (k + 1) chs = us @ es2 \<and> us \<noteq> []) \<or>
     (es1 @ us = entries_file c k 0 ch \<and> es2 = us @ entries_from c (k + 1) chs)"
    by (fastforce simp: append_eq_append_conv2)
  then show ?case
  proof (elim disjE conjE)
    assume us: "es1 = entries_file c k 0 ch @ us" "entries_from c (k + 1) chs = us @ es2" "us \<noteq> []"
    with Cons.prems(4) have "last us = (k', off, b)" by simp
    with us obtain i pre suf where "i < length chs" "chs ! i = pre @ b # suf" "k' = k + 1 + int i" "off = int (length (contents c pre))"
        "es2 = entries_file c k' (off + int (length (framed c b))) suf @ entries_from c (k' + 1) (drop (Suc i) chs)"
      by (elim Cons.IH [rotated]) auto
    then show ?thesis by (intro Cons.prems(1) [of "Suc i" pre suf]) simp_all
  next
    assume us: "es1 @ us = entries_file c k 0 ch" "es2 = us @ entries_from c (k + 1) chs"
    from us(1) [symmetric] Cons.prems(3,4) obtain pre suf where "ch = pre @ b # suf" "k' = k" "off = 0 + int (length (contents c pre))"
        "us = entries_file c k (off + int (length (framed c b))) suf"
      by (rule entries_file_split)
    with us show ?thesis by (intro Cons.prems(1) [of 0 pre suf]) simp_all
  qed
qed simp

lemma files_at_drop: "files_at c fs k chs \<Longrightarrow> files_at c fs (k + int j) (drop j chs)"
  unfolding files_at_def by (auto simp: add.assoc simp flip: of_nat_add)

lemma newBlockStream_at: "map_of fs k = Some f \<Longrightarrow> 0 \<le> off \<Longrightarrow> newBlockStream fs k off e = Ok (stream_at fs k e f off)"
  by (simp add: newBlockStream_def newBlockfileStream_def stream_at_def)

text \<open>The stream, from inside file \<open>i\<close>, indexes the rest of the file and the files behind it.\<close>

lemma sync_loop_rest:
  assumes "files_at c fs 0 chs" and "list_all (list_all (storable c)) chs" and "i < length chs" and "chs ! i = pre @ suf"
    and "index_all c (entries_file c (int i) (int (length (contents c pre))) suf @ entries_from c (int i + 1) (drop (Suc i) chs)) d = Ok d'"
  shows "sync_loop c (stream_at fs (int i) (int (length chs) - 1) (contents c (chs ! i)) (int (length (contents c pre)))) d = (d', Ok ())"
proof -
  from assms(5) obtain d1 where d1: "index_all c (entries_file c (int i) (int (length (contents c pre))) suf) d = Ok d1"
      "index_all c (entries_from c (int i + 1) (drop (Suc i) chs)) d1 = Ok d'"
    by (auto simp: index_all_append go_res)
  have stor: "list_all (storable c) (pre @ suf)" using assms(2-4) by (metis list_all_length)
  have e: "int (length chs) - 1 = int i + int (length (drop (Suc i) chs))" using assms(3) by (simp add: of_nat_diff Suc_leI)
  have "sync_loop c (stream_at fs (int i) (int (length chs) - 1) (contents c (chs ! i)) (int (length (contents c pre)))) d =
      sync_loop c (stream_at fs (int i) (int (length chs) - 1) (contents c (chs ! i)) (int (length (contents c (chs ! i))))) d1"
    by (rule sync_loop_file [OF _ _ _ _ d1(1)]) (use stor assms(4) in simp_all)
  also have "\<dots> = (d', Ok ())"
    unfolding e
  proof (rule sync_loop_files [OF _ _ _ d1(2)])
    show "files_at c fs (int i + 1) (drop (Suc i) chs)" using files_at_drop [OF assms(1), of "Suc i"] by (simp add: add.commute)
    show "list_all (list_all (storable c)) (drop (Suc i) chs)"
      using assms(2) unfolding list_all_iff by (meson in_set_dropD)
  qed simp
  finally show ?thesis .
qed

lemma sync_index_rel:
  assumes "store_ok c" and "dir_ok c fs chs" and "list_all (good_entry c) (entries_from c 0 chs)"
    and es: "entries_from c 0 chs = es1 @ es2" and idx: "index_rel c d es1" and d': "index_all c es2 d = Ok d'"
  shows "syncIndex c (checkpoint_of c chs) fs d = (d', Ok ())"
proof -
  from assms(2) have chs: "chs \<noteq> []" and files: "files_at c fs 0 chs" by (simp_all add: dir_ok_def)
  note stor = entries_storable [OF assms(3)]
  have fl: "map_of fs (int i) = Some (contents c (chs ! i))" if "i < length chs" for i
    using files that by (simp add: files_at_def)
  have items: "sc_items c = attrsToIndex" using assms(1) by (simp add: store_ok_def)
  have e: "latestFileChunkSuffixNum (checkpoint_of c chs) = int (length chs) - 1" by (simp add: checkpoint_of_def)
  show ?thesis
  proof (cases "es1 = []")
    case True
    obtain ch chs' where cc: "chs = ch # chs'" using chs by (cases chs) auto
    have "sync_loop c (stream_at fs (int 0) (int (length chs) - 1) (contents c (chs ! 0)) (int (length (contents c [])))) d = (d', Ok ())"
      by (rule sync_loop_rest [OF files stor, of 0 "[]" ch]) (use True es d' cc in simp_all)
    moreover have "newBlockStream fs 0 0 (int (length chs) - 1) = Ok (stream_at fs 0 (int (length chs) - 1) (contents c (chs ! 0)) 0)"
      using fl [of 0] cc by (intro newBlockStream_at) simp_all
    moreover have "getLastBlockIndexed (sc_L c) (sc_dbName c) d = Err errIndexEmpty" using idx True by (simp add: index_rel_def)
    ultimately show ?thesis unfolding syncIndex_def e by simp
  next
    case False
    obtain k off b where l: "last es1 = (k, off, b)" by (metis surj_pair)
    obtain i pre suf where i: "i < length chs" "chs ! i = pre @ b # suf" "k = 0 + int i" "off = int (length (contents c pre))"
        "es2 = entries_file c k (off + int (length (framed c b))) suf @ entries_from c (k + 1) (drop (Suc i) chs)"
      by (rule entries_split [OF es False l])
    have "list_all (storable c) (pre @ b # suf)" using stor i(1,2) by (metis list_all_length)
    then have b: "storable c b" by simp
    have "indexed c d (k, off, b)" using idx False l unfolding index_rel_def by (metis last_in_set)
    then have last: "getLastBlockIndexed (sc_L c) (sc_dbName c) d = Ok (bh_Number (blk_Header b))"
      "getBlockLocByBlockNum (sc_items c) (sc_L c) (sc_dbName c) d (bh_Number (blk_Header b)) =
        Ok \<lparr>fileSuffixNum = k, flp_loc = \<lparr>offset = off, bytesLength = 0\<rparr>\<rparr>"
      using idx False l items by (simp_all add: index_rel_def indexed_def)
    have start: "newBlockStream fs k off (int (length chs) - 1) = Ok (stream_at fs k (int (length chs) - 1) (contents c (chs ! i)) off)"
      using fl i by (intro newBlockStream_at) simp_all
    have "blockStream_next (stream_at fs k (int (length chs) - 1) (contents c (chs ! i)) off) =
        Ok (Some (block_bytes c b, \<lparr>pi_fileNum = k, pi_blockStartOffset = off, pi_blockBytesOffset = off + int (length (len_bytes c b))\<rparr>),
          stream_at fs k (int (length chs) - 1) (contents c (chs ! i)) (off + int (length (framed c b))))"
      by (rule stream_block [OF b, of _ _ "contents c suf"]) (use i in simp_all)
    moreover have "sync_loop c (stream_at fs (int i) (int (length chs) - 1) (contents c (chs ! i)) (int (length (contents c (pre @ [b]))))) d = (d', Ok ())"
      by (rule sync_loop_rest [OF files stor i(1), of _ suf]) (use i d' in simp_all)
    ultimately show ?thesis using last start i(3,4) unfolding syncIndex_def e by simp
  qed
qed

lemma retrieveBlockHeader_entry:
  assumes "sc_items c = attrsToIndex" and "at_entry c fs (k, off, b)" and "storable c b" and "indexed c d (k, off, b)"
  shows "retrieveBlockHeaderByNumber c fs d (bh_Number (blk_Header b)) = Ok (blk_Header b)"
  using assms(1,4) fetchBlockBytes_entry [OF assms(2,3)] storable_read_back(2,4) [OF assms(3)]
  by (simp add: retrieveBlockHeaderByNumber_def indexed_def)

lemma restart_rel:
  assumes c: "store_ok c" and r: "restartable c fs d chs"
  obtains m where "newBlockfileMgr c fs d = Ok m" and "store_rel c m chs"
proof -
  let ?cp = "checkpoint_of c chs" and ?n = "int (length chs) - 1"
  let ?fs = "truncateFile ?n (int (length (contents c (last chs)))) (newBlockfileWriter ?n fs)"
  obtain cp where cp: "loadCurrentInfo c d = Ok (Some cp)" "syncCPInfoFromFS fs cp = Ok ?cp" by (rule sync_checkpoint [OF r])
  have dir: "dir_ok c ?fs chs" by (rule restart_dir [OF r refl])
  from r have good: "list_all (good_entry c) (entries_from c 0 chs)" and nums: "numbered (concat chs)"
    and len: "length (concat chs) < 2 ^ 63" and chs: "chs \<noteq> []" and saved: "saved_rel c d chs"
    and sizes: "int (length chs) < 2 ^ 62" "int (length (contents c (last chs))) < 2 ^ 62"
    by (simp_all add: restartable_def)
  from r obtain es1 es2 where es: "entries_from c 0 chs = es1 @ es2" "index_rel c d es1" by (auto simp: restartable_def)
  have "distinct (map entry_number (es1 @ es2))" using distinct_numbers [OF len nums] by (simp flip: es(1) add: entries_numbers)
  then obtain d' where d': "index_all c es2 d = Ok d'" "index_rel c d' (entries_from c 0 chs)"
      "getc c d' blkMgrInfoKey = getc c d blkMgrInfoKey"
    using index_all_rel [OF c _ es(2), of es2] good unfolding es(1) by auto
  have sync: "syncIndex c ?cp ?fs d = (d', Ok ())" by (rule sync_index_rel [OF c dir good es d'(1)])
  let ?m = "\<lambda>bc. \<lparr>bm_dir = ?fs, bm_db = d', bm_cpInfo = ?cp, bm_currentFileWriter = ?n, bm_bcInfo = bc\<rparr>"
  have cpf: "latestFileChunkSuffixNum ?cp = ?n" "latestFileChunksize ?cp = int (length (contents c (last chs)))"
      "isChainEmpty ?cp = (concat chs = [])" "lastBlockNumber ?cp = of_nat (length (concat chs) - 1)"
    by (simp_all add: checkpoint_of_def)
  have rel: "store_rel c (?m bc) chs" if "bc_Height bc = of_nat (length (concat chs))" for bc
    using that good nums len sizes dir d'(2,3) saved cpf(3)
    by (simp add: store_rel_def base_rel_def saved_rel_def)
  have eq: "newBlockfileMgr c fs d = (if concat chs = [] then Ok (?m \<lparr>bc_Height = 0, bc_CurrentBlockHash = [], bc_PreviousBlockHash = []\<rparr>)
      else (case retrieveBlockHeaderByNumber c ?fs d' (lastBlockNumber ?cp) of
              Ok hdr \<Rightarrow> rbind (BlockHeader_Hash (sc_hash c) hdr) (\<lambda>h.
                Ok (?m \<lparr>bc_Height = lastBlockNumber ?cp + 1, bc_CurrentBlockHash = h, bc_PreviousBlockHash = bh_PreviousHash hdr\<rparr>))
            | _ \<Rightarrow> Panic))"
    unfolding newBlockfileMgr_def cp using cp(2) sync by (simp add: Let_def cpf)
  show thesis
  proof (cases "concat chs = []")
    case True
    with eq rel [of "\<lparr>bc_Height = 0, bc_CurrentBlockHash = [], bc_PreviousBlockHash = []\<rparr>"] that show thesis by simp
  next
    case False
    let ?bc = "\<lambda>h. \<lparr>bc_Height = of_nat (length (concat chs)), bc_CurrentBlockHash = h, bc_PreviousBlockHash = []\<rparr>"
    have st: "is_store c (?m (?bc [])) chs" using rel [of "?bc []"] c by (simp add: is_store_def store_rel_def)
    have i: "length (concat chs) - 1 < length (concat chs)" using False by (metis diff_less length_greater_0_conv zero_less_one)
    then have next_num: "(of_nat (length (concat chs) - 1) :: uint64) + 1 = of_nat (length (concat chs))"
      by (metis Suc_diff_1 gr_implies_not0 neq0_conv of_nat_Suc add.commute)
    let ?b = "concat chs ! (length (concat chs) - 1)"
    obtain k off where e: "(k, off, ?b) \<in> set (entries_from c 0 chs)" "bh_Number (blk_Header ?b) = of_nat (length (concat chs) - 1)"
      by (rule store_nth [OF st i])
    note en = store_entry [OF st e(1)]
    have "sc_items c = attrsToIndex" using c by (simp add: store_ok_def)
    from retrieveBlockHeader_entry [OF this, of ?fs k off ?b d'] en e(2)
    have "retrieveBlockHeaderByNumber c ?fs d' (lastBlockNumber ?cp) = Ok (blk_Header ?b)" by (simp add: cpf)
    moreover have "BlockHeader_Hash (sc_hash c) (blk_Header ?b) = Ok (sc_hash c (blk_Header ?b))"
      using en(2) by (simp add: BlockHeader_Hash_def storable_def)
    ultimately have "newBlockfileMgr c fs d = Ok (?m \<lparr>bc_Height = lastBlockNumber ?cp + 1,
        bc_CurrentBlockHash = sc_hash c (blk_Header ?b), bc_PreviousBlockHash = bh_PreviousHash (blk_Header ?b)\<rparr>)"
      unfolding eq if_not_P [OF False] by simp
    then show thesis by (rule that) (rule rel, use next_num in \<open>simp add: cpf\<close>)
  qed
qed

end
