(* ===== verification/Block_Chain.thy ===== *)
theory Block_Chain
  imports Block_Recovery
begin

text \<open>
  The life of a block store: started on an empty directory, blocks added, appends that fail, crashes at
  any point of an addition and restarts. The properties say that the operations of
  \<open>fsblkstorage/blockfile_mgr.go\<close> then return what the list of the added blocks holds.
\<close>

section \<open>The first start\<close>

lemma start_rel:
  assumes c: "store_ok c" and fresh: "\<And>q. getc c d q = Ok None"
  obtains m where "newBlockfileMgr c [] d = Ok m" and "store_rel c m [[]]"
proof -
  let ?cp = "\<lparr>latestFileChunkSuffixNum = 0, latestFileChunksize = 0, isChainEmpty = True, lastBlockNumber = 0\<rparr>"
  obtain d1 where d1: "saveCurrentInfo c ?cp d = Ok d1" "getc c d1 blkMgrInfoKey = Ok (Some (cp_marshal ?cp))"
      "\<And>q. q \<noteq> blkMgrInfoKey \<Longrightarrow> getc c d1 q = getc c d q"
    by (rule save_effect [OF c, of ?cp d]) blast
  have cp: "?cp = checkpoint_of c [[]]" by (simp add: checkpoint_of_def)
  have load: "loadCurrentInfo c d1 = Ok (Some ?cp)"
    using d1(2) by (rule load_saved) (simp add: go_cp_def go_int_def)
  have "index_rel c d []"
    by (simp add: index_rel_def getBlockLocByBlockNum_def getBlockLocByHash_def getBlockLocByTxID_def getTxLoc_def
        getTxValidationCodeByTxID_def getLastBlockIndexed_def lookup_loc_def fresh attrsToIndex_def)
  then have "index_rel c d1 []" using index_rel_cong [OF d1(3)] by simp
  moreover have "saved_rel c d1 [[]]" using d1(2) unfolding saved_rel_def cp by auto
  ultimately have "restartable c [] d1 [[]]"
    by (simp add: restartable_def numbered_def files_at_def)
  then obtain m where "newBlockfileMgr c [] d1 = Ok m" "store_rel c m [[]]" by (rule restart_rel [OF c])
  moreover have "newBlockfileMgr c [] d = newBlockfileMgr c [] d1"
    using fresh d1(1) load unfolding newBlockfileMgr_def by (simp add: loadCurrentInfo_def Let_def)
  ultimately show thesis using that by simp
qed

section \<open>The effects of an addition\<close>

text \<open>
  The changes of files and database that \<open>addBlock\<close> makes, in order; \<open>add_effects_run\<close> shows that they
  are those of \<open>addBlock\<close>.
\<close>

datatype effect = Create_File int | Append_File int bytes | Write_DB "(bytes \<times> bytes option) list"

fun run_effect :: "'d store_conf \<Rightarrow> effect \<Rightarrow> dir \<times> 'd \<Rightarrow> (string, dir \<times> 'd) res" where
  "run_effect c (Create_File k) (fs, d) = Ok (newBlockfileWriter k fs, d)"
| "run_effect c (Append_File k b) (fs, d) = Ok (writer_append k b fs, d)"
| "run_effect c (Write_DB kvs) (fs, d) = rbind (DBHandle_WriteBatch (sc_L c) (sc_dbName c) d kvs) (\<lambda>d1. Ok (fs, d1))"

fun run_effects :: "'d store_conf \<Rightarrow> effect list \<Rightarrow> dir \<times> 'd \<Rightarrow> (string, dir \<times> 'd) res" where
  "run_effects c [] s = Ok s"
| "run_effects c (x # xs) s = rbind (run_effect c x s) (run_effects c xs)"

lemma run_effects_append: "run_effects c (xs @ ys) s = rbind (run_effects c xs s) (run_effects c ys)"
proof (induction xs arbitrary: s)
  case (Cons x xs)
  then show ?case by (cases "run_effect c x s") simp_all
qed simp

definition index_batch :: "'d store_conf \<Rightarrow> block_entry \<Rightarrow> (bytes \<times> bytes option) list" where
  "index_batch c e = go_map_of (map (\<lambda>(k, v). (k, Some v)) (the_ok (index_puts attrsToIndex (idx_info c e))))"

text \<open>Appending a block to file \<open>k\<close> at its end \<open>off\<close>.\<close>

definition append_effects :: "'d store_conf \<Rightarrow> int \<Rightarrow> int \<Rightarrow> Block \<Rightarrow> effect list" where
  "append_effects c k off b =
     [Append_File k (framed c b),
      Write_DB [(blkMgrInfoKey, Some (cp_marshal
        \<lparr>latestFileChunkSuffixNum = k, latestFileChunksize = off + int (length (framed c b)), isChainEmpty = False,
         lastBlockNumber = number_of b\<rparr>))],
      Write_DB (index_batch c (k, off, b))]"

definition move_effects :: "int \<Rightarrow> uint64 \<Rightarrow> effect list" where
  "move_effects k lastNum =
     [Create_File k,
      Write_DB [(blkMgrInfoKey, Some (cp_marshal
        \<lparr>latestFileChunkSuffixNum = k, latestFileChunksize = 0, isChainEmpty = False, lastBlockNumber = lastNum\<rparr>))]]"

definition add_effects :: "'d store_conf \<Rightarrow> Block \<Rightarrow> 'd blockfileMgr \<Rightarrow> effect list" where
  "add_effects c b m =
     (let k = latestFileChunkSuffixNum (bm_cpInfo m); off = latestFileChunksize (bm_cpInfo m)
      in if off + int (length (framed c b)) > sc_maxBlockfileSize c
         then move_effects (k + 1) (lastBlockNumber (bm_cpInfo m)) @ append_effects c (k + 1) 0 b
         else append_effects c k off b)"

text \<open>A crash leaves some of the effects, the last append possibly cut short.\<close>

definition crash_prefix :: "effect list \<Rightarrow> effect list \<Rightarrow> bool" where
  "crash_prefix xs ys \<longleftrightarrow> (\<exists>n. ys = take n xs) \<or>
     (\<exists>us k x vs j. xs = us @ Append_File k x # vs \<and> j < length x \<and> ys = us @ [Append_File k (take j x)])"

lemma index_entry_batch:
  assumes "store_ok c" and "index_entry c e d = Ok d'"
  shows "DBHandle_WriteBatch (sc_L c) (sc_dbName c) d (index_batch c e) = Ok d'"
  using assms by (auto simp: store_ok_def index_entry_def indexBlock_def index_batch_def attrsToIndex_def go_res)

section \<open>Crashes\<close>

text \<open>A store on disk with nothing left over.\<close>

definition clean :: "'d store_conf \<Rightarrow> dir \<Rightarrow> 'd \<Rightarrow> Block list list \<Rightarrow> bool" where
  "clean c fs d chs \<longleftrightarrow>
     list_all (good_entry c) (entries_from c 0 chs) \<and> numbered (concat chs) \<and> length (concat chs) < 2 ^ 63 \<and>
     int (length chs) < 2 ^ 62 \<and> int (length (contents c (last chs))) < 2 ^ 62 \<and>
     dir_ok c fs chs \<and> index_rel c d (entries_from c 0 chs) \<and> saved_rel c d chs"

lemma store_rel_clean: "store_rel c m chs \<Longrightarrow> clean c (bm_dir m) (bm_db m) chs"
  by (simp add: store_rel_def base_rel_def clean_def)

lemma dir_ok_restart:
  assumes "dir_ok c fs chs"
  shows "chs \<noteq> []" "files_at c fs 0 (butlast chs)" "map_of fs (int (length chs) - 1) = Some (contents c (last chs))"
    "\<forall>k \<ge> int (length chs). map_of fs k = None \<or> map_of fs k = Some []"
proof -
  from assms have chs: "chs \<noteq> []" and files: "files_at c fs 0 chs" by (simp_all add: dir_ok_def)
  from chs show "chs \<noteq> []" .
  show "files_at c fs 0 (butlast chs)" using files by (simp add: files_at_def nth_butlast)
  show "\<forall>k \<ge> int (length chs). map_of fs k = None \<or> map_of fs k = Some []" using assms by (simp add: dir_ok_def)
  have "map_of fs (0 + int (length chs - 1)) = Some (contents c (chs ! (length chs - 1)))"
    using files chs unfolding files_at_def by (metis diff_less length_greater_0_conv zero_less_one)
  moreover have "int (length chs - 1) = int (length chs) - 1" using chs by (simp add: of_nat_diff Suc_leI)
  ultimately show "map_of fs (int (length chs) - 1) = Some (contents c (last chs))" using chs by (simp add: last_conv_nth)
qed

lemma clean_restartable:
  assumes "clean c fs d chs"
  shows "restartable c fs d chs"
proof -
  from assms have dir: "dir_ok c fs chs" by (simp add: clean_def)
  have "torn c []" by (simp add: torn_def)
  moreover have "entries_from c 0 chs = entries_from c 0 chs @ []" by simp
  ultimately show ?thesis
    using assms dir_ok_restart [OF dir] unfolding clean_def restartable_def by (metis append_Nil2 option.distinct(1))
qed

text \<open>What a block must satisfy to follow on a chain.\<close>

definition extends :: "'d store_conf \<Rightarrow> Block list list \<Rightarrow> Block \<Rightarrow> bool" where
  "extends c chs b \<longleftrightarrow> storable c b \<and> indexable b \<and> ''lkMgrInfo'' \<notin> block_ids c b \<and>
     number_of b = of_nat (length (concat chs)) \<and> length (concat chs) + 1 < 2 ^ 63 \<and>
     int (length (contents c (last chs))) + int (length (framed c b)) < 2 ^ 62"

lemma saved_write:
  assumes "store_ok c"
  obtains d' where "DBHandle_WriteBatch (sc_L c) (sc_dbName c) d [(blkMgrInfoKey, Some (cp_marshal i))] = Ok d'"
    and "getc c d' blkMgrInfoKey = Ok (Some (cp_marshal i))" and "\<And>es. index_rel c d' es = index_rel c d es"
proof -
  obtain d' where d': "saveCurrentInfo c i d = Ok d'" "getc c d' blkMgrInfoKey = Ok (Some (cp_marshal i))"
      "\<And>q. q \<noteq> blkMgrInfoKey \<Longrightarrow> getc c d' q = getc c d q"
    by (rule save_effect [OF assms, of i d]) blast
  with that [of d'] index_rel_cong [OF d'(3)] show thesis by (simp add: saveCurrentInfo_def)
qed

lemma append_torn:
  assumes "clean c fs d chs" and "storable c b" and "j < length (framed c b)"
  shows "restartable c (writer_append (int (length chs) - 1) (take j (framed c b)) fs) d chs"
proof -
  let ?n = "int (length chs) - 1"
  let ?fs = "writer_append ?n (take j (framed c b)) fs"
  from assms(1) have dir: "dir_ok c fs chs" and rest: "restartable c fs d chs" by (simp_all add: clean_def clean_restartable)
  note parts = dir_ok_restart [OF dir]
  have "map_of ?fs ?n = Some (contents c (last chs) @ take j (framed c b))"
    using parts(3) by (simp add: map_of_writer_append file_of_def)
  moreover have "torn c (take j (framed c b))"
    using assms(2,3) by (cases "j = 0") (auto simp: torn_def)
  moreover have "files_at c ?fs 0 (butlast chs)"
    using parts(2) by (auto simp: files_at_def map_of_writer_append)
  moreover have "\<forall>k \<ge> int (length chs). map_of ?fs k = None \<or> map_of ?fs k = Some []"
    using parts(4) by (simp add: map_of_writer_append)
  ultimately show ?thesis using rest unfolding restartable_def by (simp split: if_splits)
qed

lemma append_stages:
  assumes c: "store_ok c" and cl: "clean c fs d chs" and b: "extends c chs b"
    and k: "k = int (length chs) - 1" and off: "off = int (length (contents c (last chs)))"
  obtains d1 d2 where
    "run_effects c (take 2 (append_effects c k off b)) (fs, d) = Ok (writer_append k (framed c b) fs, d1)"
    "run_effects c (append_effects c k off b) (fs, d) = Ok (writer_append k (framed c b) fs, d2)"
    "restartable c (writer_append k (framed c b) fs) d (butlast chs @ [last chs @ [b]])"
    "restartable c (writer_append k (framed c b) fs) d1 (butlast chs @ [last chs @ [b]])"
    "clean c (writer_append k (framed c b) fs) d2 (butlast chs @ [last chs @ [b]])"
proof -
  let ?chs = "butlast chs @ [last chs @ [b]]" and ?fs = "writer_append k (framed c b) fs" and ?e = "(k, off, b)"
  let ?cp = "\<lparr>latestFileChunkSuffixNum = k, latestFileChunksize = off + int (length (framed c b)), isChainEmpty = False,
         lastBlockNumber = number_of b\<rparr>"
  from cl have dir: "dir_ok c fs chs" and idx: "index_rel c d (entries_from c 0 chs)" and saved: "saved_rel c d chs"
    and small: "int (length chs) < 2 ^ 62" and nums: "numbered (concat chs)" and good: "list_all (good_entry c) (entries_from c 0 chs)"
    by (simp_all add: clean_def)
  from b have ok: "storable c b" "indexable b" "''lkMgrInfo'' \<notin> block_ids c b" and num: "number_of b = of_nat (length (concat chs))"
    and len: "length (concat chs) + 1 < 2 ^ 63" and fits: "int (length (contents c (last chs))) + int (length (framed c b)) < 2 ^ 62"
    by (simp_all add: extends_def)
  have chs: "chs \<noteq> []" using dir by (simp add: dir_ok_def)
  note es = entries_append [OF chs, of c b, folded k off] and bs = concat_append [OF chs, of b]
  have cp: "?cp = checkpoint_of c ?chs" using chs k off num unfolding checkpoint_of_def bs by (simp add: of_nat_diff Suc_leI)
  have good_e: "good_entry c ?e" using ok chs small fits k off by (simp add: Suc_leI)
  have "distinct (map number_of (concat chs @ [b]))" using distinct_numbers [OF _ numbered_snoc [OF nums num]] len by simp
  then have new: "entry_number ?e \<notin> entry_number ` set (entries_from c 0 chs)"
    using entries_numbers [of c 0 chs] by (simp add: number_of_def flip: set_map)
  have sizes: "list_all (good_entry c) (entries_from c 0 ?chs)" "numbered (concat ?chs)" "length (concat ?chs) < 2 ^ 63"
      "int (length ?chs) < 2 ^ 62" "int (length (contents c (last ?chs))) < 2 ^ 62" "dir_ok c ?fs ?chs"
    using good good_e numbered_snoc [OF nums num] len small fits chs dir_ok_append [OF dir k, of b] unfolding es bs by simp_all
  obtain d1 where d1: "DBHandle_WriteBatch (sc_L c) (sc_dbName c) d [(blkMgrInfoKey, Some (cp_marshal ?cp))] = Ok d1"
      "getc c d1 blkMgrInfoKey = Ok (Some (cp_marshal ?cp))" "\<And>es. index_rel c d1 es = index_rel c d es"
    by (rule saved_write [OF c, of d ?cp]) blast
  obtain d2 where d2: "index_entry c ?e d1 = Ok d2" using index_entry_defined [OF c ok(1,2)] by blast
  note step = index_rel_step [OF c good_e idx [folded d1(3)] new d2]
  have saved1: "saved_rel c d1 ?chs" "saved_rel c d2 ?chs" using d1(2) step(2) cp by (auto simp: saved_rel_def)
  have saved0: "saved_rel c d ?chs" using saved by (fastforce simp: saved_rel_def)
  have clean2: "clean c ?fs d2 ?chs" using sizes step(1) saved1(2) unfolding clean_def es by blast
  have restart: "restartable c ?fs d' ?chs" if "saved_rel c d' ?chs" "index_rel c d' (entries_from c 0 chs)" for d'
    using clean_restartable [OF clean2] that es unfolding restartable_def by blast
  show thesis
  proof (rule that [of d1 d2])
    show "run_effects c (take 2 (append_effects c k off b)) (fs, d) = Ok (?fs, d1)"
      using d1(1) by (simp add: append_effects_def)
    show "run_effects c (append_effects c k off b) (fs, d) = Ok (?fs, d2)"
      using d1(1) index_entry_batch [OF c d2] by (simp add: append_effects_def)
  qed (use restart saved0 saved1 idx d1(3) clean2 in simp_all)
qed

text \<open>Whether a crash came after the block was complete.\<close>

definition completed :: "'d store_conf \<Rightarrow> Block \<Rightarrow> effect list \<Rightarrow> bool" where
  "completed c b ys \<longleftrightarrow> list_ex (\<lambda>x. case x of Append_File k bs \<Rightarrow> bs = framed c b | _ \<Rightarrow> False) ys"

lemma append_crash:
  assumes c: "store_ok c" and cl: "clean c fs d chs" and b: "extends c chs b"
    and k: "k = int (length chs) - 1" and off: "off = int (length (contents c (last chs)))"
    and ys: "crash_prefix (append_effects c k off b) ys"
  obtains fs' d' chs' where "run_effects c ys (fs, d) = Ok (fs', d')" and "restartable c fs' d' chs'"
    and "concat chs' = concat chs @ (if completed c b ys then [b] else [])"
proof -
  obtain d1 d2 where st:
    "run_effects c (take 2 (append_effects c k off b)) (fs, d) = Ok (writer_append k (framed c b) fs, d1)"
    "run_effects c (append_effects c k off b) (fs, d) = Ok (writer_append k (framed c b) fs, d2)"
    "restartable c (writer_append k (framed c b) fs) d (butlast chs @ [last chs @ [b]])"
    "restartable c (writer_append k (framed c b) fs) d1 (butlast chs @ [last chs @ [b]])"
    "clean c (writer_append k (framed c b) fs) d2 (butlast chs @ [last chs @ [b]])"
    by (rule append_stages [OF c cl b k off]) blast
  have "chs \<noteq> []" using cl by (simp add: clean_def dir_ok_def)
  note bs = concat_append [OF this, of b]
  from ys consider n where "ys = take n (append_effects c k off b)"
    | j where "j < length (framed c b)" "ys = [Append_File k (take j (framed c b))]"
    by (auto simp: crash_prefix_def append_effects_def Cons_eq_append_conv)
  then show thesis
  proof cases
    case (1 n)
    consider "n = 0" | "n = 1" | "n = 2" | "n \<ge> 3" by linarith
    then show thesis
    proof cases
      case 1
      with \<open>ys = _\<close> that [of fs d chs] clean_restartable [OF cl] show thesis by (simp add: completed_def)
    next
      case 2
      with \<open>ys = _\<close> that [OF _ st(3)] bs show thesis by (simp add: append_effects_def completed_def)
    next
      case 3
      with \<open>ys = _\<close> that [OF _ st(4)] bs st(1) show thesis by (simp add: append_effects_def completed_def)
    next
      case 4
      then have "ys = append_effects c k off b" using \<open>ys = _\<close> by (simp add: append_effects_def)
      with that [OF _ clean_restartable [OF st(5)]] bs st(2) show thesis by (simp add: append_effects_def completed_def)
    qed
  next
    case (2 j)
    then have "framed c b \<noteq> take j (framed c b)" by (metis length_take min.strict_order_iff min.commute)
    with 2 that [OF _ append_torn [OF cl _ 2(1)]] b k show thesis by (simp add: extends_def completed_def)
  qed
qed

text \<open>
  The mark of an empty chain is lost when the first block does not fit into the first file; the block
  has to be complete before that is repaired.
\<close>

definition first_fits :: "'d store_conf \<Rightarrow> 'd blockfileMgr \<Rightarrow> Block \<Rightarrow> bool" where
  "first_fits c m b \<longleftrightarrow> isChainEmpty (bm_cpInfo m) \<longrightarrow>
     latestFileChunksize (bm_cpInfo m) + int (length (framed c b)) \<le> sc_maxBlockfileSize c"

lemma move_stages:
  assumes c: "store_ok c" and cl: "clean c fs d chs" and ne: "concat chs \<noteq> []" and len: "int (length chs) + 1 < 2 ^ 62"
  obtains d1 where "clean c (newBlockfileWriter (int (length chs)) fs) d chs"
    "run_effects c (move_effects (int (length chs)) (of_nat (length (concat chs) - 1))) (fs, d) =
      Ok (newBlockfileWriter (int (length chs)) fs, d1)"
    "clean c (newBlockfileWriter (int (length chs)) fs) d1 (chs @ [[]])"
proof -
  let ?fs = "newBlockfileWriter (int (length chs)) fs"
  let ?cp = "\<lparr>latestFileChunkSuffixNum = int (length chs), latestFileChunksize = 0, isChainEmpty = False,
      lastBlockNumber = of_nat (length (concat chs) - 1)\<rparr>"
  obtain d1 where d1: "DBHandle_WriteBatch (sc_L c) (sc_dbName c) d [(blkMgrInfoKey, Some (cp_marshal ?cp))] = Ok d1"
      "getc c d1 blkMgrInfoKey = Ok (Some (cp_marshal ?cp))" "\<And>es. index_rel c d1 es = index_rel c d es"
    by (rule saved_write [OF c, of d ?cp]) blast
  from cl have dir: "dir_ok c fs chs" by (simp add: clean_def)
  have "map_of ?fs k = (if k = int (length chs) then Some [] else map_of fs k)" for k
    using dir by (auto simp: newBlockfileWriter_def dir_ok_def)
  then have "dir_ok c ?fs chs" using dir by (simp add: dir_ok_def files_at_def)
  then have "clean c ?fs d chs" using cl by (simp add: clean_def)
  moreover have "?cp = checkpoint_of c (chs @ [[]])" using ne by (simp add: checkpoint_of_def)
  then have "saved_rel c d1 (chs @ [[]])" using d1(2) by (simp add: saved_rel_def)
  then have "clean c ?fs d1 (chs @ [[]])"
    using cl d1(3) dir_ok_next [OF dir] len by (simp add: clean_def entries_from_snoc)
  ultimately show thesis using that d1(1) by (simp add: move_effects_def)
qed

lemma crash_prefix_append:
  assumes "crash_prefix (xs @ ys) zs" and "\<And>k x. Append_File k x \<notin> set xs"
  obtains n where "zs = take n xs" | us where "zs = xs @ us" and "crash_prefix ys us"
proof -
  from assms(1) consider n where "zs = take n (xs @ ys)"
    | us k x vs j where "xs @ ys = us @ Append_File k x # vs" "j < length x" "zs = us @ [Append_File k (take j x)]"
    by (auto simp: crash_prefix_def)
  then show thesis
  proof cases
    case (1 n)
    then have "zs = take n xs @ take (n - length xs) ys" by simp
    then show thesis
      using that(1) [of n] that(2) [of "take (n - length xs) ys"] by (cases "n \<le> length xs") (auto simp: crash_prefix_def)
  next
    case (2 us k x vs j)
    from 2(1) assms(2) [of k x] obtain ts where "us = xs @ ts" "ys = ts @ Append_File k x # vs"
      by (auto simp: append_eq_append_conv2 append_eq_Cons_conv)
    moreover from this(2) 2(2) have "crash_prefix ys (ts @ [Append_File k (take j x)])" unfolding crash_prefix_def by blast
    ultimately show thesis using that(2) [of "ts @ [Append_File k (take j x)]"] 2(3) by simp
  qed
qed

lemma store_extends:
  assumes "store_ok c" and "store_rel c m chs" and "admissible c m b" and "number_of b = bc_Height (bm_bcInfo m)"
  shows "extends c (chs @ [[]]) b"
    and "latestFileChunksize (bm_cpInfo m) + int (length (framed c b)) \<le> sc_maxBlockfileSize c \<Longrightarrow> extends c chs b"
proof -
  from assms(2) have base: "base_rel c m chs" by (simp add: store_rel_def)
  note b = rel_bounds [OF base assms(3)] base_rel_cp(2) [OF base]
  have height: "bc_Height (bm_bcInfo m) = of_nat (length (concat chs))" using base by (simp add: base_rel_def)
  show "extends c (chs @ [[]]) b"
    using assms(3,4) b height by (simp add: extends_def admissible_def)
  show "latestFileChunksize (bm_cpInfo m) + int (length (framed c b)) \<le> sc_maxBlockfileSize c \<Longrightarrow> extends c chs b"
    using assms b height by (simp add: extends_def admissible_def store_ok_def)
qed

lemma add_crash:
  assumes c: "store_ok c" and rel: "store_rel c m chs" and b: "admissible c m b" and num: "number_of b = bc_Height (bm_bcInfo m)"
    and fit: "first_fits c m b" and ys: "crash_prefix (add_effects c b m) ys"
  obtains fs' d' chs' where "run_effects c ys (bm_dir m, bm_db m) = Ok (fs', d')" and "restartable c fs' d' chs'"
    and "concat chs' = concat chs @ (if completed c b ys then [b] else [])"
proof -
  from rel have base: "base_rel c m chs" and mark: "isChainEmpty (bm_cpInfo m) \<longleftrightarrow> concat chs = []" by (simp_all add: store_rel_def)
  note cl = store_rel_clean [OF rel] and cp = base_rel_cp [OF base] and ext = store_extends [OF c rel b num]
  show thesis
  proof (cases "latestFileChunksize (bm_cpInfo m) + int (length (framed c b)) > sc_maxBlockfileSize c")
    case False
    with ys have "crash_prefix (append_effects c (int (length chs) - 1) (int (length (contents c (last chs)))) b) ys"
      by (simp add: add_effects_def cp)
    from append_crash [OF c cl ext(2) refl refl this] False that show thesis by auto
  next
    case True
    let ?k = "int (length chs)" and ?mv = "move_effects (int (length chs)) (of_nat (length (concat chs) - 1))"
    from True fit mark have ne: "concat chs \<noteq> []" by (auto simp: first_fits_def)
    obtain d1 where mv: "clean c (newBlockfileWriter ?k (bm_dir m)) (bm_db m) chs"
        "run_effects c ?mv (bm_dir m, bm_db m) = Ok (newBlockfileWriter ?k (bm_dir m), d1)"
        "clean c (newBlockfileWriter ?k (bm_dir m)) d1 (chs @ [[]])"
      by (rule move_stages [OF c cl ne rel_bounds(2) [OF base b]])
    have "crash_prefix (?mv @ append_effects c ?k 0 b) ys" using ys True by (simp add: add_effects_def cp)
    then consider n where "ys = take n ?mv" | us where "ys = ?mv @ us" "crash_prefix (append_effects c ?k 0 b) us"
      by (rule crash_prefix_append) (auto simp: move_effects_def)
    then show thesis
    proof cases
      case (1 n)
      consider "n = 0" | "n = 1" | "n \<ge> 2" by linarith
      then show thesis
      proof cases
        case 1
        with \<open>ys = _\<close> that [OF _ clean_restartable [OF cl]] show thesis by (simp add: completed_def)
      next
        case 2
        with \<open>ys = _\<close> that [OF _ clean_restartable [OF mv(1)]] show thesis by (simp add: completed_def move_effects_def)
      next
        case 3
        then have "ys = ?mv" using \<open>ys = _\<close> by (simp add: move_effects_def)
        with that [OF _ clean_restartable [OF mv(3)]] mv(2) show thesis by (simp add: completed_def move_effects_def)
      qed
    next
      case (2 us)
      obtain fs' d' chs' where "run_effects c us (newBlockfileWriter ?k (bm_dir m), d1) = Ok (fs', d')" "restartable c fs' d' chs'"
          "concat chs' = concat (chs @ [[]]) @ (if completed c b us then [b] else [])"
        by (rule append_crash [OF c mv(3) ext(1) _ _ 2(2)]) auto
      with 2(1) mv(2) that show thesis
        by (simp add: run_effects_append) (simp add: completed_def move_effects_def)
    qed
  qed
qed

section \<open>Additions\<close>

lemma index_entry_eq:
  assumes "store_ok c" and "storable c b" and "indexable b"
  shows "index_entry c (k, off, b) d = DBHandle_WriteBatch (sc_L c) (sc_dbName c) d (index_batch c (k, off, b))"
  using index_entry_defined [OF assms, of k off d] index_entry_batch [OF assms(1)] by fastforce

lemma append_run:
  assumes c: "store_ok c" and b: "storable c b" "indexable b"
    and m: "bm_currentFileWriter m = k" "latestFileChunkSuffixNum (bm_cpInfo m) = k" "latestFileChunksize (bm_cpInfo m) = off"
    and run: "run_effects c (append_effects c k off b) (bm_dir m, bm_db m) = Ok (fs', d')"
  obtains m' where "append_block c None b (block_bytes c b) (block_info c b) (sc_hash c (blk_Header b)) off m = (m', Ok ())"
    and "bm_dir m' = fs'" and "bm_db m' = d'"
proof -
  let ?cp = "\<lparr>latestFileChunkSuffixNum = k, latestFileChunksize = off + int (length (framed c b)), isChainEmpty = False,
      lastBlockNumber = number_of b\<rparr>"
  from run obtain d1 where d1: "saveCurrentInfo c ?cp (bm_db m) = Ok d1" "index_entry c (k, off, b) d1 = Ok d'"
      and fs': "fs' = writer_append k (framed c b) (bm_dir m)"
    by (auto simp: append_effects_def go_res saveCurrentInfo_def index_entry_eq [OF c b])
  show thesis
    by (rule that [of "m\<lparr>bm_dir := fs', bm_db := d', bm_cpInfo := ?cp,
        bm_bcInfo := updateBlockchainInfo (sc_hash c (blk_Header b)) b (bm_bcInfo m)\<rparr>"])
      (use d1 fs' m in \<open>simp_all add: append_block_def Let_def index_entry_def framed_def len_bytes_def number_of_def\<close>)
qed

lemma add_run:
  assumes c: "store_ok c" and b: "storable c b" "indexable b" and num: "number_of b = bc_Height (bm_bcInfo m)"
    and w: "bm_currentFileWriter m = latestFileChunkSuffixNum (bm_cpInfo m)"
    and run: "run_effects c (add_effects c b m) (bm_dir m, bm_db m) = Ok (fs', d')"
  obtains m' where "addBlock c None b m = (m', Ok ())" and "bm_dir m' = fs'" and "bm_db m' = d'"
proof (cases "latestFileChunksize (bm_cpInfo m) + int (length (framed c b)) > sc_maxBlockfileSize c")
  case False
  with run have "run_effects c (append_effects c (latestFileChunkSuffixNum (bm_cpInfo m)) (latestFileChunksize (bm_cpInfo m)) b)
      (bm_dir m, bm_db m) = Ok (fs', d')" by (simp add: add_effects_def Let_def)
  from append_run [OF c b w refl refl this] False that show thesis by (auto simp: addBlock_eq [OF b(1) num])
next
  case True
  let ?k = "latestFileChunkSuffixNum (bm_cpInfo m) + 1"
  let ?cp = "\<lparr>latestFileChunkSuffixNum = ?k, latestFileChunksize = 0, isChainEmpty = False, lastBlockNumber = lastBlockNumber (bm_cpInfo m)\<rparr>"
  from run True obtain d1 where d1: "saveCurrentInfo c ?cp (bm_db m) = Ok d1"
      "run_effects c (append_effects c ?k 0 b) (newBlockfileWriter ?k (bm_dir m), d1) = Ok (fs', d')"
    by (auto simp: add_effects_def Let_def run_effects_append go_res move_effects_def saveCurrentInfo_def)
  let ?m = "m\<lparr>bm_dir := newBlockfileWriter ?k (bm_dir m), bm_db := d1, bm_currentFileWriter := ?k, bm_cpInfo := ?cp\<rparr>"
  have mv: "moveToNextFile c m = Ok ?m" using d1(1) by (simp add: moveToNextFile_def Let_def)
  obtain m' where "append_block c None b (block_bytes c b) (block_info c b) (sc_hash c (blk_Header b)) 0 ?m = (m', Ok ())"
      "bm_dir m' = fs'" "bm_db m' = d'"
    by (rule append_run [OF c b, of ?m ?k 0 fs' d']) (use d1(2) in simp_all)
  with True mv that show thesis by (simp add: addBlock_eq [OF b(1) num])
qed

lemma truncate_append:
  assumes "map_of fs w = Some f"
  shows "map_of (truncateFile w (int (length f)) (writer_append w x fs)) k = map_of fs k"
  using assms by (simp add: truncateFile_def file_of_def map_of_writer_append)

lemma failed_append:
  assumes "base_rel c m chs"
  obtains m' e where "append_block c (Some j) b bytes info h off m = (m', Err e)" and "base_rel c m' chs"
    and "bm_db m' = bm_db m" and "bm_cpInfo m' = bm_cpInfo m"
proof -
  let ?x = "take j (EncodeVarint (of_nat (length bytes)) @ bytes)" and ?w = "bm_currentFileWriter m"
  let ?fs = "truncateFile ?w (latestFileChunksize (bm_cpInfo m)) (writer_append ?w ?x (bm_dir m))"
  from assms have dir: "dir_ok c (bm_dir m) chs" and w: "?w = int (length chs) - 1" by (simp_all add: base_rel_def)
  have "map_of ?fs k = map_of (bm_dir m) k" for k
    unfolding base_rel_cp(2) [OF assms] by (rule truncate_append) (use dir_ok_restart(3) [OF dir] w in simp)
  then have "dir_ok c ?fs chs" using dir by (simp add: dir_ok_def files_at_def)
  then have "base_rel c (m\<lparr>bm_dir := ?fs\<rparr>) chs" using assms by (simp add: base_rel_def)
  then show thesis by (intro that [of "m\<lparr>bm_dir := ?fs\<rparr>"]) (simp_all add: append_block_def Let_def)
qed

lemma addBlock_failed:
  assumes c: "store_ok c" and rel: "store_rel c m chs" and b: "admissible c m b" and num: "number_of b = bc_Height (bm_bcInfo m)"
    and fit: "first_fits c m b"
  obtains m' e chs' where "addBlock c (Some j) b m = (m', Err e)" and "store_rel c m' chs'" and "concat chs' = concat chs"
proof -
  from rel have base: "base_rel c m chs" and mark: "isChainEmpty (bm_cpInfo m) \<longleftrightarrow> concat chs = []"
    and saved: "saved_rel c (bm_db m) chs" by (simp_all add: store_rel_def)
  have s: "storable c b" using b by (simp add: admissible_def)
  show thesis
  proof (cases "latestFileChunksize (bm_cpInfo m) + int (length (framed c b)) > sc_maxBlockfileSize c")
    case False
    obtain m' e where "append_block c (Some j) b (block_bytes c b) (block_info c b) (sc_hash c (blk_Header b))
        (latestFileChunksize (bm_cpInfo m)) m = (m', Err e)" "base_rel c m' chs" "bm_db m' = bm_db m" "bm_cpInfo m' = bm_cpInfo m"
      by (rule failed_append [OF base])
    with False mark saved that [of m' e chs] show thesis by (simp add: addBlock_eq [OF s num] store_rel_def)
  next
    case True
    with fit mark have ne: "concat chs \<noteq> []" by (auto simp: first_fits_def)
    obtain m1 where m1: "moveToNextFile c m = Ok m1" "base_rel c m1 (chs @ [[]])"
        "getc c (bm_db m1) blkMgrInfoKey = Ok (Some (cp_marshal (bm_cpInfo m1)))" "\<not> isChainEmpty (bm_cpInfo m1)"
      by (rule move_rel [OF c base rel_bounds(2) [OF base b]]) blast
    have "bm_cpInfo m1 = checkpoint_of c (chs @ [[]])"
    proof -
      have "bm_cpInfo m1 = (checkpoint_of c (chs @ [[]]))\<lparr>isChainEmpty := isChainEmpty (bm_cpInfo m1)\<rparr>"
        using m1(2) by (simp add: base_rel_def)
      also have "\<dots> = (checkpoint_of c (chs @ [[]]))\<lparr>isChainEmpty := False\<rparr>" using m1(4) by simp
      also have "\<dots> = checkpoint_of c (chs @ [[]])" using ne by (simp add: checkpoint_of_def)
      finally show ?thesis .
    qed
    then have sv: "saved_rel c (bm_db m1) (chs @ [[]])" using m1(3) by (simp add: saved_rel_def)
    obtain m' e where "append_block c (Some j) b (block_bytes c b) (block_info c b) (sc_hash c (blk_Header b)) 0 m1 = (m', Err e)"
        "base_rel c m' (chs @ [[]])" "bm_db m' = bm_db m1" "bm_cpInfo m' = bm_cpInfo m1"
      by (rule failed_append [OF m1(2)])
    with True m1(1,4) sv ne that [of m' e "chs @ [[]]"] show thesis by (simp add: addBlock_eq [OF s num] store_rel_def)
  qed
qed

section \<open>The life of a store\<close>

inductive stores :: "'d store_conf \<Rightarrow> 'd blockfileMgr \<Rightarrow> Block list \<Rightarrow> bool" for c :: "'d store_conf" where
  first_start: "\<forall>q. getc c d q = Ok None \<Longrightarrow> newBlockfileMgr c [] d = Ok m \<Longrightarrow> stores c m []"
| add: "stores c m bs \<Longrightarrow> admissible c m b \<Longrightarrow> addBlock c None b m = (m', Ok ()) \<Longrightarrow> stores c m' (bs @ [b])"
| failed: "stores c m bs \<Longrightarrow> admissible c m b \<Longrightarrow> first_fits c m b \<Longrightarrow> addBlock c fault b m = (m', Err e) \<Longrightarrow> stores c m' bs"
| crashed: "stores c m bs \<Longrightarrow> admissible c m b \<Longrightarrow> first_fits c m b \<Longrightarrow> number_of b = bc_Height (bm_bcInfo m) \<Longrightarrow>
    crash_prefix (add_effects c b m) ys \<Longrightarrow> run_effects c ys (bm_dir m, bm_db m) = Ok (fs, d) \<Longrightarrow>
    newBlockfileMgr c fs d = Ok m' \<Longrightarrow> stores c m' (bs @ (if completed c b ys then [b] else []))"

lemma addBlock_number: "number_of b \<noteq> bc_Height (bm_bcInfo m) \<Longrightarrow> addBlock c fault b m = (m, Err ''Block number should have been the height'')"
  by (simp add: addBlock_def number_of_def)

lemma stores_rel:
  assumes "store_ok c" and "stores c m bs"
  obtains chs where "store_rel c m chs" and "concat chs = bs"
  using assms(2)
proof (induction arbitrary: thesis)
  case (first_start d m)
  then obtain m1 where "newBlockfileMgr c [] d = Ok m1" "store_rel c m1 [[]]" by (meson start_rel [OF assms(1)])
  with first_start show ?case by (metis concat.simps(1,2) append_Nil res.inject(1))
next
  case (add m bs b m')
  obtain chs where chs: "store_rel c m chs" "concat chs = bs" by (rule add.IH)
  have "number_of b = bc_Height (bm_bcInfo m)" using add.hyps(3) addBlock_number [of b m c None] by (metis Pair_inject res.distinct(1))
  with addBlock_rel [OF assms(1) chs(1) add.hyps(2)] obtain m1 chs' where
    "addBlock c None b m = (m1, Ok ())" "store_rel c m1 chs'" "concat chs' = concat chs @ [b]" by blast
  with add.hyps(3) chs(2) show ?case by (intro add.prems) auto
next
  case (failed m bs b fault m' e)
  obtain chs where chs: "store_rel c m chs" "concat chs = bs" by (rule failed.IH)
  show ?case
  proof (cases "number_of b = bc_Height (bm_bcInfo m)")
    case False
    with failed.hyps(4) addBlock_number [of b m c fault] chs show ?thesis by (intro failed.prems) auto
  next
    case True
    show ?thesis
    proof (cases fault)
      case None
      with failed.hyps(4) addBlock_rel [OF assms(1) chs(1) failed.hyps(2) True] show ?thesis by auto
    next
      case (Some j)
      obtain m1 e1 chs' where "addBlock c (Some j) b m = (m1, Err e1)" "store_rel c m1 chs'" "concat chs' = concat chs"
        by (rule addBlock_failed [OF assms(1) chs(1) failed.hyps(2) True failed.hyps(3)])
      with failed.hyps(4) Some chs(2) show ?thesis by (intro failed.prems [of chs']) auto
    qed
  qed
next
  case (crashed m bs b ys fs d m')
  obtain chs where chs: "store_rel c m chs" "concat chs = bs" by (rule crashed.IH)
  obtain fs' d' chs' where cr: "run_effects c ys (bm_dir m, bm_db m) = Ok (fs', d')" "restartable c fs' d' chs'"
      "concat chs' = concat chs @ (if completed c b ys then [b] else [])"
    by (rule add_crash [OF assms(1) chs(1) crashed.hyps(2,4,3,5)])
  obtain m1 where "newBlockfileMgr c fs' d' = Ok m1" "store_rel c m1 chs'" by (rule restart_rel [OF assms(1) cr(2)])
  with cr crashed.hyps(6,7) chs(2) show ?case by (intro crashed.prems [of chs']) auto
qed

lemma stores_is_store:
  assumes "store_ok c" and "stores c m bs"
  obtains chs where "is_store c m chs" and "concat chs = bs"
proof (rule stores_rel [OF assms])
  fix chs
  assume "store_rel c m chs" "concat chs = bs"
  then show thesis using assms(1) by (intro that [of chs]) (simp_all add: is_store_def store_rel_def)
qed

section \<open>The checkpoint overwritten\<close>

lemma flp_no_checkpoint: "\<exists>e. cp_unmarshal (flp_marshal flp) = Err e"
proof -
  have "proto_DecodeVarint (EncodeVarint x) = Ok (x, [])" for x
    using proto_DecodeVarint_Encode [of x "[]"] by simp
  moreover have "proto_DecodeVarint [] = Err ''unexpected EOF''"
    by (simp add: proto_DecodeVarint_def DecodeVarint_def decode_varint_loop.simps)
  ultimately show ?thesis by (simp add: cp_unmarshal_def flp_marshal_def proto_DecodeVarint_Encode)
qed

lemma addBlock_index:
  assumes c: "store_ok c" and b: "storable c b" "indexable b" "number_of b = bc_Height (bm_bcInfo m)"
  obtains m' k off d where "addBlock c None b m = (m', Ok ())" and "index_entry c (k, off, b) d = Ok (bm_db m')"
proof -
  let ?cp = "\<lambda>k off. \<lparr>latestFileChunkSuffixNum = k, latestFileChunksize = off + int (length (framed c b)), isChainEmpty = False,
      lastBlockNumber = number_of b\<rparr>"
  have app: "\<exists>m' k off d. append_block c None b (block_bytes c b) (block_info c b) (sc_hash c (blk_Header b)) off' m1 = (m', Ok ()) \<and>
      index_entry c (k, off, b) d = Ok (bm_db m')" if "off' = latestFileChunksize (bm_cpInfo m1)" for m1 off'
  proof -
    let ?k = "latestFileChunkSuffixNum (bm_cpInfo m1)"
    obtain d where d: "saveCurrentInfo c (?cp ?k off') (bm_db m1) = Ok d" by (rule save_effect [OF c])
    obtain d' where d': "index_entry c (?k, off', b) d = Ok d'" using index_entry_defined [OF c b(1,2)] by blast
    let ?m = "m1\<lparr>bm_dir := writer_append (bm_currentFileWriter m1) (framed c b) (bm_dir m1), bm_db := d', bm_cpInfo := ?cp ?k off',
        bm_bcInfo := updateBlockchainInfo (sc_hash c (blk_Header b)) b (bm_bcInfo m1)\<rparr>"
    have "append_block c None b (block_bytes c b) (block_info c b) (sc_hash c (blk_Header b)) off' m1 = (?m, Ok ())"
      using d d' that by (simp add: append_block_def Let_def index_entry_def framed_def len_bytes_def number_of_def)
    then show ?thesis using d' by fastforce
  qed
  obtain d where "saveCurrentInfo c \<lparr>latestFileChunkSuffixNum = latestFileChunkSuffixNum (bm_cpInfo m) + 1, latestFileChunksize = 0,
      isChainEmpty = False, lastBlockNumber = lastBlockNumber (bm_cpInfo m)\<rparr> (bm_db m) = Ok d" by (rule save_effect [OF c])
  then obtain m1 where "moveToNextFile c m = Ok m1" "latestFileChunksize (bm_cpInfo m1) = 0"
    by (simp add: moveToNextFile_def Let_def)
  with app [of 0 m1] app [OF refl, of m]
  have "\<exists>m' k off d. addBlock c None b m = (m', Ok ()) \<and> index_entry c (k, off, b) d = Ok (bm_db m')"
    unfolding addBlock_eq [OF b(1,3)] by simp
  with that show thesis by blast
qed

lemma overwritten_panics:
  assumes c: "store_ok c" and b: "storable c b" "''lkMgrInfo'' \<in> block_ids c b" and idx: "index_entry c (k, off, b) d = Ok d'"
  shows "newBlockfileMgr c fs d' = Panic"
proof -
  have "indexBlock attrsToIndex (sc_L c) (sc_dbName c) d (idx_info c (k, off, b)) = Ok d'" "ldb_laws (sc_L c)"
    using c idx by (simp_all add: store_ok_def index_entry_def)
  from index_manager_key [OF this(2,1)] b(2) obtain flp where "getc c d' blkMgrInfoKey = Ok (Some (flp_marshal flp))"
    using entry_ids_block [of c k off b] by (auto simp: entry_ids_def)
  moreover obtain e where "cp_unmarshal (flp_marshal flp) = Err e" using flp_no_checkpoint by blast
  ultimately have "loadCurrentInfo c d' = Err e" by (simp add: loadCurrentInfo_def)
  then show ?thesis by (simp add: newBlockfileMgr_def)
qed

text \<open>An empty chain whose first block does not fit into the first file.\<close>

lemma oversize_panics:
  assumes c: "store_ok c" and rel: "store_rel c m chs" and b: "admissible c m b" and empty: "concat chs = []"
  obtains fs d where "run_effects c (move_effects (int (length chs)) 0) (bm_dir m, bm_db m) = Ok (fs, d)"
    and "newBlockfileMgr c fs d = Panic"
proof -
  let ?cp = "\<lparr>latestFileChunkSuffixNum = int (length chs), latestFileChunksize = 0, isChainEmpty = False, lastBlockNumber = 0\<rparr>"
  let ?fs = "newBlockfileWriter (int (length chs)) (bm_dir m)"
  from rel have base: "base_rel c m chs" by (simp add: store_rel_def)
  then have dir: "dir_ok c (bm_dir m) chs" and idx: "index_rel c (bm_db m) (entries_from c 0 chs)" by (simp_all add: base_rel_def)
  have es: "entries_from c 0 (chs @ [[]]) = []"
    using entries_from_blocks [of c 0 "chs @ [[]]"] empty by simp
  obtain d where d: "DBHandle_WriteBatch (sc_L c) (sc_dbName c) (bm_db m) [(blkMgrInfoKey, Some (cp_marshal ?cp))] = Ok d"
      "getc c d blkMgrInfoKey = Ok (Some (cp_marshal ?cp))" "\<And>es. index_rel c d es = index_rel c (bm_db m) es"
    by (rule saved_write [OF c, of "bm_db m" ?cp]) blast
  have idx0: "index_rel c d []" using idx es unfolding d(3) by (simp add: entries_from_snoc)
  have "go_cp ?cp" using rel_bounds(2) [OF base b] by (simp add: go_cp_def go_int_def)
  then have load: "loadCurrentInfo c d = Ok (Some ?cp)" using d(2) by (intro load_saved)
  note next_dir = dir_ok_next [OF dir]
  have fl: "map_of ?fs (int (length chs)) = Some []" using dir_ok_restart(3) [OF next_dir] by simp
  have trunc: "truncateFile (int (length chs)) 0 (newBlockfileWriter (int (length chs)) ?fs) = ?fs"
    using fl by (simp add: truncateFile_def file_of_def newBlockfileWriter_def)
  have "syncIndex c (checkpoint_of c (chs @ [[]])) ?fs d = (d, Ok ())"
    by (rule sync_index_rel [OF c next_dir _ _ idx0 index_all.simps(1)]) (simp_all add: es)
  then have "syncIndex c ?cp ?fs d = (d, Ok ())" by (simp add: syncIndex_def checkpoint_of_def)
  moreover have "retrieveBlockHeaderByNumber c ?fs d 0 = Err ErrNotFoundInIndex"
    using idx0 c by (simp add: retrieveBlockHeaderByNumber_def index_rel_def store_ok_def)
  ultimately have "newBlockfileMgr c ?fs d = Panic"
    using load fl trunc by (simp add: newBlockfileMgr_def syncCPInfoFromFS_def Let_def)
  with that d(1) show thesis by (simp add: move_effects_def)
qed

section \<open>Properties\<close>




text \<open>C39: a transaction whose id is the text lkMgrInfo, valid or not, overwrites the checkpoint of the block files when
its block is indexed: the block is added without an error, and the next start of the peer panics.\<close>

theorem transaction_id_bricks_store:
  assumes "store_ok c" and "storable c b" and "indexable b" and "number_of b = bc_Height (bm_bcInfo m)"
    and "env \<in> set (blk_Data b)" and "extractTxID (sc_codec c) env = Ok ''lkMgrInfo''"
  shows "\<exists>m'. AddBlock c None b m = (m', Ok ()) \<and> newFsBlockStore c (bm_dir m') (bm_db m') = Panic"
proof (rule addBlock_index [OF assms(1-4)])
  fix m' k off d
  assume "addBlock c None b m = (m', Ok ())" "index_entry c (k, off, b) d = Ok (bm_db m')"
  moreover have "''lkMgrInfo'' \<in> block_ids c b"
    using assms(5,6) unfolding storable_ids(3) [OF assms(2)] by (force simp: tx_id_def)
  ultimately show ?thesis using overwritten_panics [OF assms(1,2)] unfolding block_store_api by blast
qed

text \<open>when the first block of a ledger is larger than a block file may be, a crash after the manager has moved to the
second file and before the block is complete leaves a ledger that can never be opened again: the restart panics.\<close>

theorem oversize_first_block_bricks_store:
  assumes "store_ok c" and "stores c m []" and "admissible c m b" and "\<not> first_fits c m b"
  shows "\<exists>fs d. run_effects c (take 2 (add_effects c b m)) (bm_dir m, bm_db m) = Ok (fs, d) \<and> newFsBlockStore c fs d = Panic"
proof (rule stores_rel [OF assms(1,2)])
  fix chs
  assume rel: "store_rel c m chs" and empty: "concat chs = []"
  then have base: "base_rel c m chs" by (simp add: store_rel_def)
  have "lastBlockNumber (bm_cpInfo m) = 0" using base_rel_cp(3) [OF base] unfolding empty by simp
  then have "take 2 (add_effects c b m) = move_effects (int (length chs)) 0"
    using assms(4) base_rel_cp(1,2) [OF base] by (simp add: first_fits_def add_effects_def Let_def move_effects_def)
  with oversize_panics [OF assms(1) rel assms(3) empty] show ?thesis unfolding block_store_api by metis
qed

section \<open>A small store\<close>

definition small_conf :: "int \<Rightarrow> (bytes, bytes) gomap store_conf" where
  "small_conf sz = \<lparr>sc_codec = plain_codec, sc_hash = bh_DataHash, sc_maxBlockfileSize = sz, sc_items = attrsToIndex,
     sc_L = mem_leveldb, sc_dbName = ''ch''\<rparr>"

definition bad_block :: Block where
  "bad_block = \<lparr>blk_Header = \<lparr>bh_Number = 0, bh_PreviousHash = [], bh_DataHash = ''hash''\<rparr>,
     blk_Data = [''lkMgrInfo''], blk_Metadata = Some [[], [], [CHR 0x0A]]\<rparr>"

definition empty_store :: "int \<Rightarrow> (bytes, bytes) gomap blockfileMgr" where
  "empty_store sz = the_ok (newBlockfileMgr (small_conf sz) [] [])"

definition small_store :: "(bytes, bytes) gomap blockfileMgr" where
  "small_store = fst (addBlock (small_conf 200) None two_tx_block (empty_store 200))"

lemma small_conf_ok: "sz < 2 ^ 62 \<Longrightarrow> store_ok (small_conf sz)"
  by (simp add: store_ok_def small_conf_def mem_leveldb_laws)

lemma fresh_db: "\<forall>q. getc (small_conf sz) [] q = Ok None"
  by (simp add: small_conf_def mem_leveldb_def DBHandle_Get_def DB_Get_def)

lemma empty_store_rel:
  assumes "sz < 2 ^ 62"
  shows "stores (small_conf sz) (empty_store sz) []" "store_rel (small_conf sz) (empty_store sz) [[]]"
proof -
  obtain m where "newBlockfileMgr (small_conf sz) [] [] = Ok m" "store_rel (small_conf sz) m [[]]"
    by (rule start_rel [OF small_conf_ok [OF assms], of "[]"]) (use fresh_db in blast)
  moreover from this(1) have "empty_store sz = m" by (simp add: empty_store_def)
  ultimately show "stores (small_conf sz) (empty_store sz) []" "store_rel (small_conf sz) (empty_store sz) [[]]"
    using stores.first_start [OF fresh_db] by simp_all
qed

lemma small_storable:
  assumes "case serializeBlock plain_codec b of Ok (bs, info) \<Rightarrow> length bs < 100 | _ \<Rightarrow> False" and "bh_Number (blk_Header b) = 0"
  shows "storable (small_conf sz) b" "length (framed (small_conf sz) b) < 110"
proof -
  from assms(1) obtain bs info where s: "serializeBlock (sc_codec (small_conf sz)) b = Ok (bs, info)" "length bs < 100"
    by (auto simp: small_conf_def split: res.splits)
  with assms(2) show st: "storable (small_conf sz) b" by (intro storableI(1)) auto
  with s len_bytes_short(2) [OF st] show "length (framed (small_conf sz) b) < 110" by (simp add: framed_def block_bytes_def)
qed

lemma small_blocks:
  "storable (small_conf sz) two_tx_block" "storable (small_conf sz) bad_block" "length (framed (small_conf sz) two_tx_block) < 110"
  by ((rule small_storable, code_simp, simp add: two_tx_block_def bad_block_def)+)

lemma small_indexable: "indexable two_tx_block" "indexable bad_block"
  by (simp_all add: indexable_def two_tx_block_def bad_block_def BlockMetadataIndex_TRANSACTIONS_FILTER_def)

lemma plain_tx_id: "extractTxID (sc_codec (small_conf sz)) env = Ok env"
  by (simp add: small_conf_def plain_codec_def extractTxID_def GetEnvelopeFromBlock_def GetPayload_def
      UnmarshalChannelHeader_def)

lemma two_tx_admissible:
  assumes "sz < 2 ^ 62"
  shows "admissible (small_conf sz) (empty_store sz) two_tx_block" "number_of two_tx_block = bc_Height (bm_bcInfo (empty_store sz))"
    "first_fits (small_conf sz) (empty_store sz) two_tx_block \<longleftrightarrow> int (length (framed (small_conf sz) two_tx_block)) \<le> sz"
proof -
  from empty_store_rel(2) [OF assms] have base: "base_rel (small_conf sz) (empty_store sz) [[]]"
    and mark: "isChainEmpty (bm_cpInfo (empty_store sz))" by (simp_all add: store_rel_def)
  note cp = base_rel_cp [OF base]
  have height: "bc_Height (bm_bcInfo (empty_store sz)) = 0" using base by (simp add: base_rel_def)
  have "''lkMgrInfo'' \<notin> block_ids (small_conf sz) two_tx_block"
    unfolding storable_ids(3) [OF small_blocks(1)] by (simp add: tx_id_def plain_tx_id two_tx_block_def)
  then show "admissible (small_conf sz) (empty_store sz) two_tx_block"
    using cp height small_blocks(1) small_indexable(1) by (simp add: admissible_def)
  show "number_of two_tx_block = bc_Height (bm_bcInfo (empty_store sz))" by (simp add: height number_of_def two_tx_block_def)
  show "first_fits (small_conf sz) (empty_store sz) two_tx_block \<longleftrightarrow> int (length (framed (small_conf sz) two_tx_block)) \<le> sz"
    using cp mark by (simp add: first_fits_def) (simp add: small_conf_def)
qed

lemma small_store_rel: "stores (small_conf 200) small_store [two_tx_block]"
proof -
  have sz: "(200 :: int) < 2 ^ 62" by simp
  obtain m' chs' where "addBlock (small_conf 200) None two_tx_block (empty_store 200) = (m', Ok ())"
    by (rule addBlock_rel [OF small_conf_ok [OF sz] empty_store_rel(2) [OF sz] two_tx_admissible(1,2) [OF sz]])
  moreover from this have "small_store = m'" by (simp add: small_store_def)
  ultimately show ?thesis using stores.add [OF empty_store_rel(1) [OF sz] two_tx_admissible(1) [OF sz]] by fastforce
qed




theorem transaction_id_bricks_store_witness:
  "\<exists>m'. AddBlock (small_conf 200) None bad_block (empty_store 200) = (m', Ok ()) \<and>
    newFsBlockStore (small_conf 200) (bm_dir m') (bm_db m') = Panic"
proof -
  have sz: "(200 :: int) < 2 ^ 62" by simp
  have "number_of bad_block = bc_Height (bm_bcInfo (empty_store 200))"
    using two_tx_admissible(2) [OF sz] by (simp add: number_of_def two_tx_block_def bad_block_def)
  from transaction_id_bricks_store [OF small_conf_ok [OF sz] small_blocks(2) small_indexable(2) this _ plain_tx_id]
  show ?thesis by (simp add: bad_block_def)
qed

theorem oversize_first_block_bricks_store_witness:
  "\<exists>fs d. run_effects (small_conf 0) (take 2 (add_effects (small_conf 0) two_tx_block (empty_store 0)))
      (bm_dir (empty_store 0), bm_db (empty_store 0)) = Ok (fs, d) \<and> newFsBlockStore (small_conf 0) fs d = Panic"
proof -
  have sz: "(0 :: int) < 2 ^ 62" by simp
  have "\<not> first_fits (small_conf 0) (empty_store 0) two_tx_block"
    using two_tx_admissible(3) [OF sz] framed_pos [OF small_blocks(1)] by simp
  with oversize_first_block_bricks_store [OF small_conf_ok [OF sz] empty_store_rel(1) [OF sz] two_tx_admissible(1) [OF sz]]
  show ?thesis by blast
qed

end
