(* ===== verification/Policies.thy ===== *)
theory Policies
  imports Protos
begin

text \<open>
  Signature policies: \<open>common/cauthdsl\<close> (compiling and evaluating policies, the builder and the gate
  functions of the policy parser), \<open>common/policies\<close> (the manager and implicit meta policies) and
  \<open>protos/common/signed_data.go\<close>.

  \<^item> The closures that \<open>compile\<close> returns are values of the datatype \<open>compiled\<close>; calling one is
    \<open>run_compiled\<close>.
  \<^item> The deserializer of identities is a Go interface that callers pass in; its three methods are the
    record \<open>identity_ops\<close>.
  \<^item> The evaluation of policy strings (\<open>govaluate\<close>) is third-party code; the functions that it calls are
    modelled, \<open>FromString\<close> is not.

  The lemmas show that policies that compile never panic, that an accepted set of signatures holds
  a separate valid signature for every requirement that was counted, and what the implicit meta
  policies accept.
\<close>

section \<open>Signed data\<close>

record SignedData =
  sd_Data :: "bytes"
  sd_Identity :: "bytes"
  sd_Signature :: "bytes"

definition Envelope_AsSignedData :: "codec \<Rightarrow> Envelope option \<Rightarrow> (string, SignedData list) res" where
  "Envelope_AsSignedData pc env =
     (case env of
        None \<Rightarrow> Err ''No signatures for nil Envelope''
      | Some e \<Rightarrow>
          rbind (unmarshal id (un_Payload pc (slice (env_Payload e)))) (\<lambda>payload.
          case pl_Header payload of
            None \<Rightarrow> Err ''Missing Header''
          | Some hdr \<Rightarrow>
              rbind (unmarshal (\<lambda>x. ''GetSignatureHeaderFromBytes failed, err '' @ x)
                      (un_SignatureHeader pc (hdr_SignatureHeader hdr))) (\<lambda>shdr.
              Ok [\<lparr>sd_Data = slice (env_Payload e), sd_Identity = sh_Creator shdr, sd_Signature = env_Signature e\<rparr>])))"

record ConfigSignature =
  cfs_SignatureHeader :: "bytes"
  cfs_Signature :: "bytes"

record ConfigUpdateEnvelope =
  cue_ConfigUpdate :: "bytes"
  cue_Signatures :: "ConfigSignature list"

fun config_signatures :: "codec \<Rightarrow> bytes \<Rightarrow> ConfigSignature list \<Rightarrow> (string, SignedData list) res" where
  "config_signatures pc configUpdate [] = Ok []"
| "config_signatures pc configUpdate (configSig # rest) =
     rbind (unmarshal id (un_SignatureHeader pc (cfs_SignatureHeader configSig))) (\<lambda>sigHeader.
     rbind (config_signatures pc configUpdate rest) (\<lambda>sds.
     Ok (\<lparr>sd_Data = cfs_SignatureHeader configSig @ configUpdate, sd_Identity = sh_Creator sigHeader,
          sd_Signature = cfs_Signature configSig\<rparr> # sds)))"

definition ConfigUpdateEnvelope_AsSignedData ::
    "codec \<Rightarrow> ConfigUpdateEnvelope option \<Rightarrow> (string, SignedData list) res" where
  "ConfigUpdateEnvelope_AsSignedData pc ce =
     (case ce of
        None \<Rightarrow> Err ''No signatures for nil SignedConfigItem''
      | Some e \<Rightarrow> config_signatures pc (cue_ConfigUpdate e) (cue_Signatures e))"

section \<open>Signature policies\<close>

datatype MSPPrincipal = MSPPrincipal_ROLE bytes | MSPPrincipal_IDENTITY bytes | MSPPrincipal_other int bytes

text \<open>A rule may be nil, and a policy may be of no known type.\<close>

datatype SignaturePolicy =
    SignaturePolicy_NOutOf int "SignaturePolicy option list"
  | SignaturePolicy_SignedBy int
  | SignaturePolicy_unknown

record SignaturePolicyEnvelope =
  spe_Version :: "int"
  spe_Rule :: "SignaturePolicy option"
  spe_Identities :: "MSPPrincipal list"

datatype compiled = Gate int "compiled list" | Signed_By MSPPrincipal

fun compile_policy :: "MSPPrincipal list \<Rightarrow> SignaturePolicy \<Rightarrow> (string, compiled) res"
  and compile_rules :: "MSPPrincipal list \<Rightarrow> SignaturePolicy option list \<Rightarrow> (string, compiled list) res" where
  "compile_policy identities (SignaturePolicy_NOutOf n rules) =
     rbind (compile_rules identities rules) (\<lambda>policies. Ok (Gate n policies))"
| "compile_policy identities (SignaturePolicy_SignedBy k) =
     (if k < 0 \<or> k \<ge> int (length identities) then Err ''identity index out of range''
      else Ok (Signed_By (identities ! nat k)))"
| "compile_policy identities SignaturePolicy_unknown = Err ''Unknown type''"
| "compile_rules identities [] = Ok []"
| "compile_rules identities (None # rest) = Err ''Empty policy element''"
| "compile_rules identities (Some policy # rest) =
     rbind (compile_policy identities policy) (\<lambda>compiledPolicy.
     rbind (compile_rules identities rest) (\<lambda>policies. Ok (compiledPolicy # policies)))"

definition compile :: "SignaturePolicy option \<Rightarrow> MSPPrincipal list \<Rightarrow> (string, compiled) res" where
  "compile policy identities =
     (case policy of None \<Rightarrow> Err ''Empty policy element'' | Some p \<Rightarrow> compile_policy identities p)"

record 'i identity_ops =
  io_DeserializeIdentity :: "bytes \<Rightarrow> (string, 'i) res"
  io_SatisfiesPrincipal :: "'i \<Rightarrow> MSPPrincipal \<Rightarrow> (string, unit) res"
  io_Verify :: "'i \<Rightarrow> bytes \<Rightarrow> bytes \<Rightarrow> (string, unit) res"

text \<open>The loop over the signatures, from number \<open>i\<close> on.\<close>

fun signed_by_loop ::
    "'i identity_ops \<Rightarrow> MSPPrincipal \<Rightarrow> SignedData list \<Rightarrow> nat \<Rightarrow> bool list \<Rightarrow> (string, bool \<times> bool list) res" where
  "signed_by_loop io signedByID [] i used = Ok (False, used)"
| "signed_by_loop io signedByID (sd # rest) i used =
     rbind (index used i) (\<lambda>u.
     if u then signed_by_loop io signedByID rest (Suc i) used
     else
       (case io_DeserializeIdentity io (sd_Identity sd) of
          Panic \<Rightarrow> Panic
        | Err _ \<Rightarrow> signed_by_loop io signedByID rest (Suc i) used
        | Ok identity \<Rightarrow>
            (case io_SatisfiesPrincipal io identity signedByID of
               Panic \<Rightarrow> Panic
             | Err _ \<Rightarrow> signed_by_loop io signedByID rest (Suc i) used
             | Ok _ \<Rightarrow>
                 (case io_Verify io identity (sd_Data sd) (sd_Signature sd) of
                    Panic \<Rightarrow> Panic
                  | Err _ \<Rightarrow> signed_by_loop io signedByID rest (Suc i) used
                  | Ok _ \<Rightarrow> rbind (set_index used i True) (\<lambda>used1. Ok (True, used1))))))"

text \<open>A gate tries its rules in order; the marks of a rule that fails are dropped.\<close>

fun run_compiled ::
    "'i identity_ops \<Rightarrow> SignedData list \<Rightarrow> compiled \<Rightarrow> bool list \<Rightarrow> (string, bool \<times> bool list) res"
  and run_gate ::
    "'i identity_ops \<Rightarrow> SignedData list \<Rightarrow> compiled list \<Rightarrow> int \<Rightarrow> bool list \<Rightarrow> (string, int \<times> bool list) res" where
  "run_compiled io signedData (Gate n policies) used =
     rbind (run_gate io signedData policies 0 used) (\<lambda>(verified, used1). Ok (verified \<ge> n, used1))"
| "run_compiled io signedData (Signed_By signedByID) used = signed_by_loop io signedByID signedData 0 used"
| "run_gate io signedData [] verified used = Ok (verified, used)"
| "run_gate io signedData (policy # rest) verified used =
     rbind (run_compiled io signedData policy used) (\<lambda>(ok, used1).
     if ok then run_gate io signedData rest (verified + 1) used1
     else run_gate io signedData rest verified used)"

definition NewPolicy :: "(bytes \<Rightarrow> string + SignaturePolicyEnvelope) \<Rightarrow> bytes \<Rightarrow> (string, compiled) res" where
  "NewPolicy un data =
     rbind (unmarshal (\<lambda>e. ''Error unmarshaling to SignaturePolicy: '' @ e) (un data)) (\<lambda>sigPolicy.
     if spe_Version sigPolicy \<noteq> 0 then Err ''This evaluator only understands messages of version 0''
     else compile (spe_Rule sigPolicy) (spe_Identities sigPolicy))"

definition sig_Evaluate :: "'i identity_ops \<Rightarrow> compiled \<Rightarrow> SignedData list \<Rightarrow> (string, unit) res" where
  "sig_Evaluate io p signatureSet =
     rbind (run_compiled io signatureSet p (replicate (length signatureSet) False)) (\<lambda>(ok, _).
     if \<not> ok then Err ''Failed to authenticate policy'' else Ok ())"

section \<open>Building policies\<close>

definition SignedBy :: "int \<Rightarrow> SignaturePolicy" where
  "SignedBy idx = SignaturePolicy_SignedBy idx"

definition NOutOf :: "int \<Rightarrow> SignaturePolicy list \<Rightarrow> SignaturePolicy" where
  "NOutOf n policies = SignaturePolicy_NOutOf n (map Some policies)"

definition And :: "SignaturePolicy \<Rightarrow> SignaturePolicy \<Rightarrow> SignaturePolicy" where
  "And lhs rhs = NOutOf 2 [lhs, rhs]"

definition Or :: "SignaturePolicy \<Rightarrow> SignaturePolicy \<Rightarrow> SignaturePolicy" where
  "Or lhs rhs = NOutOf 1 [lhs, rhs]"

definition policy_Envelope :: "SignaturePolicy \<Rightarrow> bytes list \<Rightarrow> SignaturePolicyEnvelope" where
  "policy_Envelope policy identities =
     \<lparr>spe_Version = 0, spe_Rule = Some policy, spe_Identities = map MSPPrincipal_IDENTITY identities\<rparr>"

definition AcceptAllPolicy :: SignaturePolicyEnvelope where
  "AcceptAllPolicy = policy_Envelope (NOutOf 0 []) []"

definition RejectAllPolicy :: SignaturePolicyEnvelope where
  "RejectAllPolicy = policy_Envelope (NOutOf 1 []) []"

datatype MSPRole = MSPRole_MEMBER | MSPRole_ADMIN

text \<open>\<open>mr\<close> marshals a role of an MSP.\<close>

definition SignedByMspMember :: "(MSPRole \<Rightarrow> string \<Rightarrow> bytes) \<Rightarrow> string \<Rightarrow> SignaturePolicyEnvelope" where
  "SignedByMspMember mr mspId =
     \<lparr>spe_Version = 0, spe_Rule = Some (NOutOf 1 [SignedBy 0]),
      spe_Identities = [MSPPrincipal_ROLE (mr MSPRole_MEMBER mspId)]\<rparr>"

definition SignedByMspAdmin :: "(MSPRole \<Rightarrow> string \<Rightarrow> bytes) \<Rightarrow> string \<Rightarrow> SignaturePolicyEnvelope" where
  "SignedByMspAdmin mr mspId =
     \<lparr>spe_Version = 0, spe_Rule = Some (NOutOf 1 [SignedBy 0]),
      spe_Identities = [MSPPrincipal_ROLE (mr MSPRole_ADMIN mspId)]\<rparr>"

definition signedByAnyOfGivenRole ::
    "(MSPRole \<Rightarrow> string \<Rightarrow> bytes) \<Rightarrow> MSPRole \<Rightarrow> string list \<Rightarrow> SignaturePolicyEnvelope" where
  "signedByAnyOfGivenRole mr role ids =
     (let ids = sort_Strings ids
      in \<lparr>spe_Version = 0, spe_Rule = Some (NOutOf 1 (map (\<lambda>i. SignedBy (int i)) [0 ..< length ids])),
          spe_Identities = map (\<lambda>id. MSPPrincipal_ROLE (mr role id)) ids\<rparr>)"

definition SignedByAnyMember :: "(MSPRole \<Rightarrow> string \<Rightarrow> bytes) \<Rightarrow> string list \<Rightarrow> SignaturePolicyEnvelope" where
  "SignedByAnyMember mr ids = signedByAnyOfGivenRole mr MSPRole_MEMBER ids"

definition SignedByAnyAdmin :: "(MSPRole \<Rightarrow> string \<Rightarrow> bytes) \<Rightarrow> string list \<Rightarrow> SignaturePolicyEnvelope" where
  "SignedByAnyAdmin mr ids = signedByAnyOfGivenRole mr MSPRole_ADMIN ids"

section \<open>Gates of policy strings\<close>

text \<open>An argument that the expression evaluator hands over; a number is truncated to an integer.\<close>

datatype gate_arg = Arg_ctx | Arg_num int | Arg_string string | Arg_policy SignaturePolicy | Arg_other

definition is_alnum :: "char \<Rightarrow> bool" where
  "is_alnum c \<longleftrightarrow> is_digit c \<or> CHR ''A'' \<le> c \<and> c \<le> CHR ''Z'' \<or> CHR ''a'' \<le> c \<and> c \<le> CHR ''z''"

text \<open>The pattern \<open>^([[:alnum:]]+)([.])(member|admin)$\<close>: the identifier and the role.\<close>

definition match_principal :: "string \<Rightarrow> (string \<times> MSPRole) option" where
  "match_principal t =
     (let org = takeWhile is_alnum t; role = dropWhile is_alnum t
      in if org = [] then None
         else if role = ''.member'' then Some (org, MSPRole_MEMBER)
         else if role = ''.admin'' then Some (org, MSPRole_ADMIN)
         else None)"

fun gate_args :: "gate_arg list \<Rightarrow> string \<Rightarrow> (string, string) res" where
  "gate_args [] toret = Ok toret"
| "gate_args (Arg_string t # rest) toret =
     gate_args rest (toret @ '', '' @ (if match_principal t \<noteq> None then [CHR 0x27] @ t @ [CHR 0x27] else t))"
| "gate_args (_ # rest) toret = Err ''Unexpected type''"

definition and_gate :: "gate_arg list \<Rightarrow> (string, string) res" where
  "and_gate args = rbind (gate_args args (''outof('' @ FormatInt (int (length args)))) (\<lambda>toret. Ok (toret @ '')''))"

definition or_gate :: "gate_arg list \<Rightarrow> (string, string) res" where
  "or_gate args = rbind (gate_args args (''outof('' @ FormatInt 1)) (\<lambda>toret. Ok (toret @ '')''))"

fun first_pass_args :: "gate_arg list \<Rightarrow> string \<Rightarrow> (string, string) res" where
  "first_pass_args [] toret = Ok toret"
| "first_pass_args (Arg_string t # rest) toret =
     first_pass_args rest (toret @ '', '' @ (if match_principal t \<noteq> None then [CHR 0x27] @ t @ [CHR 0x27] else t))"
| "first_pass_args (Arg_num n # rest) toret = first_pass_args rest (toret @ '', '' @ FormatInt n)"
| "first_pass_args (_ # rest) toret = Err ''Unexpected type''"

definition firstPass :: "gate_arg list \<Rightarrow> (string, string) res" where
  "firstPass args = rbind (first_pass_args args ''outof(ID'') (\<lambda>toret. Ok (toret @ '')''))"

text \<open>The principals collected so far; \<open>ctx.IDNum\<close> is always their number.\<close>

record parse_context =
  ctx_IDNum :: int
  ctx_principals :: "MSPPrincipal list"

definition newContext :: parse_context where
  "newContext = \<lparr>ctx_IDNum = 0, ctx_principals = []\<rparr>"

fun second_pass_args ::
    "(MSPRole \<Rightarrow> string \<Rightarrow> bytes) \<Rightarrow> gate_arg list \<Rightarrow> parse_context \<Rightarrow> SignaturePolicy list \<Rightarrow>
      (string, SignaturePolicy list \<times> parse_context) res" where
  "second_pass_args mr [] ctx policies = Ok (policies, ctx)"
| "second_pass_args mr (Arg_string t # rest) ctx policies =
     (case match_principal t of
        None \<Rightarrow> Err (''Error parsing principal '' @ t)
      | Some (mspId, role) \<Rightarrow>
          second_pass_args mr rest
            \<lparr>ctx_IDNum = ctx_IDNum ctx + 1, ctx_principals = ctx_principals ctx @ [MSPPrincipal_ROLE (mr role mspId)]\<rparr>
            (policies @ [SignedBy (ctx_IDNum ctx)]))"
| "second_pass_args mr (Arg_policy p # rest) ctx policies = second_pass_args mr rest ctx (policies @ [p])"
| "second_pass_args mr (_ # rest) ctx policies = Err ''Unrecognized type, expected a principal or a policy''"

definition secondPass ::
    "(MSPRole \<Rightarrow> string \<Rightarrow> bytes) \<Rightarrow> gate_arg list \<Rightarrow> parse_context \<Rightarrow> (string, SignaturePolicy \<times> parse_context) res" where
  "secondPass mr args ctx =
     (if length args < 3 then Err ''At least 3 arguments expected''
      else if args ! 0 \<noteq> Arg_ctx then Err ''Unrecognized type, expected the context''
      else
        (case args ! 1 of
           Arg_num t \<Rightarrow>
             if t > int (length args) - 1 then Err ''Invalid t-out-of-n predicate''
             else rbind (second_pass_args mr (drop 2 args) ctx []) (\<lambda>(policies, ctx1). Ok (NOutOf t policies, ctx1))
         | _ \<Rightarrow> Err ''Unrecognized type, expected a number''))"

text \<open>
  The expression evaluator is the library \<open>govaluate\<close>: \<open>gv1\<close> parses and evaluates an expression with
  the functions it is given by their names, and \<open>gv2\<close> does so with one function that updates the
  context bound to \<open>ID\<close>; only an evaluation, never the parser, reports a missing parameter. A result that is not of the expected type is a failed type assertion.
\<close>

type_synonym govaluate1 = "string \<Rightarrow> (string \<times> (gate_arg list \<Rightarrow> (string, string) res)) list \<Rightarrow> (string, gate_arg) res"
type_synonym govaluate2 = "string \<Rightarrow> (gate_arg list \<Rightarrow> parse_context \<Rightarrow> (string, SignaturePolicy \<times> parse_context) res) \<Rightarrow>
  parse_context \<Rightarrow> (string, gate_arg \<times> parse_context) res"

definition regexErr :: "string \<Rightarrow> string option" where
  "regexErr e =
     (let pre = ''No parameter '' @ [CHR 0x27]; post = [CHR 0x27] @ '' found.'';
          t = takeWhile (\<lambda>c. c \<noteq> CHR 0x27) (drop (length pre) e)
      in if t \<noteq> [] \<and> e = pre @ t @ post then Some t else None)"

definition meaningful_error :: "(string, 'a) res \<Rightarrow> (string, 'a) res" where
  "meaningful_error r =
     (case r of
        Err e \<Rightarrow> (case regexErr e of
                    Some t \<Rightarrow> Err (''unrecognized token '' @ [CHR 0x27] @ t @ [CHR 0x27] @ '' in policy string'')
                  | None \<Rightarrow> Err e)
      | _ \<Rightarrow> r)"

definition FromString :: "govaluate1 \<Rightarrow> govaluate2 \<Rightarrow> (MSPRole \<Rightarrow> string \<Rightarrow> bytes) \<Rightarrow> string \<Rightarrow>
    (string, SignaturePolicyEnvelope) res" where
  "FromString gv1 gv2 mr policy =
     rbind (meaningful_error (gv1 policy [(''AND'', and_gate), (''and'', and_gate), (''OR'', or_gate), (''or'', or_gate)])) (\<lambda>intermediateRes.
     case intermediateRes of
       Arg_string intermediate \<Rightarrow>
         rbind (meaningful_error (gv1 intermediate [(''outof'', firstPass)])) (\<lambda>res.
         case res of
           Arg_string exp \<Rightarrow>
             rbind (meaningful_error (gv2 exp (secondPass mr) newContext)) (\<lambda>(res1, ctx).
             case res1 of
               Arg_policy rule \<Rightarrow> Ok \<lparr>spe_Version = 0, spe_Rule = Some rule, spe_Identities = ctx_principals ctx\<rparr>
             | _ \<Rightarrow> Panic)
         | _ \<Rightarrow> Panic)
     | _ \<Rightarrow> Panic)"

section \<open>Policy managers\<close>

text \<open>
  A policy: a compiled signature policy, the policy that rejects everything, or an implicit meta policy
  after its initialization, with its threshold and its sub-policies.
\<close>

datatype policy = Policy_signature compiled | Policy_reject string | Policy_meta int "policy list"

fun Evaluate :: "'i identity_ops \<Rightarrow> SignedData list \<Rightarrow> policy \<Rightarrow> (string, unit) res"
  and meta_loop :: "'i identity_ops \<Rightarrow> SignedData list \<Rightarrow> policy list \<Rightarrow> int \<Rightarrow> (string, int) res" where
  "Evaluate io signatureSet (Policy_signature p) = sig_Evaluate io p signatureSet"
| "Evaluate io signatureSet (Policy_reject rp) = Err (''No such policy type: '' @ rp)"
| "Evaluate io signatureSet (Policy_meta threshold subPolicies) =
     rbind (meta_loop io signatureSet subPolicies threshold) (\<lambda>remaining.
     if remaining = 0 then Ok () else Err ''Failed to reach implicit threshold'')"
| "meta_loop io signatureSet [] remaining = Ok remaining"
| "meta_loop io signatureSet (policy # rest) remaining =
     (case Evaluate io signatureSet policy of
        Panic \<Rightarrow> Panic
      | Err _ \<Rightarrow> meta_loop io signatureSet rest remaining
      | Ok _ \<Rightarrow> if remaining - 1 = 0 then Ok 0 else meta_loop io signatureSet rest (remaining - 1))"

text \<open>The managers of groups are children of the manager of their parent group.\<close>

datatype ManagerImpl = ManagerImpl (pm_basePath: string) (pm_policies: "(string \<times> policy) list") (pm_managers: "(string \<times> ManagerImpl) list")

definition PathSeparator :: string where "PathSeparator = ''/''"
definition ChannelPrefix :: string where "ChannelPrefix = ''Channel''"
definition ChannelReaders :: string where "ChannelReaders = PathSeparator @ ChannelPrefix @ PathSeparator @ ''Readers''"
definition ChannelWriters :: string where "ChannelWriters = PathSeparator @ ChannelPrefix @ PathSeparator @ ''Writers''"

definition fqPrefix :: "ManagerImpl \<Rightarrow> string" where
  "fqPrefix pm = PathSeparator @ pm_basePath pm @ PathSeparator"

definition PolicyNames :: "ManagerImpl \<Rightarrow> string list" where
  "PolicyNames pm = map fst (pm_policies pm)"

fun Manager :: "ManagerImpl \<Rightarrow> string list \<Rightarrow> ManagerImpl option" where
  "Manager pm [] = Some pm"
| "Manager pm (p # path) = (case map_of (pm_managers pm) p of None \<Rightarrow> None | Some m \<Rightarrow> Manager m path)"

text \<open>\<open>root\<close> is the topmost manager above \<open>pm\<close>, unless \<open>pm\<close> is the topmost one itself.\<close>

definition GetPolicy :: "ManagerImpl option \<Rightarrow> ManagerImpl \<Rightarrow> string \<Rightarrow> policy \<times> bool" where
  "GetPolicy root pm i =
     (let lookup = (\<lambda>m relpath. case map_of (pm_policies m) relpath of
                      None \<Rightarrow> (Policy_reject relpath, False) | Some p \<Rightarrow> (p, True))
      in if i = [] then (Policy_reject i, False)
         else if has_prefix PathSeparator i
         then (let m = (case root of None \<Rightarrow> pm | Some r \<Rightarrow> r)
               in if \<not> has_prefix (fqPrefix m) i then (Policy_reject i, False)
                  else lookup m (drop (length (fqPrefix m)) i))
         else lookup pm i)"

record ImplicitMetaPolicy =
  imp_Rule :: int
  imp_SubPolicy :: string

definition ImplicitMetaPolicy_ANY :: int where "ImplicitMetaPolicy_ANY = 0"
definition ImplicitMetaPolicy_ALL :: int where "ImplicitMetaPolicy_ALL = 1"
definition ImplicitMetaPolicy_MAJORITY :: int where "ImplicitMetaPolicy_MAJORITY = 2"

text \<open>A rule that is none of the three leaves the threshold at its zero value.\<close>

definition imp_initialize :: "ImplicitMetaPolicy \<Rightarrow> ManagerImpl \<Rightarrow> (string \<times> ManagerImpl) list \<Rightarrow> policy" where
  "imp_initialize conf root managers =
     (let subPolicies = map (\<lambda>(_, manager). fst (GetPolicy (Some root) manager (imp_SubPolicy conf))) managers;
          threshold =
            (if length subPolicies = 0 then 0
             else if imp_Rule conf = ImplicitMetaPolicy_ANY then 1
             else if imp_Rule conf = ImplicitMetaPolicy_ALL then int (length subPolicies)
             else if imp_Rule conf = ImplicitMetaPolicy_MAJORITY then int (length subPolicies) div 2 + 1
             else 0)
      in Policy_meta threshold subPolicies)"

text \<open>
  A pending configuration: the proposed policies, implicit ones not yet initialized, and the managers
  of the sub-groups, which have been committed before. \<open>root\<close> is the topmost manager.
\<close>

record policyConfig =
  pcf_policies :: "(string \<times> (ImplicitMetaPolicy + policy)) list"
  pcf_managers :: "(string \<times> ManagerImpl) list"

definition newImplicitMetaPolicy :: "(bytes \<Rightarrow> string + ImplicitMetaPolicy) \<Rightarrow> bytes \<Rightarrow> (string, ImplicitMetaPolicy) res" where
  "newImplicitMetaPolicy un data = unmarshal (\<lambda>e. ''Error unmarshaling to ImplicitMetaPolicy: '' @ e) (un data)"

definition Policy_IMPLICIT_META :: int where "Policy_IMPLICIT_META = 3"

text \<open>A proposed policy is its type and its bytes; the providers of the other types are given.\<close>

definition ProposePolicy :: "(bytes \<Rightarrow> string + ImplicitMetaPolicy) \<Rightarrow> (int \<times> (bytes \<Rightarrow> (string, policy) res)) list \<Rightarrow>
    string \<Rightarrow> (int \<times> bytes) option \<Rightarrow> policyConfig \<Rightarrow> (string, policyConfig) res" where
  "ProposePolicy un providers key configPolicy pendingConfig =
     (case configPolicy of
        None \<Rightarrow> Err ''Policy cannot be nil''
      | Some (type, data) \<Rightarrow>
          rbind (if type = Policy_IMPLICIT_META then rbind (newImplicitMetaPolicy un data) (\<lambda>imp. Ok (Inl imp))
                 else case map_of providers type of
                        None \<Rightarrow> Err ''Unknown policy type''
                      | Some provider \<Rightarrow> rbind (provider data) (\<lambda>cPolicy. Ok (Inr cPolicy))) (\<lambda>cPolicy.
          Ok (pendingConfig\<lparr>pcf_policies := AList.update key cPolicy (pcf_policies pendingConfig)\<rparr>)))"

definition commit_config :: "ManagerImpl \<Rightarrow> ManagerImpl \<Rightarrow> policyConfig \<Rightarrow> ManagerImpl" where
  "commit_config root pm pendingConfig =
     (let managers = pcf_managers pendingConfig;
          sub = concat (map (\<lambda>(managerPath, m).
                  map (\<lambda>policyName. (managerPath @ PathSeparator @ policyName, fst (GetPolicy (Some root) m policyName)))
                    (PolicyNames m)) managers);
          own = map (\<lambda>(name, p). (name, case p of Inl imp \<Rightarrow> imp_initialize imp root managers | Inr p \<Rightarrow> p)) (pcf_policies pendingConfig)
      in ManagerImpl (pm_basePath pm) (fold (\<lambda>(k, v). AList.update k v) sub own) managers)"

text \<open>
  The pending configurations of a manager by transaction. A manager of a pending configuration is
  replaced by its committed form when it commits, which happens before its parent commits.
\<close>

type_synonym 't pending = "('t \<times> policyConfig) list"

definition NewManagerImpl :: "string \<Rightarrow> (int \<times> (bytes \<Rightarrow> (string, policy) res)) list \<Rightarrow> (string, ManagerImpl) res" where
  "NewManagerImpl basePath providers =
     (if map_of providers Policy_IMPLICIT_META \<noteq> None then Panic else Ok (ManagerImpl basePath [] []))"

fun new_managers :: "(int \<times> (bytes \<Rightarrow> (string, policy) res)) list \<Rightarrow> string list \<Rightarrow> (string \<times> ManagerImpl) list \<Rightarrow>
    (string, (string \<times> ManagerImpl) list) res" where
  "new_managers providers [] managers = Ok managers"
| "new_managers providers (grp # groups) managers =
     rbind (NewManagerImpl grp providers) (\<lambda>newManager.
     new_managers providers groups (AList.update grp newManager managers))"

definition BeginPolicyProposals :: "(int \<times> (bytes \<Rightarrow> (string, policy) res)) list \<Rightarrow> 't \<Rightarrow> string list \<Rightarrow> 't pending \<Rightarrow>
    (string, 't pending) res" where
  "BeginPolicyProposals providers tx groups pending =
     (if map_of pending tx \<noteq> None then Panic
      else rbind (new_managers providers groups []) (\<lambda>managers.
        Ok (AList.update tx \<lparr>pcf_policies = [], pcf_managers = managers\<rparr> pending)))"

definition RollbackProposals :: "'t \<Rightarrow> 't pending \<Rightarrow> 't pending" where
  "RollbackProposals tx pending = AList.delete tx pending"

definition CommitProposals :: "ManagerImpl \<Rightarrow> ManagerImpl \<Rightarrow> 't \<Rightarrow> 't pending \<Rightarrow> (string, ManagerImpl \<times> 't pending) res" where
  "CommitProposals root pm tx pending =
     (case map_of pending tx of
        None \<Rightarrow> Panic
      | Some pendingConfig \<Rightarrow> Ok (commit_config root pm pendingConfig, AList.delete tx pending))"

section \<open>Compiled policies do not panic\<close>

text \<open>The policies that \<open>compile\<close> accepts.\<close>

fun wf_policy :: "nat \<Rightarrow> SignaturePolicy \<Rightarrow> bool" where
  "wf_policy k (SignaturePolicy_NOutOf n rules) \<longleftrightarrow> list_all (\<lambda>r. case r of None \<Rightarrow> False | Some p \<Rightarrow> wf_policy k p) rules"
| "wf_policy k (SignaturePolicy_SignedBy i) \<longleftrightarrow> 0 \<le> i \<and> i < int k"
| "wf_policy k SignaturePolicy_unknown \<longleftrightarrow> False"

lemma compile_wf:
  "(\<exists>c. compile_policy ids p = Ok c) \<longleftrightarrow> wf_policy (length ids) p"
  "(\<exists>cs. compile_rules ids rs = Ok cs) \<longleftrightarrow> list_all (\<lambda>r. case r of None \<Rightarrow> False | Some p \<Rightarrow> wf_policy (length ids) p) rs"
  by (induction ids p and ids rs rule: compile_policy_compile_rules.induct) (auto simp: go_res)

lemma compile_not_Panic: "compile_policy ids p \<noteq> Panic" "compile_rules ids rs \<noteq> Panic"
  by (induction ids p and ids rs rule: compile_policy_compile_rules.induct) (auto simp: go_res)

text \<open>The methods of an identity report errors; they do not panic.\<close>

definition io_safe :: "'i identity_ops \<Rightarrow> bool" where
  "io_safe io \<longleftrightarrow> (\<forall>b. io_DeserializeIdentity io b \<noteq> Panic) \<and> (\<forall>x p. io_SatisfiesPrincipal io x p \<noteq> Panic) \<and>
     (\<forall>x d s. io_Verify io x d s \<noteq> Panic)"

lemma signed_by_total:
  "io_safe io \<Longrightarrow> i + length sds \<le> length used \<Longrightarrow>
    \<exists>ok used'. signed_by_loop io pr sds i used = Ok (ok, used') \<and> length used' = length used"
proof (induction sds arbitrary: i)
  case (Cons sd sds)
  from Cons.IH [of "Suc i"] Cons.prems obtain ok used' where
    step: "signed_by_loop io pr sds (Suc i) used = Ok (ok, used')" "length used' = length used" by auto
  have i: "i < length used" using Cons.prems by simp
  have safe: "io_DeserializeIdentity io b \<noteq> Panic" "io_SatisfiesPrincipal io x p \<noteq> Panic" "io_Verify io x d s \<noteq> Panic"
    for b x p d s using Cons.prems(1) by (simp_all add: io_safe_def)
  show ?case
    using i step safe by (simp add: index_def set_index_def split: res.split) blast
qed auto

lemma run_total:
  "io_safe io \<Longrightarrow> length used = length sds \<Longrightarrow> \<exists>ok used'. run_compiled io sds p used = Ok (ok, used') \<and> length used' = length used"
  "io_safe io \<Longrightarrow> length used = length sds \<Longrightarrow> \<exists>n used'. run_gate io sds ps v used = Ok (n, used') \<and> length used' = length used"
proof (induction io sds p used and io sds ps v used rule: run_compiled_run_gate.induct)
  case (2 io sds pr used)
  then show ?case using signed_by_total [of io 0 sds used pr] by simp
next
  case (4 io sds p rest v used)
  then obtain ok used' where r: "run_compiled io sds p used = Ok (ok, used')" "length used' = length used" by blast
  with 4 show ?case by (cases ok) auto
qed auto

section \<open>What a policy requires\<close>

text \<open>Signature \<open>i\<close> is valid and from an identity that satisfies the principal.\<close>

definition valid_signature :: "'i identity_ops \<Rightarrow> SignedData list \<Rightarrow> MSPPrincipal \<Rightarrow> nat \<Rightarrow> bool" where
  "valid_signature io sds pr i \<longleftrightarrow> i < length sds \<and>
     (\<exists>x. io_DeserializeIdentity io (sd_Identity (sds ! i)) = Ok x \<and> io_SatisfiesPrincipal io x pr = Ok () \<and>
       io_Verify io x (sd_Data (sds ! i)) (sd_Signature (sds ! i)) = Ok ())"

text \<open>
  A policy is satisfied by a set of signatures: a principal by one valid signature, and a gate by
  signatures that satisfy enough of its rules, no signature counting for two of them.
\<close>

inductive satisfied :: "'i identity_ops \<Rightarrow> SignedData list \<Rightarrow> compiled \<Rightarrow> nat set \<Rightarrow> bool"
  and satisfied_rules :: "'i identity_ops \<Rightarrow> SignedData list \<Rightarrow> compiled list \<Rightarrow> nat \<Rightarrow> nat set \<Rightarrow> bool"
  for io :: "'i identity_ops" and sds :: "SignedData list" where
  signed: "valid_signature io sds pr i \<Longrightarrow> satisfied io sds (Signed_By pr) {i}"
| gate: "satisfied_rules io sds ps k S \<Longrightarrow> n \<le> int k \<Longrightarrow> satisfied io sds (Gate n ps) S"
| no_rule: "satisfied_rules io sds [] 0 {}"
| skip_rule: "satisfied_rules io sds ps k S \<Longrightarrow> satisfied_rules io sds (p # ps) k S"
| count_rule: "satisfied io sds p S \<Longrightarrow> satisfied_rules io sds ps k T \<Longrightarrow> S \<inter> T = {} \<Longrightarrow>
    satisfied_rules io sds (p # ps) (Suc k) (S \<union> T)"

definition marked :: "bool list \<Rightarrow> nat set" where
  "marked used = {i. i < length used \<and> used ! i}"

lemma marked_update: "i < length used \<Longrightarrow> marked (used[i := True]) = insert i (marked used)"
  by (auto simp: marked_def nth_list_update)

lemma signed_by_sound:
  assumes "signed_by_loop io pr (drop i sds) i used = Ok (True, used')" and "length used = length sds"
  shows "\<exists>j. valid_signature io sds pr j \<and> j \<notin> marked used \<and> marked used' = insert j (marked used) \<and> length used' = length used"
  using assms
proof (induction "length sds - i" arbitrary: i)
  case 0
  then show ?case by simp
next
  case (Suc k)
  then have i: "i < length sds" by linarith
  have d: "drop i sds = sds ! i # drop (Suc i) sds" using i by (simp add: Cons_nth_drop_Suc)
  let ?next = "signed_by_loop io pr (drop (Suc i) sds) (Suc i) used"
  show ?case
  proof (cases "?next = Ok (True, used')")
    case True
    show ?thesis by (rule Suc(1) [OF _ True Suc(4)]) (use Suc(2) in simp)
  next
    case False
    then have "valid_signature io sds pr i \<and> \<not> used ! i \<and> used' = used[i := True]"
      using Suc(3,4) i unfolding d
      by (auto simp: index_def set_index_def valid_signature_def split: if_splits res.splits)
    then show ?thesis using marked_update [of i used] i Suc(4) by (intro exI [of _ i]) (auto simp: marked_def)
  qed
qed

text \<open>Each rule that a gate counts brings signatures of its own.\<close>

lemma run_sound:
  "run_compiled io sds p used = Ok (True, used') \<Longrightarrow> length used = length sds \<Longrightarrow>
    \<exists>S. satisfied io sds p S \<and> S \<inter> marked used = {} \<and> marked used' = marked used \<union> S \<and> length used' = length used"
  "run_gate io sds ps v used = Ok (n, used') \<Longrightarrow> length used = length sds \<Longrightarrow>
    \<exists>k S. satisfied_rules io sds ps k S \<and> n = v + int k \<and> S \<inter> marked used = {} \<and>
      marked used' = marked used \<union> S \<and> length used' = length used"
proof (induction io sds p used and io sds ps v used arbitrary: used' and n used' rule: run_compiled_run_gate.induct)
  case (1 io sds n ps used)
  then obtain m where m: "run_gate io sds ps 0 used = Ok (m, used')" "n \<le> m" by (auto simp: go_res)
  from 1(1) [OF m(1) 1(3)] m(2) show ?case by (auto intro: satisfied_satisfied_rules.gate)
next
  case (2 io sds pr used)
  then obtain j where "valid_signature io sds pr j" "j \<notin> marked used" "marked used' = insert j (marked used)" "length used' = length used"
    using signed_by_sound [of io pr 0 sds used used'] by auto
  then show ?case using satisfied_satisfied_rules.signed [of io sds pr j] by (intro exI [of _ "{j}"]) auto
next
  case (3 io sds v used)
  then show ?case using satisfied_satisfied_rules.no_rule [of io sds] by fastforce
next
  case (4 io sds p ps v used)
  from 4(4) obtain ok used1 where r: "run_compiled io sds p used = Ok (ok, used1)" by (auto simp: go_res)
  show ?case
  proof (cases ok)
    case True
    from 4(1) [of used1] r True 4(5) obtain S where S: "satisfied io sds p S" "S \<inter> marked used = {}"
        "marked used1 = marked used \<union> S" "length used1 = length used" by auto
    have "run_gate io sds ps (v + 1) used1 = Ok (n, used')" using 4(4) r True by simp
    from 4(2) [OF r refl True this] S(4) 4(5) obtain k T where T: "satisfied_rules io sds ps k T" "n = v + 1 + int k"
        "T \<inter> marked used1 = {}" "marked used' = marked used1 \<union> T" "length used' = length used1" by auto
    have "S \<inter> T = {}" using S(3) T(3) by blast
    from satisfied_satisfied_rules.count_rule [OF S(1) T(1) this] have "satisfied_rules io sds (p # ps) (Suc k) (S \<union> T)" .
    moreover have "n = v + int (Suc k)" "(S \<union> T) \<inter> marked used = {}" "marked used' = marked used \<union> (S \<union> T)"
      using S(2,3) T(2-4) by auto
    ultimately show ?thesis using S(4) T(5) by metis
  next
    case False
    have "run_gate io sds ps v used = Ok (n, used')" using 4(4) r False by simp
    from 4(3) [OF r refl False this 4(5)] show ?thesis using satisfied_satisfied_rules.skip_rule by metis
  qed
qed

section \<open>Parsed policies\<close>

lemma wf_policy_mono: "wf_policy k p \<Longrightarrow> k \<le> k' \<Longrightarrow> wf_policy k' p"
  by (induction k p rule: wf_policy.induct) (auto simp: list_all_iff split: option.splits)

lemma wf_NOutOf: "wf_policy k (NOutOf n ps) \<longleftrightarrow> list_all (wf_policy k) ps"
  by (simp add: NOutOf_def list_all_iff)

definition wf_context :: "parse_context \<Rightarrow> bool" where
  "wf_context ctx \<longleftrightarrow> ctx_IDNum ctx = int (length (ctx_principals ctx))"

definition wf_arg :: "parse_context \<Rightarrow> gate_arg \<Rightarrow> bool" where
  "wf_arg ctx a \<longleftrightarrow> (case a of Arg_policy p \<Rightarrow> wf_policy (length (ctx_principals ctx)) p | _ \<Rightarrow> True)"

lemma second_pass_wf:
  assumes "second_pass_args mr args ctx ps = Ok (ps', ctx')" and "wf_context ctx" and "list_all (wf_arg ctx) args"
    and "list_all (wf_policy (length (ctx_principals ctx))) ps"
  shows "wf_context ctx' \<and> length (ctx_principals ctx) \<le> length (ctx_principals ctx') \<and>
    list_all (wf_policy (length (ctx_principals ctx'))) ps' \<and> length ps' = length ps + length args"
  using assms
proof (induction mr args ctx ps rule: second_pass_args.induct)
  case (2 mr t rest ctx ps)
  from 2(2) obtain org role where m: "match_principal t = Some (org, role)" by (auto split: option.splits)
  let ?ctx = "\<lparr>ctx_IDNum = ctx_IDNum ctx + 1, ctx_principals = ctx_principals ctx @ [MSPPrincipal_ROLE (mr role org)]\<rparr>"
  have "second_pass_args mr rest ?ctx (ps @ [SignedBy (ctx_IDNum ctx)]) = Ok (ps', ctx')" using 2(2) m by simp
  moreover have "wf_context ?ctx" using 2(3) by (simp add: wf_context_def)
  moreover have "list_all (wf_arg ?ctx) rest"
    using 2(4) wf_policy_mono [OF _ le_SucI [OF order_refl]] by (force simp: list_all_iff wf_arg_def split: gate_arg.splits)
  moreover have "list_all (wf_policy (length (ctx_principals ?ctx))) (ps @ [SignedBy (ctx_IDNum ctx)])"
    using 2(3,5) wf_policy_mono [OF _ le_SucI [OF order_refl]] by (auto simp: list_all_iff wf_context_def SignedBy_def)
  ultimately have "wf_context ctx' \<and> length (ctx_principals ?ctx) \<le> length (ctx_principals ctx') \<and>
      list_all (wf_policy (length (ctx_principals ctx'))) ps' \<and> length ps' = length (ps @ [SignedBy (ctx_IDNum ctx)]) + length rest"
    by (intro 2(1) [OF m refl])
  then show ?case by simp
next
  case (3 mr p rest ctx ps)
  then show ?case by (simp add: wf_arg_def)
qed auto

lemma secondPass_wf:
  assumes "secondPass mr args ctx = Ok (p, ctx')" and "wf_context ctx" and "list_all (wf_arg ctx) args"
  shows "wf_context ctx' \<and> wf_policy (length (ctx_principals ctx')) p"
proof -
  from assms(1) obtain t ps where "second_pass_args mr (drop 2 args) ctx [] = Ok (ps, ctx')" "p = NOutOf t ps"
    by (auto simp: secondPass_def go_res split: if_splits gate_arg.splits)
  with second_pass_wf [OF this(1) assms(2)] assms(3) show ?thesis
    by (auto simp: wf_NOutOf list_all_iff dest: in_set_dropD)
qed

text \<open>A policy string that is a number is not rejected: the parser panics.\<close>

lemma number_policy_panics: "gv1 policy [(''AND'', and_gate), (''and'', and_gate), (''OR'', or_gate), (''or'', or_gate)] = Ok (Arg_num n) \<Longrightarrow>
    FromString gv1 gv2 mr policy = Panic"
  by (simp add: FromString_def meaningful_error_def)

lemma gate_bound: "run_gate io sds ps v used = Ok (n, used') \<Longrightarrow> n \<le> v + int (length ps)"
  by (induction ps arbitrary: v used) (fastforce simp: go_res split: if_splits)+

lemma compile_rules_length: "compile_rules ids rs = Ok cs \<Longrightarrow> length cs = length rs"
proof (induction rs arbitrary: cs)
  case (Cons r rs)
  then show ?case by (cases r) (auto simp: go_res)
qed simp

section \<open>Implicit meta policies\<close>

lemma sig_Evaluate_total: "io_safe io \<Longrightarrow> sig_Evaluate io p sds \<noteq> Panic"
  using run_total(1) [of io "replicate (length sds) False" sds p] by (auto simp: sig_Evaluate_def split: if_splits)

lemma Evaluate_total:
  "io_safe io \<Longrightarrow> Evaluate io sds p \<noteq> Panic" "io_safe io \<Longrightarrow> meta_loop io sds ps r \<noteq> Panic"
  by (induction io sds p and io sds ps r rule: Evaluate_meta_loop.induct) (auto simp: sig_Evaluate_total go_res split: res.splits)

definition accepting :: "'i identity_ops \<Rightarrow> SignedData list \<Rightarrow> policy list \<Rightarrow> nat" where
  "accepting io sds ps = length (filter (\<lambda>p. Evaluate io sds p = Ok ()) ps)"

text \<open>The policies of the sub-groups that an implicit meta policy refers to.\<close>

definition sub_policies :: "ImplicitMetaPolicy \<Rightarrow> ManagerImpl \<Rightarrow> (string \<times> ManagerImpl) list \<Rightarrow> policy list" where
  "sub_policies conf root managers = map (\<lambda>(_, m). fst (GetPolicy (Some root) m (imp_SubPolicy conf))) managers"

text \<open>The number of sub-groups out of \<open>n\<close> that a rule asks for.\<close>

definition meta_threshold :: "int \<Rightarrow> nat \<Rightarrow> int" where
  "meta_threshold rule n =
     (if n = 0 then 0 else if rule = ImplicitMetaPolicy_ANY then 1 else if rule = ImplicitMetaPolicy_ALL then int n
      else if rule = ImplicitMetaPolicy_MAJORITY then int n div 2 + 1 else 0)"

lemma meta_loop_count:
  "io_safe io \<Longrightarrow> meta_loop io sds ps r =
     Ok (if 0 < r \<and> r \<le> int (accepting io sds ps) then 0 else r - int (accepting io sds ps))"
proof (induction ps arbitrary: r)
  case (Cons p ps)
  then show ?case using Evaluate_total(1) [OF Cons.prems, of sds p]
    by (cases "Evaluate io sds p") (auto simp: accepting_def)
qed (simp add: accepting_def)

section \<open>Names of committed policies\<close>

lemma map_of_updates:
  "map_of (fold (\<lambda>(k, v). AList.update k v) sub own) k = (case map_of (rev sub) k of Some v \<Rightarrow> Some v | None \<Rightarrow> map_of own k)"
  by (induction sub arbitrary: own) (auto simp: update_conv' split: option.splits)

lemma map_of_functional: "(k, v) \<in> set xs \<Longrightarrow> (\<And>v'. (k, v') \<in> set xs \<Longrightarrow> v' = v) \<Longrightarrow> map_of xs k = Some v"
  by (metis map_of_SomeD weak_map_of_SomeI)

lemma separator_unique:
  assumes "g @ PathSeparator @ n = g' @ PathSeparator @ n'" and "CHR ''/'' \<notin> set g" and "CHR ''/'' \<notin> set g'"
  shows "g = g' \<and> n = n'"
  using assms by (auto simp: PathSeparator_def append_eq_append_conv2 append_eq_Cons_conv Cons_eq_append_conv)

section \<open>Properties\<close>

text \<open>C28: Policies that are built from policy strings do not go wrong. When the second pass over a gate
  succeeds on arguments that are well formed for the principals collected so far, its policy compiles
  against the principals it leaves, its context stays well formed, and the compiled policy is evaluated to
  acceptance or rejection for every signature set, without a panic.
\<close>

theorem parsed_policy_sound:
  assumes "secondPass mr args ctx = Ok (p, ctx')" and "wf_context ctx" and "list_all (wf_arg ctx) args" and "io_safe io"
  shows "wf_context ctx' \<and> wf_arg ctx' (Arg_policy p) \<and>
    (\<exists>c. compile (Some p) (ctx_principals ctx') = Ok c \<and> sig_Evaluate io c sds \<noteq> Panic)"
  using secondPass_wf [OF assms(1-3)] compile_wf(1) [of "ctx_principals ctx'" p] sig_Evaluate_total [OF assms(4)]
  by (auto simp: compile_def wf_arg_def)

text \<open>C27: A signature set that a signature policy accepts holds signatures that satisfy the policy: valid
  ones, from identities that satisfy the principals, no signature counting for two rules of a gate.
\<close>

theorem policy_acceptance_sound:
  assumes "sig_Evaluate io p sds = Ok ()"
  shows "\<exists>S. satisfied io sds p S"
proof -
  from assms obtain used where "run_compiled io sds p (replicate (length sds) False) = Ok (True, used)"
    by (auto simp: sig_Evaluate_def go_res split: if_splits)
  from run_sound(1) [OF this] show ?thesis by auto
qed

text \<open>Identities are their own names; a role is satisfied by everyone, an identity by itself.\<close>

definition name_ops :: "string identity_ops" where
  "name_ops = \<lparr>io_DeserializeIdentity = (\<lambda>b. Ok b),
     io_SatisfiesPrincipal = (\<lambda>x p. case p of MSPPrincipal_ROLE _ \<Rightarrow> Ok () | MSPPrincipal_IDENTITY b \<Rightarrow> if x = b then Ok () else Err ''no''
       | MSPPrincipal_other _ _ \<Rightarrow> Err ''unsupported''),
     io_Verify = (\<lambda>x d s. if s = x @ d then Ok () else Err ''bad signature'')\<rparr>"

definition signed_as :: "string \<Rightarrow> SignedData" where
  "signed_as x = \<lparr>sd_Data = ''d'', sd_Identity = x, sd_Signature = x @ ''d''\<rparr>"

lemma name_ops_safe: "io_safe name_ops"
  by (simp add: io_safe_def name_ops_def split: MSPPrincipal.split)

definition member_and_a :: compiled where
  "member_and_a = Gate 2 [Signed_By (MSPPrincipal_ROLE ''m''), Signed_By (MSPPrincipal_IDENTITY ''a'')]"

theorem parsed_policy_sound_witness:
  "\<exists>p ctx' c. secondPass (\<lambda>_ m. m) [Arg_ctx, Arg_num 1, Arg_string ''Org1.member'', Arg_string ''Org2.admin''] newContext = Ok (p, ctx') \<and>
     compile (Some p) (ctx_principals ctx') = Ok c \<and> sig_Evaluate name_ops c [signed_as ''a''] \<noteq> Panic"
proof -
  obtain p ctx' where r: "secondPass (\<lambda>_ m. m) [Arg_ctx, Arg_num 1, Arg_string ''Org1.member'', Arg_string ''Org2.admin''] newContext = Ok (p, ctx')"
    by (simp add: secondPass_def match_principal_def is_alnum_def is_digit_def newContext_def)
  have "wf_context newContext" "list_all (wf_arg newContext) [Arg_ctx, Arg_num 1, Arg_string ''Org1.member'', Arg_string ''Org2.admin'']"
    by (simp_all add: wf_context_def newContext_def wf_arg_def)
  from parsed_policy_sound [OF r this name_ops_safe, of "[signed_as ''a'']"] r show ?thesis by blast
qed

theorem policy_acceptance_sound_witness:
  "sig_Evaluate name_ops member_and_a [signed_as ''b'', signed_as ''a''] = Ok () \<and>
    (\<exists>S. satisfied name_ops [signed_as ''b'', signed_as ''a''] member_and_a S)"
proof -
  have "sig_Evaluate name_ops member_and_a [signed_as ''b'', signed_as ''a''] = Ok ()" by code_simp
  with policy_acceptance_sound [OF this] show ?thesis by blast
qed

text \<open>The converse fails, and acceptance depends on the order of the signatures. A gate gives each rule
  the first signature that fits and never reconsiders, so signatures that satisfy a policy are rejected in
  one order and accepted in the other.
\<close>

theorem acceptance_depends_on_order:
  "\<exists>S. satisfied name_ops [signed_as ''a'', signed_as ''b''] member_and_a S \<and>
    sig_Evaluate name_ops member_and_a [signed_as ''a'', signed_as ''b''] = Err ''Failed to authenticate policy'' \<and>
    sig_Evaluate name_ops member_and_a [signed_as ''b'', signed_as ''a''] = Ok ()"
proof (intro exI conjI)
  let ?sds = "[signed_as ''a'', signed_as ''b'']"
  have "valid_signature name_ops ?sds (MSPPrincipal_ROLE ''m'') 1" "valid_signature name_ops ?sds (MSPPrincipal_IDENTITY ''a'') 0"
    by (simp_all add: valid_signature_def name_ops_def signed_as_def)
  from this [THEN satisfied_satisfied_rules.signed]
  have "satisfied_rules name_ops ?sds [Signed_By (MSPPrincipal_ROLE ''m''), Signed_By (MSPPrincipal_IDENTITY ''a'')]
      (Suc (Suc 0)) ({1} \<union> ({0} \<union> {}))"
    by (intro satisfied_satisfied_rules.count_rule satisfied_satisfied_rules.no_rule) auto
  then show "satisfied name_ops ?sds member_and_a ({1} \<union> ({0} \<union> {}))"
    unfolding member_and_a_def by (rule satisfied_satisfied_rules.gate) simp
qed code_simp+

text \<open>The bound that the second pass puts on \<open>t\<close> is off by one: a gate over \<open>n\<close> principals that asks for
  \<open>n + 1\<close> of them is built without an error, and no signature set is ever accepted by it.
\<close>

theorem unsatisfiable_gate_accepted:
  assumes "second_pass_args mr args ctx [] = Ok (ps, ctx')" and "args \<noteq> []"
    and "wf_context ctx" and "list_all (wf_arg ctx) args"
  shows "\<exists>p c. secondPass mr (Arg_ctx # Arg_num (int (length args) + 1) # args) ctx = Ok (p, ctx') \<and>
    compile (Some p) (ctx_principals ctx') = Ok c \<and> sig_Evaluate io c sds \<noteq> Ok ()"
proof -
  let ?p = "NOutOf (int (length args) + 1) ps"
  from second_pass_wf [OF assms(1,3,4)] have wf: "list_all (wf_policy (length (ctx_principals ctx'))) ps" "length ps = length args"
    by simp_all
  have r: "secondPass mr (Arg_ctx # Arg_num (int (length args) + 1) # args) ctx = Ok (?p, ctx')"
    using assms(1,2) by (cases args) (simp_all add: secondPass_def)
  from wf(1) obtain c where c: "compile_policy (ctx_principals ctx') ?p = Ok c" using compile_wf(1) wf_NOutOf by metis
  then obtain cs where cs: "compile_rules (ctx_principals ctx') (map Some ps) = Ok cs" "c = Gate (int (length args) + 1) cs"
    by (auto simp: NOutOf_def go_res)
  have "length cs = length args" using compile_rules_length [OF cs(1)] wf(2) by simp
  then have "sig_Evaluate io c sds \<noteq> Ok ()"
    using cs(2) by (auto simp: sig_Evaluate_def go_res dest!: gate_bound split: if_splits)
  with r c show ?thesis by (auto simp: compile_def)
qed

theorem unsatisfiable_gate_accepted_witness:
  "\<exists>p ctx' c. secondPass (\<lambda>_ m. m) [Arg_ctx, Arg_num 2, Arg_string ''Org1.member''] newContext = Ok (p, ctx') \<and>
     compile (Some p) (ctx_principals ctx') = Ok c \<and> sig_Evaluate name_ops c [signed_as ''a'', signed_as ''b''] \<noteq> Ok ()"
proof -
  obtain ps ctx' where r: "second_pass_args (\<lambda>_ m. m) [Arg_string ''Org1.member''] newContext [] = Ok (ps, ctx')"
    by (simp add: match_principal_def is_alnum_def is_digit_def newContext_def)
  have "wf_context newContext" "list_all (wf_arg newContext) [Arg_string ''Org1.member'']"
    by (simp_all add: wf_context_def newContext_def wf_arg_def)
  from unsatisfiable_gate_accepted [OF r _ this, of name_ops "[signed_as ''a'', signed_as ''b'']"] show ?thesis by simp blast
qed

text \<open>C29: An implicit meta policy counts the sub-groups whose policy accepts: \<open>ANY\<close> asks for one of them,
  \<open>ALL\<close> for all and \<open>MAJORITY\<close> for more than half, and with no sub-group each rule accepts. A rule that is
  none of the three inverts the policy: it accepts exactly when no sub-policy does.
\<close>

theorem implicit_meta_exact:
  assumes "io_safe io"
  shows "Evaluate io sds (imp_initialize conf root managers) = Ok () \<longleftrightarrow>
    (let n = length managers; k = accepting io sds (sub_policies conf root managers)
     in if imp_Rule conf = ImplicitMetaPolicy_ANY then n = 0 \<or> k \<noteq> 0
        else if imp_Rule conf = ImplicitMetaPolicy_ALL then k = n
        else if imp_Rule conf = ImplicitMetaPolicy_MAJORITY then n = 0 \<or> n < 2 * k
        else k = 0)"
proof -
  let ?subs = "sub_policies conf root managers"
  have "accepting io sds ?subs \<le> length managers" by (metis accepting_def length_filter_le length_map sub_policies_def)
  moreover have "imp_initialize conf root managers = Policy_meta (meta_threshold (imp_Rule conf) (length managers)) ?subs"
    by (simp add: imp_initialize_def sub_policies_def meta_threshold_def Let_def)
  ultimately show ?thesis
    by (auto simp: meta_loop_count [OF assms(1)] meta_threshold_def Let_def ImplicitMetaPolicy_ANY_def
        ImplicitMetaPolicy_ALL_def ImplicitMetaPolicy_MAJORITY_def)
qed

theorem implicit_meta_exact_witness:
  "let accept = Policy_signature (Gate 0 []); reject = Policy_signature (Gate 1 []);
       managers = [(''Org1'', ManagerImpl ''Org1'' [(''Readers'', accept)] []), (''Org2'', ManagerImpl ''Org2'' [(''Readers'', accept)] []),
                   (''Org3'', ManagerImpl ''Org3'' [(''Readers'', reject)] [])]
   in Evaluate name_ops [] (imp_initialize \<lparr>imp_Rule = 2, imp_SubPolicy = ''Readers''\<rparr> (ManagerImpl ''Channel'' [] []) managers) = Ok ()"
  unfolding Let_def implicit_meta_exact [OF name_ops_safe]
  by (simp add: accepting_def sub_policies_def GetPolicy_def PathSeparator_def has_prefix_def sig_Evaluate_def ImplicitMetaPolicy_ANY_def
      ImplicitMetaPolicy_ALL_def ImplicitMetaPolicy_MAJORITY_def)

text \<open>A committed policy manager resolves qualified names. A policy that the manager of a sub-group knows
  under a relative name is what the manager above it finds under its own prefix followed by the name of
  the group and that name, provided that no name of a group holds a separator.
\<close>

theorem qualified_policy_found:
  assumes "map_of pending tx = Some cfg" and "map_of (pcf_managers cfg) g = Some m" and "map_of (pm_policies m) n = Some p"
    and "n \<noteq> []" and "\<not> has_prefix PathSeparator n"
    and "distinct (map fst (pcf_managers cfg))" and "\<forall>g \<in> fst ` set (pcf_managers cfg). CHR ''/'' \<notin> set g"
  shows "\<exists>pm'. CommitProposals root pm tx pending = Ok (pm', RollbackProposals tx pending) \<and>
    GetPolicy None pm' (fqPrefix pm @ g @ PathSeparator @ n) = (p, True)"
proof -
  define sub where "sub = concat (map (\<lambda>(managerPath, m). map (\<lambda>policyName.
      (managerPath @ PathSeparator @ policyName, fst (GetPolicy (Some root) m policyName))) (PolicyNames m)) (pcf_managers cfg))"
  have m: "(g, m) \<in> set (pcf_managers cfg)" using assms(2) by (rule map_of_SomeD)
  have p: "fst (GetPolicy (Some root) m n) = p" using assms(3-5) by (simp add: GetPolicy_def)
  have "n \<in> set (PolicyNames m)" using map_of_SomeD [OF assms(3)] by (force simp: PolicyNames_def)
  then have "(g @ PathSeparator @ n, p) \<in> set sub" using m p by (force simp: sub_def)
  moreover have "v = p" if v: "(g @ PathSeparator @ n, v) \<in> set sub" for v
  proof -
    from v obtain g' m' n' where e: "(g', m') \<in> set (pcf_managers cfg)" "g @ PathSeparator @ n = g' @ PathSeparator @ n'"
        "v = fst (GetPolicy (Some root) m' n')" by (auto simp: sub_def)
    have "g = g' \<and> n = n'" using separator_unique [OF e(2)] assms(7) e(1) m by force
    with e m p assms(6) show ?thesis by (metis eq_key_imp_eq_value)
  qed
  ultimately have "map_of (rev sub) (g @ PathSeparator @ n) = Some p" using map_of_functional [of _ p "rev sub"] by (metis set_rev)
  then have "map_of (pm_policies (commit_config root pm cfg)) (g @ PathSeparator @ n) = Some p"
    by (simp add: commit_config_def Let_def sub_def [symmetric] map_of_updates)
  then have "GetPolicy None (commit_config root pm cfg) (fqPrefix pm @ g @ PathSeparator @ n) = (p, True)"
    by (simp add: GetPolicy_def fqPrefix_def commit_config_def PathSeparator_def has_prefix_def Let_def)
  then show ?thesis using assms(1) by (simp add: CommitProposals_def RollbackProposals_def)
qed

definition org_config :: policyConfig where
  "org_config = \<lparr>pcf_policies = [(''Readers'', Inl \<lparr>imp_Rule = 0, imp_SubPolicy = ''Readers''\<rparr>)],
     pcf_managers = [(''Org1'', ManagerImpl ''Org1'' [(''Readers'', Policy_signature (Gate 0 []))] [])]\<rparr>"

theorem qualified_policy_found_witness:
  "\<exists>pm'. CommitProposals (ManagerImpl ''Channel'' [] []) (ManagerImpl ''Channel'' [] []) (7::nat) [(7, org_config)] = Ok (pm', []) \<and>
    GetPolicy None pm' ''/Channel/Org1/Readers'' = (Policy_signature (Gate 0 []), True)"
  using qualified_policy_found [of "[(7, org_config)]" 7 org_config "''Org1''" "ManagerImpl ''Org1'' [(''Readers'', Policy_signature (Gate 0 []))] []"
      "''Readers''" "Policy_signature (Gate 0 [])" "ManagerImpl ''Channel'' [] []" "ManagerImpl ''Channel'' [] []"]
  by (simp add: org_config_def PathSeparator_def has_prefix_def fqPrefix_def RollbackProposals_def)

end
