(* ===== verification/Order_Filter.thy ===== *)
theory Order_Filter
  imports Policies
begin

text \<open>
  The filters of the ordering service: the packages \<open>filter\<close>, \<open>sizefilter\<close>, \<open>sigfilter\<close> and
  \<open>configtxfilter\<close> of \<open>orderer/common\<close>, the filter of the system channel in
  \<open>orderer/multichain/systemchain.go\<close>, and the rule sets of \<open>orderer/multichain/chainsupport.go\<close>.

  A rule is a function of the configuration of its channel and of a message. The configuration is a value
  of type \<open>'s\<close>, and a configuration envelope one of type \<open>'e\<close>; what the filters ask of them are the
  fields of \<open>config_ops\<close>. The lemmas say exactly which messages the rule set of a channel accepts.
\<close>

section \<open>Rules\<close>

datatype Action = Accept | Reject | Forward

text \<open>What is to be done when a message is written; configuration messages have a block to themselves.\<close>

datatype 'e Committer = NoopCommitter | configCommitter 'e | systemChainCommitter Envelope

primrec Isolated :: "'e Committer \<Rightarrow> bool" where
  "Isolated NoopCommitter = False"
| "Isolated (configCommitter e) = True"
| "Isolated (systemChainCommitter configTx) = True"

type_synonym ('s, 'e) rule = "'s \<Rightarrow> Envelope \<Rightarrow> (string, Action \<times> 'e Committer option) res"

definition emptyRejectRule :: "('s, 'e) rule" where
  "emptyRejectRule s message = (if env_Payload message = None then Ok (Reject, None) else Ok (Forward, None))"

definition acceptRule :: "('s, 'e) rule" where
  "acceptRule s message = Ok (Accept, Some NoopCommitter)"

fun RuleSet_Apply :: "('s, 'e) rule list \<Rightarrow> 's \<Rightarrow> Envelope \<Rightarrow> (string, 'e Committer option) res" where
  "RuleSet_Apply [] s message = Err ''No matching filter found''"
| "RuleSet_Apply (rule # rules) s message =
     rbind (rule s message) (\<lambda>(action, committer).
     case action of
       Accept \<Rightarrow> Ok committer
     | Reject \<Rightarrow> Err ''Rejected by rule''
     | Forward \<Rightarrow> RuleSet_Apply rules s message)"

section \<open>The filters\<close>

record BatchSize =
  MaxMessageCount :: uint32
  AbsoluteMaxBytes :: uint32
  PreferredMaxBytes :: uint32

text \<open>
  The configuration of a channel: its sequence number, batch size and policies, what it says about a new
  configuration and how one is applied, and for the system channel the limit on the number of channels
  and the checks of a request for a new one.
\<close>

record ('s, 'e, 'i) config_ops =
  co_Sequence :: "'s \<Rightarrow> uint64"
  co_BatchSize :: "'s \<Rightarrow> BatchSize"
  co_PolicyManager :: "'s \<Rightarrow> ManagerImpl"
  co_UnmarshalConfigEnvelope :: "bytes \<Rightarrow> string + 'e"
  co_Validate :: "'s \<Rightarrow> 'e \<Rightarrow> (string, unit) res"
  co_Apply :: "'s \<Rightarrow> 'e \<Rightarrow> (string, 's) res"
  co_MaxChannelsCount :: "'s \<Rightarrow> uint64"
  co_channelsCount :: "'s \<Rightarrow> uint64"
  co_authorizeAndInspect :: "'s \<Rightarrow> Envelope \<Rightarrow> (string, unit) res"
  co_newChain :: "'s \<Rightarrow> Envelope \<Rightarrow> (string, 's) res"
  co_identities :: "'i identity_ops"

definition messageByteSize :: "Envelope \<Rightarrow> uint32" where
  "messageByteSize message = of_nat (length (slice (env_Payload message)) + length (env_Signature message))"

definition maxBytesRule :: "uint32 \<Rightarrow> ('s, 'e) rule" where
  "maxBytesRule maxBytes s message =
     (if messageByteSize message > maxBytes then Ok (Reject, None) else Ok (Forward, None))"

definition sigFilter :: "('s, 'e, 'i) config_ops \<Rightarrow> codec \<Rightarrow> string \<Rightarrow> ('s, 'e) rule" where
  "sigFilter co pc policySource s message =
     (case Envelope_AsSignedData pc (Some message) of
        Panic \<Rightarrow> Panic
      | Err _ \<Rightarrow> Ok (Reject, None)
      | Ok signedData \<Rightarrow>
          (let (policy, ok) = GetPolicy None (co_PolicyManager co s) policySource
           in if \<not> ok then Ok (Reject, None)
              else case Evaluate (co_identities co) signedData policy of
                     Panic \<Rightarrow> Panic
                   | Err _ \<Rightarrow> Ok (Reject, None)
                   | Ok _ \<Rightarrow> Ok (Forward, None)))"

text \<open>Both filters of configuration messages pass on what is not of their type.\<close>

definition typed_header :: "codec \<Rightarrow> Envelope \<Rightarrow> (int \<times> bytes) option" where
  "typed_header pc message =
     (case un_Payload pc (slice (env_Payload message)) of
        Inl _ \<Rightarrow> None
      | Inr msgData \<Rightarrow>
          (case pl_Header msgData of
             None \<Rightarrow> None
           | Some hdr \<Rightarrow>
               (case un_ChannelHeader pc (hdr_ChannelHeader hdr) of
                  Inl _ \<Rightarrow> None
                | Inr chdr \<Rightarrow> Some (ch_Type chdr, pl_Data msgData))))"

definition configFilter :: "('s, 'e, 'i) config_ops \<Rightarrow> codec \<Rightarrow> ('s, 'e) rule" where
  "configFilter co pc s message =
     (case typed_header pc message of
        None \<Rightarrow> Ok (Forward, None)
      | Some (type, data) \<Rightarrow>
          if type \<noteq> HeaderType_CONFIG then Ok (Forward, None)
          else case co_UnmarshalConfigEnvelope co data of
                 Inl _ \<Rightarrow> Ok (Reject, None)
               | Inr configEnvelope \<Rightarrow>
                   (case co_Validate co s configEnvelope of
                      Panic \<Rightarrow> Panic
                    | Err _ \<Rightarrow> Ok (Reject, None)
                    | Ok _ \<Rightarrow> Ok (Accept, Some (configCommitter configEnvelope))))"

definition systemChainFilter :: "('s, 'e, 'i) config_ops \<Rightarrow> codec \<Rightarrow> ('s, 'e) rule" where
  "systemChainFilter co pc s env =
     (case typed_header pc env of
        None \<Rightarrow> Ok (Forward, None)
      | Some (type, data) \<Rightarrow>
          if type \<noteq> HeaderType_ORDERER_TRANSACTION then Ok (Forward, None)
          else if co_MaxChannelsCount co s > 0 \<and> co_channelsCount co s > co_MaxChannelsCount co s then Ok (Reject, None)
          else case un_Envelope pc data of
                 Inl _ \<Rightarrow> Ok (Reject, None)
               | Inr configTx \<Rightarrow>
                   (case co_authorizeAndInspect co s configTx of
                      Panic \<Rightarrow> Panic
                    | Err _ \<Rightarrow> Ok (Reject, None)
                    | Ok _ \<Rightarrow> Ok (Accept, Some (systemChainCommitter configTx))))"

text \<open>The limit on the size of a message is the one of the configuration \<open>s0\<close> at the start of the channel.\<close>

definition createStandardFilters :: "('s, 'e, 'i) config_ops \<Rightarrow> codec \<Rightarrow> 's \<Rightarrow> ('s, 'e) rule list" where
  "createStandardFilters co pc s0 =
     [emptyRejectRule, maxBytesRule (AbsoluteMaxBytes (co_BatchSize co s0)), sigFilter co pc ChannelWriters,
      configFilter co pc, acceptRule]"

definition createSystemChainFilters :: "('s, 'e, 'i) config_ops \<Rightarrow> codec \<Rightarrow> 's \<Rightarrow> ('s, 'e) rule list" where
  "createSystemChainFilters co pc s0 =
     [emptyRejectRule, maxBytesRule (AbsoluteMaxBytes (co_BatchSize co s0)), sigFilter co pc ChannelWriters,
      systemChainFilter co pc, configFilter co pc, acceptRule]"

text \<open>What is done when the message of a committer is written.\<close>

definition Commit :: "('s, 'e, 'i) config_ops \<Rightarrow> 'e Committer \<Rightarrow> 's \<Rightarrow> (string, 's) res" where
  "Commit co committer s =
     (case committer of
        NoopCommitter \<Rightarrow> Ok s
      | configCommitter e \<Rightarrow> (case co_Apply co s e of Ok s1 \<Rightarrow> Ok s1 | _ \<Rightarrow> Panic)
      | systemChainCommitter configTx \<Rightarrow> co_newChain co s configTx)"

section \<open>What the rule sets accept\<close>

definition writer_signed :: "('s, 'e, 'i) config_ops \<Rightarrow> codec \<Rightarrow> string \<Rightarrow> 's \<Rightarrow> Envelope \<Rightarrow> bool" where
  "writer_signed co pc policySource s message \<longleftrightarrow>
     (\<exists>sds p. Envelope_AsSignedData pc (Some message) = Ok sds \<and>
       GetPolicy None (co_PolicyManager co s) policySource = (p, True) \<and> Evaluate (co_identities co) sds p = Ok ())"

lemma sigFilter_Forward: "sigFilter co pc src s m = Ok (Forward, c) \<longleftrightarrow> writer_signed co pc src s m \<and> c = None"
  by (auto simp: sigFilter_def writer_signed_def split: res.splits prod.splits if_splits)

lemma sigFilter_not_Accept: "sigFilter co pc src s m \<noteq> Ok (Accept, c)"
  by (auto simp: sigFilter_def split: res.splits prod.splits if_splits)

lemma RuleSet_Apply_Cons:
  "RuleSet_Apply (rule # rules) s m = Ok c \<longleftrightarrow>
     rule s m = Ok (Accept, c) \<or> (\<exists>c'. rule s m = Ok (Forward, c') \<and> RuleSet_Apply rules s m = Ok c)"
proof (cases "rule s m")
  case (Ok x)
  obtain a k where "x = (a, k)" by force
  with Ok show ?thesis by (cases a) auto
qed auto

definition config_message :: "codec \<Rightarrow> Envelope \<Rightarrow> bytes option" where
  "config_message pc message =
     (case typed_header pc message of Some (t, data) \<Rightarrow> if t = HeaderType_CONFIG then Some data else None | None \<Rightarrow> None)"

lemma configFilter_exact:
  "configFilter co pc s m = Ok (Accept, c) \<longleftrightarrow>
     (\<exists>data e. config_message pc m = Some data \<and> co_UnmarshalConfigEnvelope co data = Inr e \<and> co_Validate co s e = Ok () \<and>
       c = Some (configCommitter e))"
  "configFilter co pc s m = Ok (Forward, c) \<longleftrightarrow> config_message pc m = None \<and> c = None"
  by (auto simp: configFilter_def config_message_def split: option.splits sum.splits res.splits if_splits)

lemmas rule_simps = emptyRejectRule_def maxBytesRule_def acceptRule_def

text \<open>C30: The rule set of a channel accepts exactly the messages with a payload whose size is within the limit
  and that are signed as the policy for the writers of the channel asks. A configuration message has to be
  valid for the current configuration as well, and gets a block to itself; every other message is accepted
  with nothing to do on commit. The limit is the one from the start of the channel, not the current one.
\<close>

theorem standard_filters_exact:
  "RuleSet_Apply (createStandardFilters co pc s0) s m = Ok c \<longleftrightarrow>
     env_Payload m \<noteq> None \<and> messageByteSize m \<le> AbsoluteMaxBytes (co_BatchSize co s0) \<and>
     writer_signed co pc ChannelWriters s m \<and>
     (case config_message pc m of
        None \<Rightarrow> c = Some NoopCommitter
      | Some data \<Rightarrow> \<exists>e. co_UnmarshalConfigEnvelope co data = Inr e \<and> co_Validate co s e = Ok () \<and> c = Some (configCommitter e))"
  unfolding createStandardFilters_def RuleSet_Apply_Cons configFilter_exact sigFilter_Forward
  by (auto simp: rule_simps sigFilter_not_Accept split: option.splits)

lemma standard_filters_committer:
  "RuleSet_Apply (createStandardFilters co pc s0) s m = Ok c \<Longrightarrow> \<exists>k. c = Some k \<and> (Isolated k \<longleftrightarrow> config_message pc m \<noteq> None)"
  unfolding createStandardFilters_def RuleSet_Apply_Cons configFilter_exact sigFilter_Forward
  by (auto simp: rule_simps sigFilter_not_Accept split: if_splits)

lemma standard_filters_accept:
  "config_message pc m = None \<Longrightarrow> env_Payload m \<noteq> None \<Longrightarrow> messageByteSize m \<le> AbsoluteMaxBytes (co_BatchSize co s0) \<Longrightarrow>
    writer_signed co pc ChannelWriters s m \<Longrightarrow> RuleSet_Apply (createStandardFilters co pc s0) s m = Ok (Some NoopCommitter)"
  unfolding createStandardFilters_def RuleSet_Apply_Cons configFilter_exact sigFilter_Forward
  by (auto simp: rule_simps sigFilter_not_Accept)

section \<open>Instances\<close>

text \<open>A channel without configuration messages whose readers and writers need no signature.\<close>

definition open_ops :: "(BatchSize, unit, string) config_ops" where
  "open_ops = \<lparr>co_Sequence = (\<lambda>_. 0), co_BatchSize = id,
     co_PolicyManager = (\<lambda>_. ManagerImpl ''Channel'' [(''Writers'', Policy_signature (Gate 0 [])), (''Readers'', Policy_signature (Gate 0 []))] []),
     co_UnmarshalConfigEnvelope = (\<lambda>_. Inl ''not a configuration''), co_Validate = (\<lambda>_ _. Ok ()), co_Apply = (\<lambda>s _. Ok s),
     co_MaxChannelsCount = (\<lambda>_. 0), co_channelsCount = (\<lambda>_. 1), co_authorizeAndInspect = (\<lambda>_ _. Ok ()),
     co_newChain = (\<lambda>s _. Ok s), co_identities = name_ops\<rparr>"

text \<open>A runtime that reads every text as a payload whose data is the text itself.\<close>

definition bare_codec :: codec where
  "bare_codec =
     \<lparr>un_Envelope = (\<lambda>b. Inr \<lparr>env_Payload = Some b, env_Signature = []\<rparr>),
      un_Payload = (\<lambda>b. Inr \<lparr>pl_Header = Some \<lparr>hdr_ChannelHeader = [], hdr_SignatureHeader = []\<rparr>, pl_Data = b\<rparr>),
      un_ChannelHeader = (\<lambda>b. Inr \<lparr>ch_Type = 0, ch_Version = 0, ch_ChannelId = ''ch'', ch_TxId = [], ch_Epoch = 0, ch_Extension = []\<rparr>),
      un_SignatureHeader = (\<lambda>b. Inr \<lparr>sh_Creator = ''w'', sh_Nonce = []\<rparr>),
      un_ChaincodeHeaderExtension = (\<lambda>b. Inl ''unused''), un_Transaction = (\<lambda>b. Inl ''unused''),
      un_ChaincodeActionPayload = (\<lambda>b. Inl ''unused''), un_ChaincodeProposalPayload = (\<lambda>b. Inl ''unused''),
      un_ChaincodeInvocationSpec = (\<lambda>b. Inl ''unused''), un_ProposalResponsePayload = (\<lambda>b. Inl ''unused''),
      un_ChaincodeAction = (\<lambda>b. Inl ''unused''), un_Metadata = (\<lambda>b. Inr \<lparr>md_Value = b, md_Signatures = []\<rparr>), en_Metadata = md_Value,
      un_LastConfig = (\<lambda>b. Inr \<lparr>lc_Index = 0\<rparr>), en_LastConfig = (\<lambda>_. []), en_Envelope = (\<lambda>e. slice (env_Payload e)),
      en_SignatureHeader = (\<lambda>_. [])\<rparr>"

lemma open_signed: "writer_signed open_ops bare_codec ChannelWriters s m" "writer_signed open_ops bare_codec ChannelReaders s m"
  by (simp_all add: writer_signed_def Envelope_AsSignedData_def bare_codec_def open_ops_def GetPolicy_def has_prefix_def fqPrefix_def
      PathSeparator_def ChannelWriters_def ChannelReaders_def ChannelPrefix_def sig_Evaluate_def)

end
