(* ===== verification/Block_Cutter.thy ===== *)
theory Block_Cutter
  imports Order_Filter
begin

text \<open>
  Cutting the ordered messages into batches: \<open>orderer/common/blockcutter/blockcutter.go\<close>.

  A batch is the list of its messages with the list of their committers; the code keeps the two in
  slices of the same shape. Sizes are \<open>uint32\<close> and wrap. The lemmas show that no message is lost,
  doubled or reordered, and what bounds hold of the batches when the sizes cannot wrap.
\<close>

section \<open>The receiver\<close>

record 'e receiver =
  pendingBatch :: "Envelope list"
  pendingBatchSizeBytes :: uint32
  pendingCommitters :: "'e Committer list"

type_synonym 'e batch = "Envelope list \<times> 'e Committer list"

definition NewReceiverImpl :: "'e receiver" where
  "NewReceiverImpl = \<lparr>pendingBatch = [], pendingBatchSizeBytes = 0, pendingCommitters = []\<rparr>"

definition messageSizeBytes :: "Envelope \<Rightarrow> uint32" where
  "messageSizeBytes message = of_nat (length (slice (env_Payload message)) + length (env_Signature message))"

definition Cut :: "'e receiver \<Rightarrow> 'e batch \<times> 'e receiver" where
  "Cut r = ((pendingBatch r, pendingCommitters r),
     r\<lparr>pendingBatch := [], pendingCommitters := [], pendingBatchSizeBytes := 0\<rparr>)"

text \<open>A cut if the condition holds: the batches it yields and the receiver after it.\<close>

definition cut_if :: "bool \<Rightarrow> 'e receiver \<Rightarrow> 'e batch list \<times> 'e receiver" where
  "cut_if b r = (if b then ([fst (Cut r)], snd (Cut r)) else ([], r))"

definition enqueue :: "Envelope \<Rightarrow> 'e Committer \<Rightarrow> 'e receiver \<Rightarrow> 'e receiver" where
  "enqueue msg committer r =
     r\<lparr>pendingBatch := pendingBatch r @ [msg], pendingBatchSizeBytes := pendingBatchSizeBytes r + messageSizeBytes msg,
       pendingCommitters := pendingCommitters r @ [committer]\<rparr>"

definition Ordered :: "('s, 'e) rule list \<Rightarrow> ('s \<Rightarrow> BatchSize) \<Rightarrow> 's \<Rightarrow> Envelope \<Rightarrow> 'e receiver \<Rightarrow>
    (string, 'e batch list \<times> bool \<times> 'e receiver) res" where
  "Ordered filters batchSize s msg r =
     (case RuleSet_Apply filters s msg of
        Panic \<Rightarrow> Panic
      | Err _ \<Rightarrow> Ok ([], False, r)
      | Ok c \<Rightarrow> rbind (deref c) (\<lambda>committer.
          if Isolated committer \<or> messageSizeBytes msg > PreferredMaxBytes (batchSize s)
          then let (batches, r1) = cut_if (length (pendingBatch r) > 0) r
               in Ok (batches @ [([msg], [committer])], True, r1)
          else let messageWillOverflowBatchSizeBytes =
                     pendingBatchSizeBytes r + messageSizeBytes msg > PreferredMaxBytes (batchSize s);
                   (batches, r1) = cut_if messageWillOverflowBatchSizeBytes r;
                   r2 = enqueue msg committer r1;
                   (batches1, r3) = cut_if (of_nat (length (pendingBatch r2)) \<ge> MaxMessageCount (batchSize s)) r2
               in Ok (batches @ batches1, True, r3)))"

text \<open>
  A history of the receiver: messages, each with the configuration it meets, and cuts on a timeout. The
  result is the sequence of batches.
\<close>

datatype 's cut_event = Message 's Envelope | Timeout

fun cutter_run :: "('s, 'e) rule list \<Rightarrow> ('s \<Rightarrow> BatchSize) \<Rightarrow> 's cut_event list \<Rightarrow> 'e receiver \<Rightarrow>
    (string, 'e batch list \<times> 'e receiver) res" where
  "cutter_run filters batchSize [] r = Ok ([], r)"
| "cutter_run filters batchSize (Message s msg # evs) r =
     rbind (Ordered filters batchSize s msg r) (\<lambda>(batches, ok, r1).
     rbind (cutter_run filters batchSize evs r1) (\<lambda>(rest, r2).
     Ok (batches @ rest, r2)))"
| "cutter_run filters batchSize (Timeout # evs) r =
     (let (batch, r1) = Cut r
      in rbind (cutter_run filters batchSize evs r1) (\<lambda>(rest, r2).
         Ok (if length (fst batch) = 0 then rest else batch # rest, r2)))"

section \<open>No message is lost, doubled or reordered\<close>

text \<open>The accepted messages of a history, with their committers.\<close>

fun accepted :: "('s, 'e) rule list \<Rightarrow> 's cut_event list \<Rightarrow> (Envelope \<times> 'e Committer) list" where
  "accepted filters [] = []"
| "accepted filters (Message s msg # evs) =
     (case RuleSet_Apply filters s msg of Ok (Some k) \<Rightarrow> (msg, k) # accepted filters evs | _ \<Rightarrow> accepted filters evs)"
| "accepted filters (Timeout # evs) = accepted filters evs"

definition batch_contents :: "'e batch list \<Rightarrow> (Envelope \<times> 'e Committer) list" where
  "batch_contents bs = concat (map (\<lambda>(ms, ks). zip ms ks) bs)"

definition pending_messages :: "'e receiver \<Rightarrow> (Envelope \<times> 'e Committer) list" where
  "pending_messages r = zip (pendingBatch r) (pendingCommitters r)"

definition aligned :: "'e receiver \<Rightarrow> bool" where
  "aligned r \<longleftrightarrow> length (pendingCommitters r) = length (pendingBatch r)"

lemma batch_contents_simps [simp]: "batch_contents [] = []" "batch_contents (b # bs) = zip (fst b) (snd b) @ batch_contents bs"
    "batch_contents (as @ bs) = batch_contents as @ batch_contents bs"
  by (simp_all add: batch_contents_def case_prod_beta)

lemma cut_if_keeps: "cut_if b r = (bs, r') \<Longrightarrow> aligned r \<Longrightarrow> batch_contents bs @ pending_messages r' = pending_messages r \<and> aligned r'"
  by (cases b) (auto simp: cut_if_def Cut_def pending_messages_def aligned_def)

lemma enqueue_pending: "aligned r \<Longrightarrow> pending_messages (enqueue msg k r) = pending_messages r @ [(msg, k)] \<and> aligned (enqueue msg k r)"
  by (simp add: enqueue_def pending_messages_def aligned_def)

lemma Ordered_keeps:
  assumes "Ordered filters B s msg r = Ok (bs, ok, r')" and "aligned r"
  shows "batch_contents bs @ pending_messages r' = pending_messages r @ accepted filters [Message s msg] \<and> aligned r'"
proof (cases "RuleSet_Apply filters s msg")
  case (Ok c)
  then obtain k where c: "RuleSet_Apply filters s msg = Ok (Some k)" using assms(1) by (cases c) (auto simp: Ordered_def)
  show ?thesis
  proof (cases "Isolated k \<or> messageSizeBytes msg > PreferredMaxBytes (B s)")
    case True
    obtain b1 r1 where "cut_if (length (pendingBatch r) > 0) r = (b1, r1)" by force
    moreover have "pending_messages r1 = []" using calculation by (auto simp: cut_if_def Cut_def pending_messages_def split: if_splits)
    ultimately show ?thesis using assms cut_if_keeps [of _ r b1 r1] c True by (auto simp: Ordered_def)
  next
    case False
    obtain b1 r1 where 1: "cut_if (pendingBatchSizeBytes r + messageSizeBytes msg > PreferredMaxBytes (B s)) r = (b1, r1)" by force
    obtain b2 r2 where 2: "cut_if (of_nat (length (pendingBatch (enqueue msg k r1))) \<ge> MaxMessageCount (B s)) (enqueue msg k r1) = (b2, r2)" by force
    have "bs = b1 @ b2" "r' = r2" using assms(1) c False 1 2 by (auto simp: Ordered_def Let_def)
    with cut_if_keeps [OF 1 assms(2)] enqueue_pending [of r1 msg k] cut_if_keeps [OF 2] c show ?thesis by auto
  qed
qed (use assms in \<open>auto simp: Ordered_def\<close>)

lemma cutter_keeps:
  "cutter_run filters B evs r = Ok (bs, r') \<Longrightarrow> aligned r \<Longrightarrow> batch_contents bs @ pending_messages r' = pending_messages r @ accepted filters evs \<and> aligned r'"
proof (induction filters B evs r arbitrary: bs r' rule: cutter_run.induct)
  case (2 filters B s msg evs r)
  from 2(2) obtain b1 ok r1 b2 where 1: "Ordered filters B s msg r = Ok (b1, ok, r1)"
    and 2: "cutter_run filters B evs r1 = Ok (b2, r')" "bs = b1 @ b2" by (auto simp: go_res)
  have "batch_contents bs @ pending_messages r' = batch_contents b1 @ (pending_messages r1 @ accepted filters evs) \<and> aligned r'"
    using "2.IH" [OF 1 refl refl 2(1)] Ordered_keeps [OF 1 "2.prems"(2)] 2(2) by simp
  then show ?case using Ordered_keeps [OF 1 "2.prems"(2)] by (auto split: res.splits option.splits)
next
  case (3 filters B evs r)
  obtain b r1 where c: "Cut r = (b, r1)" by (rule prod.exhaust)
  with 3(2) obtain b2 where 2: "cutter_run filters B evs r1 = Ok (b2, r')" "bs = (if length (fst b) = 0 then b2 else b # b2)"
    by (auto simp: go_res)
  have "aligned r1" "zip (fst b) (snd b) @ pending_messages r1 = pending_messages r" using c 3(3) by (auto simp: Cut_def aligned_def pending_messages_def)
  with "3.IH" [OF refl c [symmetric] 2(1)] 2(2) show ?case by auto
qed auto

section \<open>The bounds of batches\<close>

definition message_size :: "Envelope \<Rightarrow> nat" where
  "message_size m = length (slice (env_Payload m)) + length (env_Signature m)"

definition batch_bytes :: "Envelope list \<Rightarrow> nat" where
  "batch_bytes ms = sum_list (map message_size ms)"

definition max_count :: "BatchSize \<Rightarrow> nat" where
  "max_count B = max 1 (unat (MaxMessageCount B))"

text \<open>A batch within the limits: a single message, or several that may share a block.\<close>

definition good_batch :: "BatchSize \<Rightarrow> 'e batch \<Rightarrow> bool" where
  "good_batch B b \<longleftrightarrow> fst b \<noteq> [] \<and> length (fst b) \<le> max_count B \<and>
     (length (fst b) = 1 \<or> batch_bytes (fst b) \<le> unat (PreferredMaxBytes B) \<and> (\<forall>k \<in> set (snd b). \<not> Isolated k))"

definition good_pending :: "BatchSize \<Rightarrow> 'e receiver \<Rightarrow> bool" where
  "good_pending B r \<longleftrightarrow> length (pendingBatch r) < max_count B \<and> unat (pendingBatchSizeBytes r) = batch_bytes (pendingBatch r) \<and>
     batch_bytes (pendingBatch r) \<le> unat (PreferredMaxBytes B) \<and> (\<forall>k \<in> set (pendingCommitters r). \<not> Isolated k)"

lemma size_no_wrap: "message_size m < 2 ^ 32 \<Longrightarrow> unat (messageSizeBytes m) = message_size m"
  by (simp add: messageSizeBytes_def message_size_def unat_of_nat take_bit_nat_eq_self flip: of_nat_add)

lemma good_cut: "good_pending B r \<Longrightarrow> pendingBatch r \<noteq> [] \<Longrightarrow> good_batch B (fst (Cut r)) \<and> good_pending B (snd (Cut r))"
  by (auto simp: good_pending_def good_batch_def Cut_def batch_bytes_def max_count_def)

lemma good_after_cut: "0 < max_count B \<Longrightarrow> good_pending B (snd (Cut r))"
  by (simp add: good_pending_def Cut_def batch_bytes_def)

lemma max_count_pos [simp]: "0 < max_count B"
  by (simp add: max_count_def)

text \<open>The sum of two sizes within the preferred size does not wrap, and so is compared correctly.\<close>

lemma overflow_exact:
  assumes "good_pending B r" and "message_size m < 2 ^ 32" and "unat (PreferredMaxBytes B) < 2 ^ 31"
    and "\<not> messageSizeBytes m > PreferredMaxBytes B"
  shows "unat (pendingBatchSizeBytes r + messageSizeBytes m) = batch_bytes (pendingBatch r @ [m])"
    and "pendingBatchSizeBytes r + messageSizeBytes m > PreferredMaxBytes B \<longleftrightarrow>
      batch_bytes (pendingBatch r @ [m]) > unat (PreferredMaxBytes B)"
proof -
  have "unat (messageSizeBytes m) \<le> unat (PreferredMaxBytes B)" using assms(4) by (simp add: word_le_nat_alt not_less)
  moreover have "unat (pendingBatchSizeBytes r) \<le> unat (PreferredMaxBytes B)" using assms(1) by (simp add: good_pending_def)
  ultimately have "unat (pendingBatchSizeBytes r) + unat (messageSizeBytes m) < 2 ^ 32" using assms(3) by simp
  then show 1: "unat (pendingBatchSizeBytes r + messageSizeBytes m) = batch_bytes (pendingBatch r @ [m])"
    using assms(1) size_no_wrap [OF assms(2)] by (simp add: unat_word_ariths good_pending_def batch_bytes_def)
  show "pendingBatchSizeBytes r + messageSizeBytes m > PreferredMaxBytes B \<longleftrightarrow> batch_bytes (pendingBatch r @ [m]) > unat (PreferredMaxBytes B)"
    by (simp add: word_less_nat_alt 1)
qed

lemma enqueue_good:
  assumes "good_pending B r" and "message_size m < 2 ^ 32" and "unat (PreferredMaxBytes B) < 2 ^ 31"
    and "\<not> messageSizeBytes m > PreferredMaxBytes B" and "\<not> pendingBatchSizeBytes r + messageSizeBytes m > PreferredMaxBytes B"
    and "\<not> Isolated k"
    and "cut_if (of_nat (length (pendingBatch (enqueue m k r))) \<ge> MaxMessageCount B) (enqueue m k r) = (bs, r')"
  shows "list_all (good_batch B) bs \<and> good_pending B r'"
proof -
  let ?r = "enqueue m k r"
  have len: "length (pendingBatch ?r) \<le> max_count B" using assms(1) by (simp add: enqueue_def good_pending_def)
  have bytes: "batch_bytes (pendingBatch ?r) \<le> unat (PreferredMaxBytes B)" "unat (pendingBatchSizeBytes ?r) = batch_bytes (pendingBatch ?r)"
    using overflow_exact [OF assms(1-4)] assms(5) by (simp_all add: enqueue_def)
  have ks: "\<forall>k \<in> set (pendingCommitters ?r). \<not> Isolated k" using assms(1,6) by (auto simp: enqueue_def good_pending_def)
  show ?thesis
  proof (cases "of_nat (length (pendingBatch ?r)) \<ge> MaxMessageCount B")
    case True
    then have "bs = [fst (Cut ?r)]" "r' = snd (Cut ?r)" using assms(7) by (simp_all add: cut_if_def)
    moreover have "good_batch B (fst (Cut ?r))" using len bytes ks by (simp add: good_batch_def Cut_def) (simp add: enqueue_def)
    ultimately show ?thesis by (simp add: good_after_cut)
  next
    case False
    have "max_count B \<le> 2 ^ 32 - 1" using unsigned_less [of "MaxMessageCount B", where ?'a = nat] by (simp add: max_count_def)
    then have "unat (of_nat (length (pendingBatch ?r)) :: uint32) = length (pendingBatch ?r)"
      using len by (simp add: unat_of_nat take_bit_nat_eq_self)
    then have "length (pendingBatch ?r) < max_count B" using False by (simp add: word_le_nat_alt max_count_def)
    with False assms(7) bytes ks show ?thesis by (auto simp: cut_if_def good_pending_def)
  qed
qed

lemma Ordered_good:
  assumes "Ordered filters batchSize s m r = Ok (bs, ok, r')" and "batchSize s = B" and "good_pending B r"
    and "message_size m < 2 ^ 32" and "unat (PreferredMaxBytes B) < 2 ^ 31"
  shows "list_all (good_batch B) bs \<and> good_pending B r'"
proof (cases "RuleSet_Apply filters s m")
  case (Ok c)
  then obtain k where c: "RuleSet_Apply filters s m = Ok (Some k)" using assms(1) by (cases c) (auto simp: Ordered_def)
  show ?thesis
  proof (cases "Isolated k \<or> messageSizeBytes m > PreferredMaxBytes B")
    case True
    obtain b1 r1 where b1: "cut_if (length (pendingBatch r) > 0) r = (b1, r1)" by force
    have "bs = b1 @ [([m], [k])]" "r' = r1" using assms(1,2) c True b1 by (auto simp: Ordered_def)
    moreover have "list_all (good_batch B) b1 \<and> good_pending B r1"
      using b1 good_cut [OF assms(3)] assms(3) by (cases "pendingBatch r = []") (auto simp: cut_if_def)
    ultimately show ?thesis by (simp add: good_batch_def max_count_def)
  next
    case False
    let ?o = "pendingBatchSizeBytes r + messageSizeBytes m > PreferredMaxBytes B"
    obtain b1 r1 where 1: "cut_if ?o r = (b1, r1)" by force
    obtain b2 r2 where 2: "cut_if (of_nat (length (pendingBatch (enqueue m k r1))) \<ge> MaxMessageCount B) (enqueue m k r1) = (b2, r2)" by force
    have r: "bs = b1 @ b2" "r' = r2" using assms(1,2) c False 1 2 by (auto simp: Ordered_def Let_def)
    have "list_all (good_batch B) b1 \<and> good_pending B r1 \<and> \<not> pendingBatchSizeBytes r1 + messageSizeBytes m > PreferredMaxBytes B"
    proof (cases ?o)
      case True
      have "pendingBatchSizeBytes r = 0" if "pendingBatch r = []"
        using that assms(3) by (simp add: good_pending_def batch_bytes_def word_unat_eq_iff)
      then have "pendingBatch r \<noteq> []" using True False by auto
      with True 1 good_cut [OF assms(3)] False show ?thesis by (auto simp: cut_if_def Cut_def)
    qed (use 1 assms(3) in \<open>auto simp: cut_if_def\<close>)
    with enqueue_good [of B r1 m k, OF _ assms(4,5) _ _ _ 2] False r show ?thesis by simp
  qed
qed (use assms in \<open>auto simp: Ordered_def\<close>)

fun batch_sizes_of :: "('s \<Rightarrow> BatchSize) \<Rightarrow> 's cut_event list \<Rightarrow> BatchSize set" where
  "batch_sizes_of batchSize [] = {}"
| "batch_sizes_of batchSize (Message s m # evs) = insert (batchSize s) (batch_sizes_of batchSize evs)"
| "batch_sizes_of batchSize (Timeout # evs) = batch_sizes_of batchSize evs"

fun messages_of :: "'s cut_event list \<Rightarrow> Envelope list" where
  "messages_of [] = []"
| "messages_of (Message s m # evs) = m # messages_of evs"
| "messages_of (Timeout # evs) = messages_of evs"

lemma cutter_good:
  "cutter_run filters batchSize evs r = Ok (bs, r') \<Longrightarrow> batch_sizes_of batchSize evs \<subseteq> {B} \<Longrightarrow>
    list_all (\<lambda>m. message_size m < 2 ^ 32) (messages_of evs) \<Longrightarrow> good_pending B r \<Longrightarrow> unat (PreferredMaxBytes B) < 2 ^ 31 \<Longrightarrow>
    list_all (good_batch B) bs \<and> good_pending B r'"
proof (induction filters batchSize evs r arbitrary: bs r' rule: cutter_run.induct)
  case (2 filters batchSize s msg evs r)
  from 2(2) obtain b1 ok r1 b2 where 1: "Ordered filters batchSize s msg r = Ok (b1, ok, r1)"
    and 2: "cutter_run filters batchSize evs r1 = Ok (b2, r')" "bs = b1 @ b2" by (auto simp: go_res)
  have g: "list_all (good_batch B) b1 \<and> good_pending B r1"
    by (rule Ordered_good [OF 1]) (use "2.prems" in auto)
  from "2.IH" [OF 1 refl refl 2(1)] g "2.prems" 2(2) show ?case by simp
next
  case (3 filters batchSize evs r)
  obtain b r1 where c: "Cut r = (b, r1)" by (rule prod.exhaust)
  with 3(2) obtain b2 where 2: "cutter_run filters batchSize evs r1 = Ok (b2, r')" "bs = (if length (fst b) = 0 then b2 else b # b2)"
    by (auto simp: go_res)
  have g: "good_pending B r1" "fst b \<noteq> [] \<Longrightarrow> good_batch B b"
    using c good_cut [OF "3.prems"(4)] good_after_cut [of B r] by (auto simp: Cut_def)
  from "3.IH" [OF refl c [symmetric] 2(1)] g "3.prems" 2(2) show ?case by auto
qed auto

text \<open>The rules neither panic nor accept without a committer.\<close>

definition total_rules :: "('s, 'e) rule list \<Rightarrow> bool" where
  "total_rules filters \<longleftrightarrow> (\<forall>s m. RuleSet_Apply filters s m \<noteq> Panic \<and> RuleSet_Apply filters s m \<noteq> Ok None)"

lemma Ordered_total: "total_rules filters \<Longrightarrow> \<exists>bs ok r'. Ordered filters batchSize s m r = Ok (bs, ok, r')"
proof (cases "RuleSet_Apply filters s m")
  case (Ok c)
  assume "total_rules filters"
  with Ok obtain k where "RuleSet_Apply filters s m = Ok (Some k)" by (cases c) (auto simp: total_rules_def)
  then show ?thesis by (auto simp: Ordered_def Let_def split: prod.splits)
qed (auto simp: Ordered_def total_rules_def)

lemma cutter_total: "total_rules filters \<Longrightarrow> \<exists>bs r'. cutter_run filters batchSize evs r = Ok (bs, r')"
proof (induction filters batchSize evs r rule: cutter_run.induct)
  case (2 filters batchSize s msg evs r)
  from Ordered_total [OF 2(2)] obtain bs ok r1 where 1: "Ordered filters batchSize s msg r = Ok (bs, ok, r1)" by blast
  from 2(1) [OF 1 refl refl 2(2)] 1 show ?case by auto
next
  case (3 filters batchSize evs r)
  obtain b r1 where c: "Cut r = (b, r1)" by (rule prod.exhaust)
  from 3(1) [OF refl c [symmetric] 3(2)] c show ?case by auto
qed simp

lemma standard_filters_total:
  assumes "io_safe (co_identities co)" and "\<And>s e. co_Validate co s e \<noteq> Panic"
  shows "total_rules (createStandardFilters co pc s0)"
proof -
  have AsSignedData: "Envelope_AsSignedData pc (Some m) \<noteq> Panic" for m
    by (auto simp: Envelope_AsSignedData_def go_res split: option.splits elim!: unmarshal.elims)
  have "sigFilter co pc src s m \<noteq> Panic" for src s m
    using AsSignedData [of m] Evaluate_total(1) [OF assms(1)] by (auto simp: sigFilter_def split: res.splits prod.splits if_splits)
  moreover have "configFilter co pc s m \<noteq> Panic" for s m
    using assms(2) by (auto simp: configFilter_def split: option.splits sum.splits res.splits if_splits)
  ultimately have "RuleSet_Apply (createStandardFilters co pc s0) s m \<noteq> Panic" for s m
    by (auto simp: createStandardFilters_def go_res rule_simps split: Action.splits if_splits)
  then show ?thesis using standard_filters_committer by (fastforce simp: total_rules_def)
qed

section \<open>Properties\<close>

lemma new_receiver: "aligned NewReceiverImpl" "good_pending B NewReceiverImpl" "pending_messages NewReceiverImpl = []"
  by (simp_all add: NewReceiverImpl_def aligned_def good_pending_def batch_bytes_def pending_messages_def)

text \<open>C31: The receiver loses, doubles and reorders nothing. For every history of messages and timeouts it
  returns, and the messages of the batches it has cut, followed by the pending ones, are exactly the
  messages that the rules of the channel accepted, in order and each with its committer.
\<close>

theorem cutter_exact:
  assumes "io_safe (co_identities co)" and "\<And>s e. co_Validate co s e \<noteq> Panic"
  shows "\<exists>bs r. cutter_run (createStandardFilters co pc s0) (co_BatchSize co) evs NewReceiverImpl = Ok (bs, r) \<and>
    batch_contents bs @ pending_messages r = accepted (createStandardFilters co pc s0) evs"
proof -
  obtain bs r where r: "cutter_run (createStandardFilters co pc s0) (co_BatchSize co) evs NewReceiverImpl = Ok (bs, r)"
    using cutter_total [OF standard_filters_total, of co pc s0] assms by blast
  with cutter_keeps [OF r new_receiver(1)] show ?thesis by (auto simp: new_receiver(3))
qed

text \<open>C32: Batches are within the limits of the configuration. When the preferred size is below \<open>2 ^ 31\<close> and no
  message has \<open>2 ^ 32\<close> bytes, a batch has at least one message and at most \<open>MaxMessageCount\<close>, or one if that
  is zero; a batch of more than one message has at most \<open>PreferredMaxBytes\<close> bytes and no message that asked
  to be alone.
\<close>

theorem batch_bounds:
  assumes "cutter_run filters batchSize evs NewReceiverImpl = Ok (bs, r)" and "batch_sizes_of batchSize evs \<subseteq> {B}"
    and "list_all (\<lambda>m. message_size m < 2 ^ 32) (messages_of evs)" and "unat (PreferredMaxBytes B) < 2 ^ 31"
  shows "list_all (good_batch B) bs \<and> length (pendingBatch r) < max_count B \<and> batch_bytes (pendingBatch r) \<le> unat (PreferredMaxBytes B)"
  using cutter_good [OF assms(1-3) new_receiver(2) assms(4)] by (simp add: good_pending_def)

text \<open>Every message is accepted.\<close>

definition accept_all :: "(BatchSize, unit) rule list" where
  "accept_all = [acceptRule]"

definition msg_of :: "nat \<Rightarrow> Envelope" where
  "msg_of n = \<lparr>env_Payload = Some (replicate n CHR ''x''), env_Signature = []\<rparr>"

definition small_batches :: BatchSize where
  "small_batches = \<lparr>MaxMessageCount = 10, AbsoluteMaxBytes = 100, PreferredMaxBytes = 5\<rparr>"

theorem cutter_exact_witness:
  "\<forall>pc. \<exists>bs r. cutter_run (createStandardFilters open_ops pc small_batches) (co_BatchSize open_ops)
      [Message small_batches (msg_of 3), Timeout] NewReceiverImpl = Ok (bs, r) \<and>
    batch_contents bs @ pending_messages r = accepted (createStandardFilters open_ops pc small_batches) [Message small_batches (msg_of 3), Timeout]"
  using cutter_exact [of open_ops _ small_batches "[Message small_batches (msg_of 3), Timeout]"] name_ops_safe
  by (simp add: open_ops_def)

theorem batch_bounds_witness:
  "\<exists>r. cutter_run accept_all id [Message small_batches (msg_of 3), Message small_batches (msg_of 2), Message small_batches (msg_of 1)]
      NewReceiverImpl = Ok ([([msg_of 3, msg_of 2], [NoopCommitter, NoopCommitter])], r) \<and>
    length (pendingBatch r) < max_count small_batches"
proof -
  let ?evs = "[Message small_batches (msg_of 3), Message small_batches (msg_of 2), Message small_batches (msg_of 1)]"
  define r :: "unit receiver" where "r = \<lparr>pendingBatch = [msg_of 1], pendingBatchSizeBytes = 1, pendingCommitters = [NoopCommitter]\<rparr>"
  have r: "cutter_run accept_all id ?evs NewReceiverImpl = Ok ([([msg_of 3, msg_of 2], [NoopCommitter, NoopCommitter])], r)"
    unfolding r_def by code_simp
  have "list_all (\<lambda>m. message_size m < 2 ^ 32) (messages_of ?evs)" by (simp add: message_size_def msg_of_def slice_def)
  with batch_bounds [OF r, of small_batches] r show ?thesis by (simp add: small_batches_def)
qed

text \<open>The bound on bytes fails for larger preferred sizes, because the sum of the sizes wraps. With the
  preferred size at \<open>2 ^ 31\<close>, two messages of that size each are put into one batch.
\<close>

theorem batch_size_wraps:
  assumes "message_size a = 2 ^ 31" and "message_size b = 2 ^ 31"
    and "PreferredMaxBytes B = 0x80000000" and "MaxMessageCount B = 2"
  shows "\<exists>r ks. cutter_run accept_all id [Message B a, Message B b] NewReceiverImpl = Ok ([([a, b], ks)], r) \<and>
    batch_bytes [a, b] = 2 * unat (PreferredMaxBytes B)"
proof -
  have sz: "messageSizeBytes a = 0x80000000" "messageSizeBytes b = 0x80000000"
    using assms(1,2) by (simp_all add: messageSizeBytes_def message_size_def flip: of_nat_add)
  let ?r = "\<lparr>pendingBatch = [a], pendingBatchSizeBytes = 0x80000000, pendingCommitters = [NoopCommitter]\<rparr>"
  have "Ordered accept_all id B a NewReceiverImpl = Ok ([], True, ?r)"
    using assms(3,4) sz by (simp add: accept_all_def acceptRule_def Ordered_def cut_if_def enqueue_def NewReceiverImpl_def Let_def, simp add: word_le_nat_alt)
  moreover have "Ordered accept_all id B b ?r = Ok ([([a, b], [NoopCommitter, NoopCommitter])], True, NewReceiverImpl)"
    using assms(3,4) sz by (simp add: accept_all_def acceptRule_def Ordered_def cut_if_def Cut_def enqueue_def NewReceiverImpl_def Let_def)
  ultimately show ?thesis using assms(1-3) by (simp add: batch_bytes_def)
qed

text \<open>The messages exist.\<close>

theorem batch_size_wraps_witness:
  "\<exists>a B r ks. cutter_run accept_all id [Message B a, Message B a] NewReceiverImpl = Ok ([([a, a], ks)], r) \<and>
    batch_bytes [a, a] = 2 * unat (PreferredMaxBytes B)"
proof -
  define B where "B = \<lparr>MaxMessageCount = 2, AbsoluteMaxBytes = 0, PreferredMaxBytes = 0x80000000\<rparr>"
  have B: "PreferredMaxBytes B = 0x80000000" "MaxMessageCount B = 2" by (simp_all add: B_def)
  have "message_size (msg_of (2 ^ 31)) = 2 ^ 31" by (simp add: message_size_def msg_of_def slice_def)
  from batch_size_wraps [OF this this B] show ?thesis by blast
qed

end
