(* ===== verification/Block_Hash.thy ===== *)
theory Block_Hash
  imports Protos Version
begin

text \<open>
  The hashes of a block: \<open>protos/common/block.go\<close>.

  The bytes of a header are its ASN.1 encoding, as \<open>encoding/asn1\<close> writes a structure of an \<open>int64\<close>
  and two byte slices. SHA-256 is a parameter. The lemmas show that the bytes of a header determine
  the header and that the bytes of the data of a block do not determine the transactions.
\<close>

section \<open>The encoding of headers\<close>

text \<open>The number of bytes of a length, and of a non-negative integer in two's complement.\<close>

fun lengthLength :: "nat \<Rightarrow> nat" where
  "lengthLength i = (if i > 255 then Suc (lengthLength (i div 256)) else 1)"

fun int64Length :: "nat \<Rightarrow> nat" where
  "int64Length i = (if i > 127 then Suc (int64Length (i div 256)) else 1)"

declare lengthLength.simps [simp del] int64Length.simps [simp del]

definition asn1_element :: "nat \<Rightarrow> bytes \<Rightarrow> bytes" where
  "asn1_element tag content =
     (let n = length content
      in char_of tag #
         (if n \<ge> 128 then char_of (128 + lengthLength n) # be_bytes (lengthLength n) n else [char_of n]) @ content)"

definition asn1_Marshal :: "nat \<Rightarrow> bytes \<Rightarrow> bytes \<Rightarrow> bytes" where
  "asn1_Marshal Number PreviousHash DataHash =
     asn1_element 0x30
       (asn1_element 2 (be_bytes (int64Length Number) Number) @ asn1_element 4 PreviousHash @ asn1_element 4 DataHash)"

definition header_Bytes :: "BlockHeader \<Rightarrow> (string, bytes) res" where
  "header_Bytes b =
     (if unat (bh_Number b) > 2 ^ 63 - 1 then Panic
      else Ok (asn1_Marshal (unat (bh_Number b)) (bh_PreviousHash b) (bh_DataHash b)))"

definition header_Hash :: "(bytes \<Rightarrow> bytes) \<Rightarrow> BlockHeader \<Rightarrow> (string, bytes) res" where
  "header_Hash sha b = rbind (header_Bytes b) (\<lambda>bs. Ok (sha bs))"

definition data_Bytes :: "bytes list \<Rightarrow> bytes" where
  "data_Bytes d = concat d"

definition data_Hash :: "(bytes \<Rightarrow> bytes) \<Rightarrow> bytes list \<Rightarrow> bytes" where
  "data_Hash sha d = sha (data_Bytes d)"

section \<open>The bytes of a header determine it\<close>

lemma lengthLength_fits: "n < 256 ^ lengthLength n"
proof (induction n rule: lengthLength.induct)
  case (1 i)
  show ?case
  proof (cases "i > 255")
    case True
    have "i < 256 * (i div 256 + 1)" by simp
    also have "\<dots> \<le> 256 * 256 ^ lengthLength (i div 256)" using 1 [OF True] by (intro mult_left_mono) auto
    finally show ?thesis using True by (simp add: lengthLength.simps [of i])
  qed (simp add: lengthLength.simps [of i])
qed

lemma int64Length_fits: "n < 256 ^ int64Length n"
proof (induction n rule: int64Length.induct)
  case (1 i)
  show ?case
  proof (cases "i > 127")
    case True
    have "i < 256 * (i div 256 + 1)" by simp
    also have "\<dots> \<le> 256 * 256 ^ int64Length (i div 256)" using 1 [OF True] by (intro mult_left_mono) auto
    finally show ?thesis using True by (simp add: int64Length.simps [of i])
  qed (simp add: int64Length.simps [of i])
qed

lemma lengthLength_small: "n < 256 ^ k \<Longrightarrow> 0 < k \<Longrightarrow> lengthLength n \<le> k"
proof (induction k arbitrary: n)
  case (Suc k)
  show ?case
  proof (cases "n > 255")
    case True
    then have "k \<noteq> 0" using Suc.prems by (cases k) auto
    moreover have "n div 256 < 256 ^ k" using Suc.prems by (simp add: less_mult_imp_div_less mult.commute)
    ultimately show ?thesis using Suc.IH True by (simp add: lengthLength.simps [of n])
  qed (use Suc.prems in \<open>simp add: lengthLength.simps [of n]\<close>)
qed simp

lemma be_bytes_inject: "be_bytes (f n) n = be_bytes (f m) m \<Longrightarrow> n < 256 ^ f n \<Longrightarrow> m < 256 ^ f m \<Longrightarrow> n = m"
  by (metis be_val_be_bytes)

text \<open>An element can be read off the front of any text; contents are shorter than \<open>256 ^ 127\<close> bytes.\<close>

lemma asn1_element_inject:
  assumes "asn1_element t a @ x = asn1_element t b @ y" and "length a < 256 ^ 127" and "length b < 256 ^ 127"
  shows "a = b \<and> x = y"
proof -
  let ?h = "\<lambda>n. if n \<ge> 128 then char_of (128 + lengthLength n) # be_bytes (lengthLength n) n else [char_of n :: char]"
  have eq: "?h (length a) @ a @ x = ?h (length b) @ b @ y" using assms(1) by (simp add: asn1_element_def Let_def)
  have "length a = length b"
  proof -
    have small: "lengthLength n \<le> 127" if "n < 256 ^ 127" for n using lengthLength_small [OF that] by simp
    have first: "of_char (hd (?h n)) = (if n \<ge> 128 then 128 + lengthLength n else n)" if "n < 256 ^ 127" for n
      using small [OF that] by auto
    have hd: "hd (?h (length a)) = hd (?h (length b))" using arg_cong [OF eq, of hd] by (simp split: if_splits)
    have h: "(if length a \<ge> 128 then 128 + lengthLength (length a) else length a) =
        (if length b \<ge> 128 then 128 + lengthLength (length b) else length b)"
      using arg_cong [OF hd, of of_char] first [OF assms(2)] first [OF assms(3)] by metis
    show ?thesis
    proof (cases "length a \<ge> 128")
      case True
      then have b: "length b \<ge> 128" "lengthLength (length a) = lengthLength (length b)" using h by (auto split: if_splits)
      then have "be_bytes (lengthLength (length a)) (length a) = be_bytes (lengthLength (length b)) (length b)"
        using eq True by (simp add: append_eq_append_conv)
      then show ?thesis by (rule be_bytes_inject) (rule lengthLength_fits)+
    qed (use h in \<open>auto split: if_splits\<close>)
  qed
  with eq show ?thesis by (simp add: append_eq_append_conv split: if_splits)
qed

lemma asn1_element_length: "length c < 256 ^ 127 \<Longrightarrow> length (asn1_element t c) \<le> length c + 129"
  using lengthLength_small [of "length c" 127] by (simp add: asn1_element_def Let_def)

text \<open>No slice of a program is longer than this.\<close>

definition short :: "bytes \<Rightarrow> bool" where
  "short x \<longleftrightarrow> length x < 2 ^ 62"

lemma short_length: "short x \<Longrightarrow> length x < 256 ^ 127 - 1000"
  by (simp add: short_def)

lemma asn1_Marshal_inject:
  assumes "asn1_Marshal n p d = asn1_Marshal n' p' d'" and "n < 2 ^ 63" and "n' < 2 ^ 63"
    and "short p" and "short p'" and "short d" and "short d'"
  shows "n = n' \<and> p = p' \<and> d = d'"
proof -
  have i: "length (be_bytes (int64Length m) m) \<le> 100" if "m < 2 ^ 63" for m :: nat
  proof -
    have "lengthLength m \<le> 8" using that by (intro lengthLength_small) auto
    moreover have "int64Length m \<le> Suc (lengthLength m)" for m
      by (induction m rule: lengthLength.induct) (auto simp: lengthLength.simps int64Length.simps)
    ultimately show ?thesis by (smt (verit) le_trans length_be_bytes not_less_eq_eq numeral_le_iff semiring_norm)
  qed
  define content where "content n p d = asn1_element 2 (be_bytes (int64Length n) n) @ asn1_element 4 p @ asn1_element 4 d" for n p d
  have len: "length (content n p d) < 256 ^ 127" if "n < 2 ^ 63" "short p" "short d" for n p d
    using asn1_element_length [of "be_bytes (int64Length n) n" 2] asn1_element_length [of p 4] asn1_element_length [of d 4]
      i [OF that(1)] that(2,3) by (simp add: content_def short_def)
  have "content n p d = content n' p' d'"
    using asn1_element_inject [of 48 "content n p d" "[]" "content n' p' d'" "[]"] assms len
    by (simp add: asn1_Marshal_def content_def)
  then have 1: "be_bytes (int64Length n) n = be_bytes (int64Length n') n' \<and> asn1_element 4 p @ asn1_element 4 d = asn1_element 4 p' @ asn1_element 4 d'"
    using i [OF assms(2)] i [OF assms(3)] by (intro asn1_element_inject) (auto simp: content_def)
  then have 2: "p = p' \<and> asn1_element 4 d = asn1_element 4 d'"
    using assms(4,5) by (intro asn1_element_inject) (auto simp: short_def)
  then have "d = d'" using asn1_element_inject [of 4 d "[]" d' "[]"] assms(6,7) by (simp add: short_def)
  with 1 2 be_bytes_inject [of int64Length n n'] int64Length_fits show ?thesis by blast
qed

lemma header_Bytes_inject:
  assumes "header_Bytes h = Ok x" and "header_Bytes h' = Ok x"
    and "short (bh_PreviousHash h)" and "short (bh_PreviousHash h')" and "short (bh_DataHash h)" and "short (bh_DataHash h')"
  shows "h = h'"
proof -
  have n: "unat (bh_Number h) < 2 ^ 63" "unat (bh_Number h') < 2 ^ 63"
    and "asn1_Marshal (unat (bh_Number h)) (bh_PreviousHash h) (bh_DataHash h) =
      asn1_Marshal (unat (bh_Number h')) (bh_PreviousHash h') (bh_DataHash h')"
    using assms(1,2) by (auto simp: header_Bytes_def split: if_splits)
  from asn1_Marshal_inject [OF this(3) n assms(3-6)] show ?thesis by (intro BlockHeader.equality) (simp_all add: word_unat_eq_iff)
qed

section \<open>Chains of blocks\<close>

definition tip_hash :: "(bytes \<Rightarrow> bytes) \<Rightarrow> Block list \<Rightarrow> (string, bytes) res" where
  "tip_hash sha bs = (if bs = [] then Ok [] else header_Hash sha (blk_Header (last bs)))"

text \<open>The block that follows a chain: numbered, linked to the tip, and with the hash of its data.\<close>

definition follows :: "(bytes \<Rightarrow> bytes) \<Rightarrow> Block list \<Rightarrow> Block \<Rightarrow> bool" where
  "follows sha bs b \<longleftrightarrow> bh_Number (blk_Header b) = of_nat (length bs) \<and>
     tip_hash sha bs = Ok (bh_PreviousHash (blk_Header b)) \<and> bh_DataHash (blk_Header b) = data_Hash sha (blk_Data b)"

inductive chained :: "(bytes \<Rightarrow> bytes) \<Rightarrow> Block list \<Rightarrow> bool" for sha where
  empty: "chained sha []"
| further: "chained sha bs \<Longrightarrow> follows sha bs b \<Longrightarrow> chained sha (bs @ [b])"

inductive_simps chained_snoc: "chained sha (bs @ [b])"

definition hashed :: "Block list \<Rightarrow> bytes set" where
  "hashed bs = {x. \<exists>b \<in> set bs. header_Bytes (blk_Header b) = Ok x} \<union> (\<lambda>b. data_Bytes (blk_Data b)) ` set bs"

definition short_hashes :: "Block list \<Rightarrow> bool" where
  "short_hashes bs \<longleftrightarrow> (\<forall>b \<in> set bs. short (bh_PreviousHash (blk_Header b)) \<and> short (bh_DataHash (blk_Header b)))"

lemma header_Hash_inject:
  assumes "header_Hash sha (blk_Header b) = Ok h" and "header_Hash sha (blk_Header b') = Ok h"
    and "inj_on sha (hashed (bs @ [b]) \<union> hashed (bs' @ [b']))" and "short_hashes (bs @ [b])" and "short_hashes (bs' @ [b'])"
  shows "blk_Header b = blk_Header b'"
proof -
  from assms(1,2) obtain x x' where x: "header_Bytes (blk_Header b) = Ok x" "header_Bytes (blk_Header b') = Ok x'" "sha x = sha x'"
    by (auto simp: header_Hash_def go_res)
  have "x \<in> hashed (bs @ [b])" "x' \<in> hashed (bs' @ [b'])" using x by (auto simp: hashed_def)
  with assms(3) x(3) have "x = x'" by (auto dest: inj_onD)
  then have m: "header_Bytes (blk_Header b) = Ok x" "header_Bytes (blk_Header b') = Ok x" using x(1,2) by simp_all
  have "blk_Header b = blk_Header b'" if "short (bh_PreviousHash (blk_Header b))" "short (bh_PreviousHash (blk_Header b'))"
      "short (bh_DataHash (blk_Header b))" "short (bh_DataHash (blk_Header b'))"
    using m that by (rule header_Bytes_inject)
  with assms(4,5) show ?thesis by (simp add: short_hashes_def)
qed

text \<open>C26: The hash of the tip binds a chain. Two chains of linked blocks whose tips have the same hash have
  the same headers, and their blocks have the same data bytes, unless SHA-256 maps two of the texts that
  were hashed to the same value.
\<close>

theorem tip_hash_binds_chain:
  assumes "chained sha bs" and "chained sha bs'" and "tip_hash sha bs = Ok h" and "tip_hash sha bs' = Ok h"
    and "bs \<noteq> []" and "bs' \<noteq> []" and "length bs < 2 ^ 64" and "length bs' < 2 ^ 64"
    and "inj_on sha (hashed bs \<union> hashed bs')" and "short_hashes bs" and "short_hashes bs'"
  shows "map blk_Header bs = map blk_Header bs' \<and> map (\<lambda>b. data_Bytes (blk_Data b)) bs = map (\<lambda>b. data_Bytes (blk_Data b)) bs'"
  using assms
proof (induction bs arbitrary: bs' h rule: rev_induct)
  case (snoc b bs)
  obtain bs1 b1 where bs': "bs' = bs1 @ [b1]" using snoc.prems(6) by (metis rev_exhaust)
  note f = snoc.prems(1,2) [unfolded bs' chained_snoc]
  have hd: "blk_Header b = blk_Header b1"
    using header_Hash_inject [of sha b h b1 bs bs1] snoc.prems(3,4,9-11) by (simp add: bs' tip_hash_def)
  have "sha (data_Bytes (blk_Data b)) = sha (data_Bytes (blk_Data b1))"
    using f hd by (auto simp: follows_def data_Hash_def)
  moreover have "data_Bytes (blk_Data b) \<in> hashed (bs @ [b])" "data_Bytes (blk_Data b1) \<in> hashed (bs1 @ [b1])"
    by (auto simp: hashed_def)
  ultimately have d: "data_Bytes (blk_Data b) = data_Bytes (blk_Data b1)" using snoc.prems(9) by (auto simp: bs' dest: inj_onD)
  have "(of_nat (length bs) :: uint64) = of_nat (length bs1)" using f hd by (auto simp: follows_def)
  then have "length bs = length bs1" using snoc.prems(7,8) by (simp add: bs' word_of_nat_eq_iff take_bit_nat_eq_self)
  moreover have "map blk_Header bs = map blk_Header bs1 \<and> map (\<lambda>b. data_Bytes (blk_Data b)) bs = map (\<lambda>b. data_Bytes (blk_Data b)) bs1"
    if "bs \<noteq> []" "bs1 \<noteq> []"
  proof (rule snoc.IH)
    show "tip_hash sha bs = Ok (bh_PreviousHash (blk_Header b))" "tip_hash sha bs1 = Ok (bh_PreviousHash (blk_Header b))"
      using f hd by (auto simp: follows_def)
    show "inj_on sha (hashed bs \<union> hashed bs1)" using snoc.prems(9) by (rule inj_on_subset) (auto simp: hashed_def bs')
  qed (use that f snoc.prems in \<open>auto simp: bs' short_hashes_def\<close>)
  moreover have "bs = [] \<longleftrightarrow> bs1 = []" using \<open>length bs = length bs1\<close> by (metis length_0_conv)
  ultimately show ?case using hd d by (cases "bs = []") (simp_all add: bs')
qed simp

text \<open>The headers do not bind the transactions. For every hash function there are chains that agree in
  every header and differ in the number of transactions of a block, since the data of a block is hashed
  without the boundaries of the transactions.
\<close>

theorem data_hash_ignores_boundaries:
  "\<exists>b b'. chained sha [b] \<and> chained sha [b'] \<and> blk_Header b = blk_Header b' \<and> tip_hash sha [b] = tip_hash sha [b'] \<and>
    length (blk_Data b) \<noteq> length (blk_Data b')"
proof -
  define b where "b d = \<lparr>blk_Header = \<lparr>bh_Number = 0, bh_PreviousHash = [], bh_DataHash = data_Hash sha d\<rparr>, blk_Data = d,
    blk_Metadata = None\<rparr>" for d
  have "chained sha ([] @ [b d])" for d by (intro chained.intros) (simp add: follows_def tip_hash_def b_def)
  moreover have "data_Hash sha [''t1'', ''t2''] = data_Hash sha [''t1t2'']" by (simp add: data_Hash_def data_Bytes_def)
  then have "blk_Header (b [''t1'', ''t2'']) = blk_Header (b [''t1t2''])" by (simp add: b_def)
  ultimately show ?thesis
    by (intro exI [of _ "b [''t1'', ''t2'']"] exI [of _ "b [''t1t2'']"]) (simp add: tip_hash_def, simp add: b_def)
qed

definition genesis_of :: "bytes list \<Rightarrow> Block" where
  "genesis_of d = \<lparr>blk_Header = \<lparr>bh_Number = 0, bh_PreviousHash = [], bh_DataHash = concat d\<rparr>, blk_Data = d, blk_Metadata = None\<rparr>"

theorem tip_hash_binds_chain_witness:
  "tip_hash (\<lambda>x. x) [genesis_of [''ab'']] = tip_hash (\<lambda>x. x) [genesis_of [''a'', ''b'']] \<and>
    map (\<lambda>b. data_Bytes (blk_Data b)) [genesis_of [''ab'']] = map (\<lambda>b. data_Bytes (blk_Data b)) [genesis_of [''a'', ''b'']]"
proof -
  have c: "chained (\<lambda>x. x) ([] @ [genesis_of d])" for d
    by (intro chained.intros) (simp add: follows_def tip_hash_def genesis_of_def data_Hash_def data_Bytes_def)
  obtain h where h: "tip_hash (\<lambda>x. x) [genesis_of [''ab'']] = Ok h" "tip_hash (\<lambda>x. x) [genesis_of [''a'', ''b'']] = Ok h"
    by (simp add: tip_hash_def genesis_of_def header_Hash_def header_Bytes_def)
  have s: "short_hashes [genesis_of [''ab'']]" "short_hashes [genesis_of [''a'', ''b'']]" by (simp_all add: short_hashes_def genesis_of_def short_def)
  show ?thesis using tip_hash_binds_chain [OF c [of "[''ab'']", simplified] c [of "[''a'', ''b'']", simplified] h _ _ _ _ _ s] h by simp
qed

end
