(* ===== verification/Order_Ledger.thy ===== *)
theory Order_Ledger
  imports Block_Hash
begin

text \<open>
  The ledgers of the ordering service: the interface of \<open>orderer/ledger/ledger.go\<close> with the helpers of
  \<open>orderer/ledger/util.go\<close>, and its implementations in memory (\<open>orderer/ledger/ram\<close>) and as one JSON
  file per block (\<open>orderer/ledger/json\<close>).

  A reader waits for blocks that are not there yet: \<open>Waits\<close> is a call that does not return while the
  ledger stays as it is. The locale \<open>order_ledger\<close> is the contract of a ledger: it holds a list of blocks,
  iterators hand them out in order, and a block that follows the last one can be appended. Its clients
  are proved against the contract, and both implementations are interpretations of it.
\<close>

section \<open>The interface\<close>

datatype Status =
    Status_UNKNOWN | Status_SUCCESS | Status_BAD_REQUEST | Status_FORBIDDEN | Status_NOT_FOUND
  | Status_REQUEST_ENTITY_TOO_LARGE | Status_INTERNAL_SERVER_ERROR | Status_SERVICE_UNAVAILABLE

datatype SeekPosition = SeekPosition_Newest | SeekPosition_Oldest | SeekPosition_Specified uint64 | SeekPosition_unset

datatype 'c Iterator = NotFoundErrorIterator | Cursor 'c

datatype 'c next_result = Waits | Next_block Block 'c | Next_status Status

record ('l, 'c) ledger_ops =
  lo_Iterator :: "'l \<Rightarrow> SeekPosition \<Rightarrow> (string, 'c Iterator \<times> uint64) res"
  lo_Height :: "'l \<Rightarrow> (string, uint64) res"
  lo_Append :: "'l \<Rightarrow> Block \<Rightarrow> (string, 'l) res"
  lo_Next :: "'l \<Rightarrow> 'c \<Rightarrow> (string, 'c next_result) res"
  lo_Ready :: "'l \<Rightarrow> 'c \<Rightarrow> (string, bool) res"

fun iterator_Next :: "('l, 'c) ledger_ops \<Rightarrow> 'l \<Rightarrow> 'c Iterator \<Rightarrow> (string, 'c next_result) res" where
  "iterator_Next lo l NotFoundErrorIterator = Ok (Next_status Status_NOT_FOUND)"
| "iterator_Next lo l (Cursor c) = lo_Next lo l c"

fun iterator_Ready :: "('l, 'c) ledger_ops \<Rightarrow> 'l \<Rightarrow> 'c Iterator \<Rightarrow> (string, bool) res" where
  "iterator_Ready lo l NotFoundErrorIterator = Ok True"
| "iterator_Ready lo l (Cursor c) = lo_Ready lo l c"

text \<open>An error of \<open>CreateNextBlock\<close> stands for a call that waits for ever.\<close>

definition CreateNextBlock ::
    "('l, 'c) ledger_ops \<Rightarrow> (bytes \<Rightarrow> bytes) \<Rightarrow> codec \<Rightarrow> 'l \<Rightarrow> Envelope list \<Rightarrow> (string, Block) res" where
  "CreateNextBlock lo sha pc rl messages =
     rbind (lo_Height lo rl) (\<lambda>height.
     rbind (if height > 0
            then rbind (lo_Iterator lo rl SeekPosition_Newest) (\<lambda>(it, _).
                 rbind (iterator_Next lo rl it) (\<lambda>r.
                 case r of
                   Next_block block _ \<Rightarrow>
                     rbind (header_Hash sha (blk_Header block)) (\<lambda>previousBlockHash.
                     Ok (bh_Number (blk_Header block) + 1, previousBlockHash))
                 | Next_status _ \<Rightarrow> Panic
                 | Waits \<Rightarrow> Err ''waits''))
            else Ok (0, [])) (\<lambda>(nextBlockNumber, previousBlockHash).
     let data = map (en_Envelope pc) messages;
         block = NewBlock nextBlockNumber previousBlockHash
     in Ok (block\<lparr>blk_Header := (blk_Header block)\<lparr>bh_DataHash := data_Hash sha data\<rparr>, blk_Data := data\<rparr>)))"

definition GetBlock :: "('l, 'c) ledger_ops \<Rightarrow> 'l \<Rightarrow> uint64 \<Rightarrow> (string, Block option) res" where
  "GetBlock lo rl idx =
     rbind (lo_Iterator lo rl (SeekPosition_Specified idx)) (\<lambda>(i, _).
     rbind (iterator_Ready lo rl i) (\<lambda>ready.
     if ready
     then rbind (iterator_Next lo rl i) (\<lambda>r.
          case r of Next_block block _ \<Rightarrow> Ok (Some block) | Next_status _ \<Rightarrow> Ok None | Waits \<Rightarrow> Err ''waits'')
     else Ok None))"

section \<open>The ledger in memory\<close>

text \<open>
  The linked list of blocks, with the pre-genesis block in front. Nodes that drop out of the ledger stay
  linked, so an iterator is the number of the node that it hands out next.
\<close>

record ramLedger =
  rl_maxSize :: int
  rl_size :: int
  rl_nodes :: "Block list"
  rl_oldest :: nat

definition preGenesis :: Block where
  "preGenesis = \<lparr>blk_Header = \<lparr>bh_Number = - 1, bh_PreviousHash = [], bh_DataHash = []\<rparr>, blk_Data = [], blk_Metadata = None\<rparr>"

definition ram_newChain :: "int \<Rightarrow> ramLedger" where
  "ram_newChain maxSize = \<lparr>rl_maxSize = maxSize, rl_size = 1, rl_nodes = [preGenesis], rl_oldest = 0\<rparr>"

abbreviation block_number :: "Block \<Rightarrow> uint64" where
  "block_number b \<equiv> bh_Number (blk_Header b)"

definition ram_Next :: "ramLedger \<Rightarrow> nat \<Rightarrow> (string, nat next_result) res" where
  "ram_Next rl cu = Ok (if cu < length (rl_nodes rl) then Next_block (rl_nodes rl ! cu) (Suc cu) else Waits)"

definition ram_Ready :: "ramLedger \<Rightarrow> nat \<Rightarrow> (string, bool) res" where
  "ram_Ready rl cu = Ok (cu < length (rl_nodes rl))"

text \<open>The walk from a node to the one before the wanted block; it panics at the end of the list.\<close>

fun ram_seek :: "Block list \<Rightarrow> uint64 \<Rightarrow> nat \<Rightarrow> (string, nat) res" where
  "ram_seek [] n i = Panic"
| "ram_seek (b # bs) n i = (if block_number b = n then Ok i else ram_seek bs n (Suc i))"

text \<open>
  \<open>Ok (i, n)\<close> is a list whose next node is \<open>i\<close> and whose own number is \<open>n\<close>, and no result is the iterator
  for blocks that are not found.
\<close>

definition ram_start :: "ramLedger \<Rightarrow> SeekPosition \<Rightarrow> (string, (nat \<times> uint64) option) res" where
  "ram_start rl startPosition =
     (let oldest = rl_oldest rl; newest = length (rl_nodes rl) - 1;
          oldestNumber = block_number (rl_nodes rl ! oldest); newestNumber = block_number (rl_nodes rl ! newest)
      in case startPosition of
           SeekPosition_Oldest \<Rightarrow> Ok (Some (oldest, oldestNumber - 1))
         | SeekPosition_Newest \<Rightarrow> Ok (Some (newest, newestNumber - 1))
         | SeekPosition_Specified specified \<Rightarrow>
             if specified + 1 < oldestNumber + 1 \<or> specified > newestNumber + 1 then Ok None
             else if specified = oldestNumber then Ok (Some (oldest, oldestNumber - 1))
             else rbind (ram_seek (drop oldest (rl_nodes rl)) (specified - 1) oldest) (\<lambda>i. Ok (Some (Suc i, specified - 1)))
         | SeekPosition_unset \<Rightarrow> Panic)"

text \<open>The pre-genesis block is skipped.\<close>

definition ram_Iterator :: "ramLedger \<Rightarrow> SeekPosition \<Rightarrow> (string, nat Iterator \<times> uint64) res" where
  "ram_Iterator rl startPosition =
     rbind (ram_start rl startPosition) (\<lambda>r.
     case r of
       None \<Rightarrow> Ok (NotFoundErrorIterator, 0)
     | Some (i, number) \<Rightarrow>
         let blockNum = number + 1
         in if blockNum = - 1 then Ok (Cursor (Suc i), blockNum + 1) else Ok (Cursor i, blockNum))"

definition ram_Height :: "ramLedger \<Rightarrow> (string, uint64) res" where
  "ram_Height rl = Ok (block_number (last (rl_nodes rl)) + 1)"

definition ram_appendBlock :: "ramLedger \<Rightarrow> Block \<Rightarrow> ramLedger" where
  "ram_appendBlock rl block =
     (let rl1 = rl\<lparr>rl_nodes := rl_nodes rl @ [block], rl_size := rl_size rl + 1\<rparr>
      in if rl_size rl1 > rl_maxSize rl1 then rl1\<lparr>rl_oldest := Suc (rl_oldest rl1), rl_size := rl_size rl1 - 1\<rparr> else rl1)"

definition ram_Append :: "(bytes \<Rightarrow> bytes) \<Rightarrow> ramLedger \<Rightarrow> Block \<Rightarrow> (string, ramLedger) res" where
  "ram_Append sha rl block =
     (let newest = last (rl_nodes rl)
      in if block_number block \<noteq> block_number newest + 1 then Err ''Block number should have been the next one''
         else if block_number newest + 1 \<noteq> 0
         then rbind (header_Hash sha (blk_Header newest)) (\<lambda>h.
              if bh_PreviousHash (blk_Header block) \<noteq> h then Err ''Block should have had another previous hash''
              else Ok (ram_appendBlock rl block))
         else Ok (ram_appendBlock rl block))"

definition ram_ops :: "(bytes \<Rightarrow> bytes) \<Rightarrow> (ramLedger, nat) ledger_ops" where
  "ram_ops sha = \<lparr>lo_Iterator = ram_Iterator, lo_Height = ram_Height, lo_Append = ram_Append sha, lo_Next = ram_Next, lo_Ready = ram_Ready\<rparr>"

section \<open>The ledger of JSON files\<close>

text \<open>
  The block files of the directory by the numbers in their names; other files are skipped. The JSON form
  of a block comes from the library \<open>jsonpb\<close>.
\<close>

record jsonpb =
  jp_Marshal :: "Block \<Rightarrow> bytes"
  jp_Unmarshal :: "bytes \<Rightarrow> string + Block"

record jsonLedger =
  jl_directory :: "(uint64, bytes) gomap"
  jl_height :: uint64
  jl_lastHash :: bytes

text \<open>\<open>None\<close> is a block that is not found, and \<open>Some None\<close> one that cannot be read.\<close>

definition readBlock :: "jsonpb \<Rightarrow> (uint64, bytes) gomap \<Rightarrow> uint64 \<Rightarrow> Block option option" where
  "readBlock jp dir number =
     (case map_of dir number of
        None \<Rightarrow> None
      | Some data \<Rightarrow> (case jp_Unmarshal jp data of Inl _ \<Rightarrow> Some None | Inr block \<Rightarrow> Some (Some block)))"

definition json_Next :: "jsonpb \<Rightarrow> jsonLedger \<Rightarrow> uint64 \<Rightarrow> (string, uint64 next_result) res" where
  "json_Next jp jl blockNumber =
     (case readBlock jp (jl_directory jl) blockNumber of
        None \<Rightarrow> Ok Waits
      | Some None \<Rightarrow> Ok (Next_status Status_SERVICE_UNAVAILABLE)
      | Some (Some block) \<Rightarrow> Ok (Next_block block (blockNumber + 1)))"

definition json_Ready :: "jsonLedger \<Rightarrow> uint64 \<Rightarrow> (string, bool) res" where
  "json_Ready jl blockNumber = Ok (map_of (jl_directory jl) blockNumber \<noteq> None)"

definition json_Iterator :: "jsonLedger \<Rightarrow> SeekPosition \<Rightarrow> (string, uint64 Iterator \<times> uint64) res" where
  "json_Iterator jl startPosition =
     (case startPosition of
        SeekPosition_Oldest \<Rightarrow> Ok (Cursor 0, 0)
      | SeekPosition_Newest \<Rightarrow> (let high = jl_height jl - 1 in Ok (Cursor high, high))
      | SeekPosition_Specified number \<Rightarrow>
          if number > jl_height jl then Ok (NotFoundErrorIterator, 0) else Ok (Cursor number, number)
      | SeekPosition_unset \<Rightarrow> Ok (NotFoundErrorIterator, 0))"

definition json_Height :: "jsonLedger \<Rightarrow> (string, uint64) res" where
  "json_Height jl = Ok (jl_height jl)"

definition writeBlock :: "jsonpb \<Rightarrow> (uint64, bytes) gomap \<Rightarrow> Block \<Rightarrow> (uint64, bytes) gomap" where
  "writeBlock jp dir block = AList.update (block_number block) (jp_Marshal jp block) dir"

definition json_Append :: "jsonpb \<Rightarrow> (bytes \<Rightarrow> bytes) \<Rightarrow> jsonLedger \<Rightarrow> Block \<Rightarrow> (string, jsonLedger) res" where
  "json_Append jp sha jl block =
     (if block_number block \<noteq> jl_height jl then Err ''Block number should have been the height''
      else if bh_PreviousHash (blk_Header block) \<noteq> jl_lastHash jl then Err ''Block should have had another previous hash''
      else let dir = writeBlock jp (jl_directory jl) block
           in rbind (header_Hash sha (blk_Header block)) (\<lambda>h.
              Ok \<lparr>jl_directory = dir, jl_height = jl_height jl + 1, jl_lastHash = h\<rparr>))"

text \<open>The files are listed in the order of their names, which is the order of their numbers.\<close>

fun count_blocks :: "uint64 list \<Rightarrow> uint64 \<Rightarrow> (string, uint64) res" where
  "count_blocks [] nextNumber = Ok nextNumber"
| "count_blocks (number # rest) nextNumber = (if number \<noteq> nextNumber then Panic else count_blocks rest (nextNumber + 1))"

definition initializeBlockHeight ::
    "jsonpb \<Rightarrow> (bytes \<Rightarrow> bytes) \<Rightarrow> (uint64, bytes) gomap \<Rightarrow> (string, jsonLedger) res" where
  "initializeBlockHeight jp sha dir =
     rbind (count_blocks (sort (map fst dir)) 0) (\<lambda>height.
     if height = 0 then Ok \<lparr>jl_directory = dir, jl_height = 0, jl_lastHash = []\<rparr>
     else case readBlock jp dir (height - 1) of
            None \<Rightarrow> Panic
          | Some None \<Rightarrow> Panic
          | Some (Some block) \<Rightarrow>
              rbind (header_Hash sha (blk_Header block)) (\<lambda>h. Ok \<lparr>jl_directory = dir, jl_height = height, jl_lastHash = h\<rparr>))"

definition json_newChain :: "jsonpb \<Rightarrow> (bytes \<Rightarrow> bytes) \<Rightarrow> (uint64, bytes) gomap \<Rightarrow> (string, jsonLedger) res" where
  "json_newChain jp sha directory = initializeBlockHeight jp sha directory"

definition json_ops :: "jsonpb \<Rightarrow> (bytes \<Rightarrow> bytes) \<Rightarrow> (jsonLedger, uint64) ledger_ops" where
  "json_ops jp sha = \<lparr>lo_Iterator = json_Iterator, lo_Height = json_Height, lo_Append = json_Append jp sha,
     lo_Next = json_Next jp, lo_Ready = json_Ready\<rparr>"

section \<open>The contract of a ledger\<close>

text \<open>The blocks of a ledger are numbered from 0, and few enough for their hashes to be defined.\<close>

definition numbered_chain :: "Block list \<Rightarrow> bool" where
  "numbered_chain bs \<longleftrightarrow> length bs < 2 ^ 63 \<and> (\<forall>i < length bs. block_number (bs ! i) = of_nat i)"

lemma numbered_chain_snoc:
  "numbered_chain bs \<Longrightarrow> block_number b = of_nat (length bs) \<Longrightarrow> Suc (length bs) < 2 ^ 63 \<Longrightarrow> numbered_chain (bs @ [b])"
  by (auto simp: numbered_chain_def nth_append less_Suc_eq)

lemma unat_small: "n < 2 ^ 64 \<Longrightarrow> unat (of_nat n :: uint64) = n"
  by (simp add: unat_of_nat take_bit_nat_eq_self)

lemma of_nat_eq_small: "n < 2 ^ 64 \<Longrightarrow> m < 2 ^ 64 \<Longrightarrow> (of_nat n :: uint64) = of_nat m \<longleftrightarrow> n = m"
  by (metis unat_small)

lemma header_Hash_small: "unat (bh_Number h) < 2 ^ 63 \<Longrightarrow> \<exists>x. header_Hash sha h = Ok x"
  by (simp add: header_Hash_def header_Bytes_def)

lemma tip_hash_defined:
  assumes "numbered_chain bs" shows "\<exists>h. tip_hash sha bs = Ok h"
proof (cases "bs = []")
  case False
  then have "block_number (last bs) = of_nat (length bs - 1)" using assms by (simp add: last_conv_nth numbered_chain_def)
  moreover have "length bs - 1 < 2 ^ 63" using assms by (auto simp: numbered_chain_def)
  ultimately have "unat (block_number (last bs)) < 2 ^ 63" using unat_small [of "length bs - 1"] by simp
  with header_Hash_small show ?thesis using False by (simp add: tip_hash_def)
qed (simp add: tip_hash_def)

locale order_ledger =
  fixes lo :: "('l, 'c) ledger_ops" and sha :: "bytes \<Rightarrow> bytes"
    and holds :: "'l \<Rightarrow> Block list \<Rightarrow> bool" and reads :: "'c \<Rightarrow> nat \<Rightarrow> bool" and first :: "'l \<Rightarrow> nat"
  assumes holds_numbered: "holds l bs \<Longrightarrow> numbered_chain bs"
    and height: "holds l bs \<Longrightarrow> lo_Height lo l = Ok (of_nat (length bs))"
    and seek_newest: "holds l bs \<Longrightarrow> bs \<noteq> [] \<Longrightarrow>
      \<exists>c. lo_Iterator lo l SeekPosition_Newest = Ok (Cursor c, of_nat (length bs - 1)) \<and> reads c (length bs - 1)"
    and seek_oldest: "holds l bs \<Longrightarrow>
      \<exists>c. lo_Iterator lo l SeekPosition_Oldest = Ok (Cursor c, of_nat (first l)) \<and> reads c (first l)"
    and seek_specified: "holds l bs \<Longrightarrow> first l \<le> n \<Longrightarrow> n \<le> length bs \<Longrightarrow>
      \<exists>c. lo_Iterator lo l (SeekPosition_Specified (of_nat n)) = Ok (Cursor c, of_nat n) \<and> reads c n"
    and seek_beyond: "holds l bs \<Longrightarrow> length bs < unat w \<Longrightarrow>
      lo_Iterator lo l (SeekPosition_Specified w) = Ok (NotFoundErrorIterator, 0)"
    and read_block: "holds l bs \<Longrightarrow> reads c i \<Longrightarrow> i < length bs \<Longrightarrow>
      lo_Ready lo l c = Ok True \<and> (\<exists>c'. lo_Next lo l c = Ok (Next_block (bs ! i) c') \<and> reads c' (Suc i))"
    and read_waits: "holds l bs \<Longrightarrow> reads c (length bs) \<Longrightarrow> lo_Ready lo l c = Ok False \<and> lo_Next lo l c = Ok Waits"
    and append_block: "holds l bs \<Longrightarrow> Suc (length bs) < 2 ^ 63 \<Longrightarrow> follows sha bs b \<Longrightarrow>
      \<exists>l'. lo_Append lo l b = Ok l' \<and> holds l' (bs @ [b])"
    and first_held: "holds l bs \<Longrightarrow> first l \<le> length bs"
begin

text \<open>The next block follows the chain, whatever the messages.\<close>

lemma create_next:
  assumes "holds l bs"
  shows "\<exists>b. CreateNextBlock lo sha pc l messages = Ok b \<and> follows sha bs b \<and> blk_Data b = map (en_Envelope pc) messages \<and>
    blk_Metadata b = Some (replicate 4 [])"
proof -
  note n = holds_numbered [OF assms]
  then have len: "length bs < 2 ^ 63" by (simp add: numbered_chain_def)
  obtain h where h: "tip_hash sha bs = Ok h" using tip_hash_defined [OF n] by blast
  let ?next = "\<lambda>height. if (height::uint64) > 0
            then rbind (lo_Iterator lo l SeekPosition_Newest) (\<lambda>(it, _).
                 rbind (iterator_Next lo l it) (\<lambda>r.
                 case r of
                   Next_block block _ \<Rightarrow>
                     rbind (header_Hash sha (blk_Header block)) (\<lambda>previousBlockHash.
                     Ok (bh_Number (blk_Header block) + 1, previousBlockHash))
                 | Next_status _ \<Rightarrow> Panic
                 | Waits \<Rightarrow> Err ''waits''))
            else Ok (0, [])"
  have "?next (of_nat (length bs)) = Ok (of_nat (length bs), h)"
  proof (cases "bs = []")
    case False
    then have pos: "(of_nat (length bs) :: uint64) > 0" using of_nat_eq_small [of "length bs" 0] len by (simp add: word_neq_0_conv [symmetric])
    from seek_newest [OF assms False] obtain c where c: "lo_Iterator lo l SeekPosition_Newest = Ok (Cursor c, of_nat (length bs - 1))"
      "reads c (length bs - 1)" by blast
    from read_block [OF assms c(2)] False obtain c' where "lo_Next lo l c = Ok (Next_block (last bs) c')" by (auto simp: last_conv_nth)
    moreover have "block_number (last bs) + 1 = of_nat (length bs)" using n False by (simp add: last_conv_nth numbered_chain_def of_nat_diff Suc_leI)
    ultimately show ?thesis using pos c(1) h False by (simp add: tip_hash_def)
  qed (use h in \<open>simp add: tip_hash_def\<close>)
  then show ?thesis using height [OF assms] h
    by (simp add: CreateNextBlock_def NewBlock_def follows_def Let_def)
qed

lemma get_block:
  assumes "holds l bs" and "first l \<le> n" and "n \<le> length bs"
  shows "GetBlock lo l (of_nat n) = Ok (if n < length bs then Some (bs ! n) else None)"
proof -
  from seek_specified [OF assms] obtain c where
    c: "lo_Iterator lo l (SeekPosition_Specified (of_nat n)) = Ok (Cursor c, of_nat n)" "reads c n" by blast
  show ?thesis
  proof (cases "n < length bs")
    case True
    with read_block [OF assms(1) c(2)] c(1) show ?thesis by (auto simp: GetBlock_def)
  next
    case False
    with assms(3) c(2) have "reads c (length bs)" by simp
    from read_waits [OF assms(1) this] c(1) False show ?thesis by (simp add: GetBlock_def)
  qed
qed

end

section \<open>The ledger in memory keeps the contract\<close>

definition ram_holds :: "ramLedger \<Rightarrow> Block list \<Rightarrow> bool" where
  "ram_holds rl bs \<longleftrightarrow> rl_nodes rl = preGenesis # bs \<and> numbered_chain bs \<and> rl_oldest rl \<le> length bs"

definition ram_reads :: "nat \<Rightarrow> nat \<Rightarrow> bool" where
  "ram_reads c i \<longleftrightarrow> c = Suc i"

definition ram_first :: "ramLedger \<Rightarrow> nat" where
  "ram_first rl = rl_oldest rl - 1"

lemma ram_new: "ram_holds (ram_newChain maxSize) []"
  by (simp add: ram_holds_def ram_newChain_def numbered_chain_def)

text \<open>Node \<open>i\<close> has number \<open>i - 1\<close>, the pre-genesis block included.\<close>

lemma node_number:
  assumes "ram_holds rl bs" and "i \<le> length bs"
  shows "block_number (rl_nodes rl ! i) = of_nat i - 1"
  using assms by (cases i) (auto simp: ram_holds_def preGenesis_def numbered_chain_def)

lemma ram_seek_found:
  "k \<le> j \<Longrightarrow> j < length nodes \<Longrightarrow> block_number (nodes ! j) = x \<Longrightarrow> (\<And>i. k \<le> i \<Longrightarrow> i < j \<Longrightarrow> block_number (nodes ! i) \<noteq> x) \<Longrightarrow>
    ram_seek (drop k nodes) x k = Ok j"
proof (induction "j - k" arbitrary: k)
  case 0
  then have "drop k nodes = nodes ! j # drop (Suc j) nodes" by (simp add: Cons_nth_drop_Suc)
  with 0 show ?case by simp
next
  case (Suc d)
  have d: "drop k nodes = nodes ! k # drop (Suc k) nodes" using Suc.hyps(2) Suc.prems(2) by (simp add: Cons_nth_drop_Suc)
  have "block_number (nodes ! k) \<noteq> x" using Suc.hyps(2) by (intro Suc.prems(4)) auto
  moreover have "ram_seek (drop (Suc k) nodes) x (Suc k) = Ok j"
    using Suc.hyps(2) Suc.prems by (intro Suc.hyps(1)) auto
  ultimately show ?case by (simp add: d)
qed

lemma ram_seek_node:
  assumes "ram_holds rl bs" and "rl_oldest rl \<le> n" and "n \<le> length bs"
  shows "ram_seek (drop (rl_oldest rl) (rl_nodes rl)) (of_nat n - 1) (rl_oldest rl) = Ok n"
proof (rule ram_seek_found)
  show "n < length (rl_nodes rl)" using assms by (simp add: ram_holds_def)
  show "block_number (rl_nodes rl ! n) = of_nat n - 1" by (rule node_number [OF assms(1,3)])
  fix i assume "rl_oldest rl \<le> i" "i < n"
  have "length bs < 2 ^ 63" using assms(1) by (simp add: ram_holds_def numbered_chain_def)
  then have "(of_nat i :: uint64) \<noteq> of_nat n" using of_nat_eq_small [of i n] \<open>i < n\<close> assms(3) by simp
  then show "block_number (rl_nodes rl ! i) \<noteq> of_nat n - 1" using node_number [OF assms(1), of i] \<open>i < n\<close> assms(3) by simp
qed (fact assms(2))

lemma small_not_max:
  assumes "n < 2 ^ 63" shows "(1 + of_nat n :: uint64) \<noteq> 0"
proof
  assume "(1 + of_nat n :: uint64) = 0"
  then have "unat (of_nat (Suc n) :: uint64) = 0" by simp
  with assms show False using unat_small [of "Suc n"] by simp
qed

lemma ram_specified:
  assumes "ram_holds rl bs" and "ram_first rl \<le> n" and "n \<le> length bs"
  shows "ram_Iterator rl (SeekPosition_Specified (of_nat n)) = Ok (Cursor (Suc n), of_nat n)"
proof -
  have len: "length bs < 2 ^ 63" and nodes: "length (rl_nodes rl) = Suc (length bs)" and oldest: "rl_oldest rl \<le> length bs"
    using assms(1) by (simp_all add: ram_holds_def numbered_chain_def)
  have num: "block_number (rl_nodes rl ! rl_oldest rl) = of_nat (rl_oldest rl) - 1" "block_number (rl_nodes rl ! length bs) = of_nat (length bs) - 1"
    using node_number [OF assms(1)] oldest by simp_all
  have a: "\<not> (of_nat n + 1 :: uint64) < of_nat (rl_oldest rl)"
    using unat_small [of "Suc n"] unat_small [of "rl_oldest rl"] assms(2,3) len oldest by (simp add: word_less_nat_alt ram_first_def add.commute)
  have b: "\<not> (of_nat n :: uint64) > of_nat (length bs)"
    using unat_small [of n] unat_small [of "length bs"] assms(3) len by (simp add: word_less_nat_alt)
  have c: "(of_nat n :: uint64) = of_nat (rl_oldest rl) - 1 \<longleftrightarrow> Suc n = rl_oldest rl"
    using of_nat_eq_small [of "Suc n" "rl_oldest rl"] assms(3) len oldest by (auto simp: eq_diff_eq add.commute)
  have d: "ram_seek (drop (rl_oldest rl) (rl_nodes rl)) (of_nat n - 1) (rl_oldest rl) = Ok n" if "Suc n \<noteq> rl_oldest rl"
    using assms(2) that by (intro ram_seek_node [OF assms(1) _ assms(3)]) (simp add: ram_first_def)
  have e: "(of_nat (rl_oldest rl) - 1 - 1 :: uint64) = of_nat n - 1" if "Suc n = rl_oldest rl" by (simp flip: that)
  have "ram_start rl (SeekPosition_Specified (of_nat n)) = Ok (Some (Suc n, of_nat n - 1))"
    unfolding ram_start_def Let_def nodes diff_Suc_1 num SeekPosition.case diff_add_cancel c using a b d e by auto
  moreover have "(1 + of_nat n :: uint64) \<noteq> 0" using small_not_max assms(3) len by simp
  ultimately show ?thesis by (simp add: ram_Iterator_def Let_def)
qed

lemma ram_oldest:
  assumes "ram_holds rl bs"
  shows "ram_Iterator rl SeekPosition_Oldest = Ok (Cursor (Suc (ram_first rl)), of_nat (ram_first rl))"
proof (cases "rl_oldest rl")
  case 0
  with assms show ?thesis by (simp add: ram_Iterator_def ram_start_def ram_first_def ram_holds_def preGenesis_def)
next
  case (Suc k)
  then have "block_number (rl_nodes rl ! Suc k) = of_nat k" using node_number [OF assms, of "Suc k"] assms by (simp add: ram_holds_def)
  moreover have "(1 + of_nat k :: uint64) \<noteq> 0" using assms Suc by (intro small_not_max) (simp add: ram_holds_def numbered_chain_def)
  ultimately show ?thesis by (simp add: ram_Iterator_def ram_start_def ram_first_def Suc)
qed

lemma ram_newest:
  assumes "ram_holds rl bs" and "bs \<noteq> []"
  shows "ram_Iterator rl SeekPosition_Newest = Ok (Cursor (length bs), of_nat (length bs - 1))"
proof -
  have nodes: "length (rl_nodes rl) = Suc (length bs)" using assms(1) by (simp add: ram_holds_def)
  have "block_number (rl_nodes rl ! length bs) = of_nat (length bs - 1)"
    using node_number [OF assms(1), of "length bs"] assms(2) by (simp add: of_nat_diff Suc_leI)
  moreover have "(1 + of_nat (length bs - 1) :: uint64) \<noteq> 0" using assms(1) by (intro small_not_max) (auto simp: ram_holds_def numbered_chain_def)
  ultimately show ?thesis by (simp add: ram_Iterator_def ram_start_def nodes Let_def)
qed

lemma ram_last:
  assumes "ram_holds rl bs" shows "block_number (last (rl_nodes rl)) + 1 = of_nat (length bs)"
proof -
  have "last (rl_nodes rl) = rl_nodes rl ! length bs" using assms by (simp add: ram_holds_def last_conv_nth nth_Cons')
  then show ?thesis using node_number [OF assms, of "length bs"] by simp
qed

lemma ram_append:
  assumes "ram_holds rl bs" and "Suc (length bs) < 2 ^ 63" and "follows sha bs b"
  shows "ram_Append sha rl b = Ok (ram_appendBlock rl b) \<and> ram_holds (ram_appendBlock rl b) (bs @ [b])"
proof -
  note last = ram_last [OF assms(1)]
  have "ram_holds (ram_appendBlock rl b) (bs @ [b])"
    using assms numbered_chain_snoc [of bs b] by (simp add: ram_holds_def ram_appendBlock_def follows_def Let_def)
  moreover have "ram_Append sha rl b = Ok (ram_appendBlock rl b)"
  proof (cases "bs = []")
    case True
    with assms(3) last show ?thesis by (simp add: ram_Append_def follows_def)
  next
    case False
    then have "last (rl_nodes rl) = last bs" using assms(1) by (simp add: ram_holds_def)
    with assms(3) last False show ?thesis by (simp add: ram_Append_def follows_def tip_hash_def Let_def)
  qed
  ultimately show ?thesis by blast
qed

interpretation ram: order_ledger "ram_ops sha" sha ram_holds ram_reads ram_first
proof
  fix l :: ramLedger and bs :: "Block list" and w :: uint64
  assume h: "ram_holds l bs"
  show "numbered_chain bs" using h by (simp add: ram_holds_def)
  show "lo_Height (ram_ops sha) l = Ok (of_nat (length bs))" using ram_last [OF h] by (simp add: ram_ops_def ram_Height_def)
  show "\<exists>c. lo_Iterator (ram_ops sha) l SeekPosition_Oldest = Ok (Cursor c, of_nat (ram_first l)) \<and> ram_reads c (ram_first l)"
    using ram_oldest [OF h] by (simp add: ram_ops_def ram_reads_def)
  show "ram_first l \<le> length bs" using h by (auto simp: ram_holds_def ram_first_def)
  assume "length bs < unat w"
  then have "w > block_number (rl_nodes l ! length bs) + 1"
    using node_number [OF h, of "length bs"] h unat_small [of "length bs"] by (simp add: word_less_nat_alt ram_holds_def numbered_chain_def)
  then show "lo_Iterator (ram_ops sha) l (SeekPosition_Specified w) = Ok (NotFoundErrorIterator, 0)"
    using h by (simp add: ram_ops_def ram_Iterator_def ram_start_def ram_holds_def)
next
  fix l :: ramLedger and bs :: "Block list" and n :: nat
  assume "ram_holds l bs" "ram_first l \<le> n" "n \<le> length bs"
  from ram_specified [OF this]
  show "\<exists>c. lo_Iterator (ram_ops sha) l (SeekPosition_Specified (of_nat n)) = Ok (Cursor c, of_nat n) \<and> ram_reads c n"
    by (simp add: ram_ops_def ram_reads_def)
next
  fix l :: ramLedger and bs :: "Block list" and b :: Block
  assume "ram_holds l bs" "Suc (length bs) < 2 ^ 63" "follows sha bs b"
  from ram_append [OF this] show "\<exists>l'. lo_Append (ram_ops sha) l b = Ok l' \<and> ram_holds l' (bs @ [b])"
    by (auto simp: ram_ops_def ram_reads_def)
qed (use ram_newest in \<open>auto simp: ram_ops_def ram_reads_def ram_holds_def ram_Next_def ram_Ready_def\<close>)

section \<open>The ledger of JSON files keeps the contract\<close>

text \<open>The blocks are on file, the library reads back what it wrote, and the height and hash are those of the tip.\<close>

definition json_holds :: "jsonpb \<Rightarrow> (bytes \<Rightarrow> bytes) \<Rightarrow> jsonLedger \<Rightarrow> Block list \<Rightarrow> bool" where
  "json_holds jp sha jl bs \<longleftrightarrow> (\<forall>b. jp_Unmarshal jp (jp_Marshal jp b) = Inr b) \<and> numbered_chain bs \<and>
     jl_height jl = of_nat (length bs) \<and> tip_hash sha bs = Ok (jl_lastHash jl) \<and>
     distinct (map fst (jl_directory jl)) \<and>
     (\<forall>w. map_of (jl_directory jl) w = (if unat w < length bs then Some (jp_Marshal jp (bs ! unat w)) else None))"

definition json_reads :: "uint64 \<Rightarrow> nat \<Rightarrow> bool" where
  "json_reads c i \<longleftrightarrow> c = of_nat i \<and> i < 2 ^ 64"

lemma json_append:
  assumes "json_holds jp sha jl bs" and "Suc (length bs) < 2 ^ 63" and "follows sha bs b"
  shows "\<exists>jl'. json_Append jp sha jl b = Ok jl' \<and> json_holds jp sha jl' (bs @ [b])"
proof -
  have num: "block_number b = of_nat (length bs)" and unum: "unat (block_number b) = length bs"
    using assms(2,3) unat_small [of "length bs"] by (simp_all add: follows_def)
  obtain h where h: "header_Hash sha (blk_Header b) = Ok h"
    using header_Hash_small [of "blk_Header b" sha] unum assms(2) by auto
  let ?jl = "\<lparr>jl_directory = writeBlock jp (jl_directory jl) b, jl_height = jl_height jl + 1, jl_lastHash = h\<rparr>"
  have "map_of (writeBlock jp (jl_directory jl) b) w =
      (if unat w < Suc (length bs) then Some (jp_Marshal jp ((bs @ [b]) ! unat w)) else None)" for w
  proof (cases "w = block_number b")
    case True
    then show ?thesis using unum by (simp add: writeBlock_def update_conv')
  next
    case False
    then have "unat w \<noteq> length bs" using unum by (metis word_unat_eq_iff)
    then show ?thesis using False assms(1) by (simp add: writeBlock_def update_conv' json_holds_def nth_append)
  qed
  moreover have "distinct (map fst (writeBlock jp (jl_directory jl) b))"
    using assms(1) by (simp add: writeBlock_def json_holds_def distinct_update)
  moreover have "numbered_chain (bs @ [b])" using numbered_chain_snoc [OF _ num assms(2)] assms(1) by (simp add: json_holds_def)
  ultimately have "json_holds jp sha ?jl (bs @ [b])" using assms(1) h by (simp add: json_holds_def tip_hash_def add.commute)
  moreover have "json_Append jp sha jl b = Ok ?jl"
    using assms(1,3) num h by (simp add: json_Append_def json_holds_def follows_def Let_def)
  ultimately show ?thesis by blast
qed

interpretation json: order_ledger "json_ops jp sha" sha "json_holds jp sha" json_reads "\<lambda>_. 0"
proof
  fix l :: jsonLedger and bs :: "Block list" and w :: uint64
  assume h: "json_holds jp sha l bs"
  then have len: "length bs < 2 ^ 63" "jl_height l = of_nat (length bs)" by (simp_all add: json_holds_def numbered_chain_def)
  show "numbered_chain bs" "lo_Height (json_ops jp sha) l = Ok (of_nat (length bs))"
    using h by (simp_all add: json_holds_def json_ops_def json_Height_def)
  show "\<exists>c. lo_Iterator (json_ops jp sha) l SeekPosition_Newest = Ok (Cursor c, of_nat (length bs - 1)) \<and> json_reads c (length bs - 1)"
    if "bs \<noteq> []" using that len by (auto simp: json_ops_def json_Iterator_def json_reads_def of_nat_diff Suc_leI Let_def)
  show "\<exists>c. lo_Iterator (json_ops jp sha) l (SeekPosition_Specified (of_nat n)) = Ok (Cursor c, of_nat n) \<and> json_reads c n"
    if "n \<le> length bs" for n
    using that len unat_small [of n] unat_small [of "length bs"] by (simp add: json_ops_def json_Iterator_def json_reads_def word_less_nat_alt)
  show "lo_Iterator (json_ops jp sha) l (SeekPosition_Specified w) = Ok (NotFoundErrorIterator, 0)" if "length bs < unat w"
    using that len unat_small [of "length bs"] by (simp add: json_ops_def json_Iterator_def word_less_nat_alt)
  fix c i
  assume r: "json_reads c i"
  show "lo_Ready (json_ops jp sha) l c = Ok True \<and> (\<exists>c'. lo_Next (json_ops jp sha) l c = Ok (Next_block (bs ! i) c') \<and> json_reads c' (Suc i))"
    if "i < length bs"
    using that h r len(1) unat_small [of i]
    by (simp add: json_ops_def json_Ready_def json_Next_def json_reads_def readBlock_def json_holds_def add.commute)
next
  fix l :: jsonLedger and bs :: "Block list" and c :: uint64
  assume h: "json_holds jp sha l bs" and r: "json_reads c (length bs)"
  then show "lo_Ready (json_ops jp sha) l c = Ok False \<and> lo_Next (json_ops jp sha) l c = Ok Waits"
    using unat_small [of "length bs"] by (simp add: json_ops_def json_Ready_def json_Next_def json_reads_def readBlock_def json_holds_def)
next
  fix l :: jsonLedger and bs :: "Block list" and b :: Block
  assume "json_holds jp sha l bs" "Suc (length bs) < 2 ^ 63" "follows sha bs b"
  from json_append [OF this]
  show "\<exists>l'. lo_Append (json_ops jp sha) l b = Ok l' \<and> json_holds jp sha l' (bs @ [b])"
    by (auto simp: json_ops_def json_reads_def)
qed (auto simp: json_ops_def json_Iterator_def json_reads_def)

text \<open>A restart reads the chain back from its directory.\<close>

lemma count_blocks_upto: "count_blocks (map of_nat [i ..< j]) (of_nat i) = Ok (of_nat (max i j))"
proof (induction "j - i" arbitrary: i)
  case (Suc d)
  then have "[i ..< j] = i # [Suc i ..< j]" by (simp add: upt_conv_Cons)
  with Suc.hyps(1) [of "Suc i"] Suc.hyps(2) show ?case by (simp add: add.commute)
qed (simp add: max_def)

lemma block_files_listing:
  assumes "distinct ws" and "n < 2 ^ 63" and "\<And>w. w \<in> set ws \<longleftrightarrow> unat w < n"
  shows "sort ws = map (of_nat :: nat \<Rightarrow> uint64) [0 ..< n]"
proof (rule sorted_distinct_set_unique)
  have "(of_nat i :: uint64) \<le> of_nat j" if "i \<le> j" "j < n" for i j
    using that assms(2) unat_small [of i] unat_small [of j] by (simp add: word_le_nat_alt)
  then show "sorted (map (of_nat :: nat \<Rightarrow> uint64) [0 ..< n])" by (auto simp: sorted_iff_nth_mono)
  show "distinct (map (of_nat :: nat \<Rightarrow> uint64) [0 ..< n])"
    using assms(2) of_nat_eq_small by (auto simp: distinct_map inj_on_def)
  have "unat w < n \<longleftrightarrow> w \<in> of_nat ` {0 ..< n}" for w :: uint64
    using assms(2) unat_small by (force simp: image_iff)
  then show "set (sort ws) = set (map of_nat [0 ..< n])" using assms(3) by auto
qed (use assms(1) in simp_all)

lemma json_files:
  assumes "json_holds jp sha jl bs" shows "w \<in> set (map fst (jl_directory jl)) \<longleftrightarrow> unat w < length bs"
  using assms by (simp add: json_holds_def dom_map_of_conv_image_fst [symmetric] dom_def)

lemma json_restart:
  assumes "json_holds jp sha jl bs"
  shows "json_newChain jp sha (jl_directory jl) = Ok jl"
proof -
  have len: "length bs < 2 ^ 63" "jl_height jl = of_nat (length bs)" using assms by (simp_all add: json_holds_def numbered_chain_def)
  have count: "count_blocks (sort (map fst (jl_directory jl))) 0 = Ok (of_nat (length bs))"
    using block_files_listing [OF _ len(1) json_files [OF assms]] assms count_blocks_upto [of 0 "length bs"] by (simp add: json_holds_def)
  show ?thesis
  proof (cases "bs = []")
    case True
    then have "jl = \<lparr>jl_directory = jl_directory jl, jl_height = 0, jl_lastHash = []\<rparr>" using assms by (simp add: json_holds_def tip_hash_def)
    with count True show ?thesis by (simp add: json_newChain_def initializeBlockHeight_def)
  next
    case False
    have pos: "(of_nat (length bs) :: uint64) \<noteq> 0" using of_nat_eq_small [of "length bs" 0] len(1) False by simp
    have "unat (of_nat (length bs) - 1 :: uint64) = length bs - 1" using unat_small [of "length bs - 1"] len(1) False by (simp add: of_nat_diff Suc_leI)
    then have "readBlock jp (jl_directory jl) (of_nat (length bs) - 1) = Some (Some (last bs))"
      using assms False by (simp add: readBlock_def json_holds_def last_conv_nth)
    with assms False count pos len(2) show ?thesis
      by (simp add: json_newChain_def initializeBlockHeight_def json_holds_def tip_hash_def)
  qed
qed

section \<open>Properties\<close>

text \<open>The JSON ledger survives restarts. A block that follows the chain is appended, a restart on the
  directory comes back with the same ledger, and every block is read from it.
\<close>

theorem json_ledger_restarts:
  assumes "json_holds jp sha jl bs" and "Suc (length bs) < 2 ^ 63" and "follows sha bs b" and "n \<le> length bs"
  shows "\<exists>jl'. json_Append jp sha jl b = Ok jl' \<and> json_newChain jp sha (jl_directory jl') = Ok jl' \<and>
    GetBlock (json_ops jp sha) jl' (of_nat n) = Ok (Some ((bs @ [b]) ! n))"
proof -
  obtain jl' where jl': "json_Append jp sha jl b = Ok jl'" "json_holds jp sha jl' (bs @ [b])" using json_append [OF assms(1-3)] by blast
  then show ?thesis using json_restart [OF jl'(2)] json.get_block [OF jl'(2), of n] assms(4) by auto
qed

text \<open>A crash while a block is written bricks the JSON ledger. When the file of the next block is left with
  contents that cannot be read, the directory still lists it, and every start on it panics.
\<close>

theorem json_torn_write_bricks:
  assumes "json_holds jp sha jl bs" and "Suc (length bs) < 2 ^ 63" and "jp_Unmarshal jp torn = Inl e"
  shows "json_newChain jp sha (AList.update (of_nat (length bs)) torn (jl_directory jl)) = Panic"
proof -
  let ?dir = "AList.update (of_nat (length bs)) torn (jl_directory jl)"
  have u: "unat (of_nat (length bs) :: uint64) = length bs" using assms(2) unat_small [of "length bs"] by simp
  have "w \<in> set (map fst ?dir) \<longleftrightarrow> unat w < Suc (length bs)" for w
  proof -
    have "w = of_nat (length bs) \<longleftrightarrow> unat w = length bs" using u by (metis word_unat_eq_iff)
    then show ?thesis using json_files [OF assms(1), of w] by (auto simp: update_keys less_Suc_eq simp flip: set_map)
  qed
  moreover have "distinct (map fst ?dir)" using assms(1) by (simp add: json_holds_def distinct_update)
  ultimately have "count_blocks (sort (map fst ?dir)) 0 = Ok (of_nat (Suc (length bs)))"
    using block_files_listing [of "map fst ?dir" "Suc (length bs)"] assms(2) count_blocks_upto [of 0 "Suc (length bs)"] by simp
  moreover have "(of_nat (Suc (length bs)) :: uint64) \<noteq> 0" using of_nat_eq_small [of "Suc (length bs)" 0] assms(2) by simp
  ultimately show ?thesis using assms(3)
    by (simp add: json_newChain_def initializeBlockHeight_def readBlock_def update_conv')
qed

section \<open>A text form of blocks\<close>

primrec esc :: "bytes \<Rightarrow> bytes" where
  "esc [] = [CHR 0x00]"
| "esc (c # s) = CHR 0x01 # c # esc s"

primrec escs :: "bytes list \<Rightarrow> bytes" where
  "escs [] = [CHR 0x00]"
| "escs (s # ss) = CHR 0x01 # esc s @ escs ss"

lemma esc_inject: "esc a @ x = esc b @ y \<longleftrightarrow> a = b \<and> x = y"
proof (induction a arbitrary: b)
  case Nil
  then show ?case by (cases b) auto
next
  case (Cons c a)
  then show ?case by (cases b) auto
qed

lemma escs_inject: "escs a @ x = escs b @ y \<longleftrightarrow> a = b \<and> x = y"
proof (induction a arbitrary: b)
  case Nil
  then show ?case by (cases b) auto
next
  case (Cons c a)
  then show ?case by (cases b) (auto simp: esc_inject)
qed

definition block_text :: "Block \<Rightarrow> bytes" where
  "block_text b = be_bytes 8 (unat (block_number b)) @ esc (bh_PreviousHash (blk_Header b)) @ esc (bh_DataHash (blk_Header b)) @
     escs (blk_Data b) @ (case blk_Metadata b of None \<Rightarrow> [] | Some md \<Rightarrow> escs md)"

lemma block_text_inject:
  assumes "block_text a = block_text b" shows "a = b"
proof -
  have "be_bytes 8 (unat (block_number a)) = be_bytes 8 (unat (block_number b))"
    using assms unfolding block_text_def by (metis append_eq_append_conv length_be_bytes)
  moreover have "unat w < 256 ^ 8" for w :: uint64 using unsigned_less [of w, where ?'a = nat] by simp
  ultimately have n: "block_number a = block_number b" by (metis be_val_be_bytes word_unat_eq_iff)
  have m: "escs x \<noteq> []" for x by (cases x) simp_all
  have h: "bh_PreviousHash (blk_Header a) = bh_PreviousHash (blk_Header b) \<and> bh_DataHash (blk_Header a) = bh_DataHash (blk_Header b) \<and>
      blk_Data a = blk_Data b \<and> (case blk_Metadata a of None \<Rightarrow> [] | Some md \<Rightarrow> escs md) = (case blk_Metadata b of None \<Rightarrow> [] | Some md \<Rightarrow> escs md)"
    using assms n by (simp add: block_text_def esc_inject escs_inject)
  then have "blk_Metadata a = blk_Metadata b"
    using m m [symmetric] escs_inject [of _ "[]" _ "[]"] by (auto split: option.splits)
  with h n show ?thesis by (intro Block.equality BlockHeader.equality) simp_all
qed

definition sample_jsonpb :: jsonpb where
  "sample_jsonpb = \<lparr>jp_Marshal = block_text,
     jp_Unmarshal = (\<lambda>t. if \<exists>b. t = block_text b then Inr (inv block_text t) else Inl ''unexpected EOF'')\<rparr>"

lemma sample_jsonpb_law: "jp_Unmarshal sample_jsonpb (jp_Marshal sample_jsonpb b) = Inr b"
  using block_text_inject by (auto simp: sample_jsonpb_def inj_def intro: inv_f_f)

definition empty_json :: jsonLedger where
  "empty_json = \<lparr>jl_directory = [], jl_height = 0, jl_lastHash = []\<rparr>"

lemma empty_json_holds: "json_holds sample_jsonpb (\<lambda>x. x) empty_json []"
  by (simp add: json_holds_def sample_jsonpb_law numbered_chain_def tip_hash_def empty_json_def)

theorem json_ledger_restarts_witness:
  "\<exists>jl'. json_Append sample_jsonpb (\<lambda>x. x) empty_json (genesis_of [''t'']) = Ok jl' \<and>
    json_newChain sample_jsonpb (\<lambda>x. x) (jl_directory jl') = Ok jl' \<and>
    GetBlock (json_ops sample_jsonpb (\<lambda>x. x)) jl' 0 = Ok (Some (genesis_of [''t'']))"
  using json_ledger_restarts [OF empty_json_holds, of "genesis_of [''t'']" 0]
  by (simp add: follows_def genesis_of_def tip_hash_def data_Hash_def data_Bytes_def)

theorem json_torn_write_bricks_witness:
  "json_newChain sample_jsonpb (\<lambda>x. x) [(0, [])] = Panic"
proof -
  have "[] \<noteq> block_text b" for b by (cases "blk_Data b") (auto simp: block_text_def)
  then have "jp_Unmarshal sample_jsonpb [] = Inl ''unexpected EOF''" by (simp add: sample_jsonpb_def)
  from json_torn_write_bricks [OF empty_json_holds _ this] show ?thesis by (simp add: empty_json_def)
qed

end
