(* ===== verification/Solo_Chain.thy ===== *)
theory Solo_Chain
  imports Block_Cutter Order_Ledger Schedule
begin

text \<open>
  The solo ordering service: the chain support of \<open>orderer/multichain/chainsupport.go\<close> and the main loop of
  \<open>orderer/solo/consensus.go\<close>, with the schedule of a block computed before it is written.

  The state of a channel holds its configuration, its ledger, the block cutter, what it knows of the last
  configuration block, and whether the batch timer runs. The loop is a step per message that arrives and
  per expiry of the timer, in any order. The lemmas show that the ledger stays a chain of linked blocks
  that holds exactly the accepted messages in order, up to the pending ones.
\<close>

section \<open>Chain support\<close>

record ('s, 'e, 'l) channel =
  ch_config :: 's
  ch_ledger :: 'l
  ch_cutter :: "'e receiver"
  ch_lastConfig :: uint64
  ch_lastConfigSeq :: uint64
  ch_timer :: bool

text \<open>
  The environment of a channel. The signer makes a new signature header for each signature of each block,
  which the number of the block and of the signature stand for.
\<close>

record ('s, 'e, 'i, 'l, 'c) support =
  su_config :: "('s, 'e, 'i) config_ops"
  su_ledger :: "('l, 'c) ledger_ops"
  su_filters :: "('s, 'e) rule list"
  su_codec :: codec
  su_sha :: "bytes \<Rightarrow> bytes"
  su_NewSignatureHeader :: "uint64 \<Rightarrow> nat \<Rightarrow> (string, SignatureHeader) res"
  su_Sign :: "bytes \<Rightarrow> (string, bytes) res"

definition or_panic :: "('x, 'a) res \<Rightarrow> ('y, 'a) res" where
  "or_panic r = (case r of Ok x \<Rightarrow> Ok x | _ \<Rightarrow> Panic)"

definition signed_metadata ::
    "('s, 'e, 'i, 'l, 'c) support \<Rightarrow> nat \<Rightarrow> bytes \<Rightarrow> BlockHeader \<Rightarrow> (string, bytes) res" where
  "signed_metadata su k val header =
     rbind (or_panic (su_NewSignatureHeader su (bh_Number header) k)) (\<lambda>sh.
     rbind (header_Bytes header) (\<lambda>hb.
     let SignatureHeader = en_SignatureHeader (su_codec su) sh
     in rbind (or_panic (su_Sign su (val @ SignatureHeader @ hb))) (\<lambda>Signature.
        Ok (en_Metadata (su_codec su) \<lparr>md_Value = val,
          md_Signatures = [\<lparr>ms_SignatureHeader = SignatureHeader, ms_Signature = Signature\<rparr>]\<rparr>))))"

definition set_metadata :: "nat \<Rightarrow> bytes \<Rightarrow> Block \<Rightarrow> (string, Block) res" where
  "set_metadata i val block =
     rbind (deref (blk_Metadata block)) (\<lambda>md.
     rbind (set_index md i val) (\<lambda>md1. Ok (block\<lparr>blk_Metadata := Some md1\<rparr>)))"

definition addBlockSignature :: "('s, 'e, 'i, 'l, 'c) support \<Rightarrow> Block \<Rightarrow> (string, Block) res" where
  "addBlockSignature su block =
     rbind (signed_metadata su 0 [] (blk_Header block)) (\<lambda>val. set_metadata BlockMetadataIndex_SIGNATURES val block)"

definition addLastConfigSignature ::
    "('s, 'e, 'i, 'l, 'c) support \<Rightarrow> Block \<Rightarrow> ('s, 'e, 'l) channel \<Rightarrow> (string, Block \<times> ('s, 'e, 'l) channel) res" where
  "addLastConfigSignature su block cs =
     (let configSeq = co_Sequence (su_config su) (ch_config cs);
          cs1 = (if configSeq > ch_lastConfigSeq cs
                 then cs\<lparr>ch_lastConfig := block_number block, ch_lastConfigSeq := configSeq\<rparr> else cs);
          lastConfigValue = en_LastConfig (su_codec su) \<lparr>lc_Index = ch_lastConfig cs1\<rparr>
      in rbind (signed_metadata su 1 lastConfigValue (blk_Header block)) (\<lambda>val.
         rbind (set_metadata BlockMetadataIndex_LAST_CONFIG val block) (\<lambda>block1. Ok (block1, cs1))))"

fun commit_all :: "('s, 'e, 'i) config_ops \<Rightarrow> 'e Committer list \<Rightarrow> 's \<Rightarrow> (string, 's) res" where
  "commit_all co [] s = Ok s"
| "commit_all co (committer # committers) s = rbind (Commit co committer s) (\<lambda>s1. commit_all co committers s1)"

definition WriteBlock :: "('s, 'e, 'i, 'l, 'c) support \<Rightarrow> Block \<Rightarrow> 'e Committer list \<Rightarrow> bytes option \<Rightarrow> ('s, 'e, 'l) channel \<Rightarrow>
    (string, Block \<times> ('s, 'e, 'l) channel) res" where
  "WriteBlock su block committers encodedMetadataValue cs =
     rbind (commit_all (su_config su) committers (ch_config cs)) (\<lambda>s1.
     rbind (case encodedMetadataValue of
              None \<Rightarrow> Ok block
            | Some val \<Rightarrow>
                set_metadata BlockMetadataIndex_ORDERER (en_Metadata (su_codec su) \<lparr>md_Value = val, md_Signatures = []\<rparr>) block) (\<lambda>block1.
     rbind (addBlockSignature su block1) (\<lambda>block2.
     rbind (addLastConfigSignature su block2 (cs\<lparr>ch_config := s1\<rparr>)) (\<lambda>(block3, cs1).
     rbind (or_panic (lo_Append (su_ledger su) (ch_ledger cs1) block3)) (\<lambda>l.
     Ok (block3, cs1\<lparr>ch_ledger := l\<rparr>))))))"

section \<open>The main loop\<close>

text \<open>What the loop does with a batch. The result of \<open>WriteBlock\<close> is not used.\<close>

definition write_batch :: "('s, 'e, 'i, 'l, 'c) support \<Rightarrow> 'e batch \<Rightarrow> ('s, 'e, 'l) channel \<Rightarrow> (string, ('s, 'e, 'l) channel) res" where
  "write_batch su batch cs =
     rbind (CreateNextBlock (su_ledger su) (su_sha su) (su_codec su) (ch_ledger cs) (fst batch)) (\<lambda>block.
     rbind (AnalyzeBatchAndSchedule (su_codec su) block) (\<lambda>batchScheduleBytes.
     rbind (WriteBlock su block (snd batch) batchScheduleBytes cs) (\<lambda>(_, cs1). Ok cs1)))"

fun write_batches :: "('s, 'e, 'i, 'l, 'c) support \<Rightarrow> 'e batch list \<Rightarrow> ('s, 'e, 'l) channel \<Rightarrow> (string, ('s, 'e, 'l) channel) res" where
  "write_batches su [] cs = Ok cs"
| "write_batches su (batch # batches) cs = rbind (write_batch su batch cs) (\<lambda>cs1. write_batches su batches cs1)"

definition solo_receive :: "('s, 'e, 'i, 'l, 'c) support \<Rightarrow> Envelope \<Rightarrow> ('s, 'e, 'l) channel \<Rightarrow> (string, ('s, 'e, 'l) channel) res" where
  "solo_receive su msg cs =
     rbind (Ordered (su_filters su) (co_BatchSize (su_config su)) (ch_config cs) msg (ch_cutter cs)) (\<lambda>(batches, ok, r).
     let cs1 = cs\<lparr>ch_cutter := r\<rparr>
     in if ok \<and> length batches = 0 \<and> \<not> ch_timer cs1 then Ok (cs1\<lparr>ch_timer := True\<rparr>)
        else rbind (write_batches su batches cs1) (\<lambda>cs2.
             Ok (if length batches > 0 then cs2\<lparr>ch_timer := False\<rparr> else cs2)))"

definition solo_expire :: "('s, 'e, 'i, 'l, 'c) support \<Rightarrow> ('s, 'e, 'l) channel \<Rightarrow> (string, ('s, 'e, 'l) channel) res" where
  "solo_expire su cs =
     (let (batch, r) = Cut (ch_cutter cs);
          cs1 = cs\<lparr>ch_timer := False, ch_cutter := r\<rparr>
      in if length (fst batch) = 0 then Ok cs1 else write_batch su batch cs1)"

text \<open>
  The executions of the loop, with the messages that it has accepted. The timer expires only while it runs.
\<close>

definition accepts :: "('s, 'e, 'i, 'l, 'c) support \<Rightarrow> ('s, 'e, 'l) channel \<Rightarrow> Envelope \<Rightarrow> Envelope list" where
  "accepts su cs msg = (case RuleSet_Apply (su_filters su) (ch_config cs) msg of Ok _ \<Rightarrow> [msg] | _ \<Rightarrow> [])"

inductive solo_run :: "('s, 'e, 'i, 'l, 'c) support \<Rightarrow> ('s, 'e, 'l) channel \<Rightarrow> Envelope list \<Rightarrow> ('s, 'e, 'l) channel \<Rightarrow> bool"
  for su :: "('s, 'e, 'i, 'l, 'c) support" and cs0 :: "('s, 'e, 'l) channel" where
  start: "solo_run su cs0 [] cs0"
| receive: "solo_run su cs0 ms cs \<Longrightarrow> solo_receive su msg cs = Ok cs' \<Longrightarrow> solo_run su cs0 (ms @ accepts su cs msg) cs'"
| expire: "solo_run su cs0 ms cs \<Longrightarrow> ch_timer cs \<Longrightarrow> solo_expire su cs = Ok cs' \<Longrightarrow> solo_run su cs0 ms cs'"

section \<open>What is written\<close>

lemma or_panic_Ok [go_res]: "or_panic r = Ok x \<longleftrightarrow> r = Ok x"
  by (cases r) (simp_all add: or_panic_def)

lemma set_metadata_Ok:
  "set_metadata i val b = Ok b' \<longleftrightarrow> (\<exists>md. blk_Metadata b = Some md \<and> i < length md \<and> b' = b\<lparr>blk_Metadata := Some (md[i := val])\<rparr>)"
  by (auto simp: set_metadata_def go_res)

text \<open>The metadata of a block after the signatures: the value for the committer stays.\<close>

definition ordered_metadata :: "codec \<Rightarrow> bytes option \<Rightarrow> Block \<Rightarrow> bool" where
  "ordered_metadata pc val b \<longleftrightarrow> (\<exists>md. blk_Metadata b = Some md \<and> length md = 4 \<and>
     md ! 3 = (case val of None \<Rightarrow> [] | Some v \<Rightarrow> en_Metadata pc \<lparr>md_Value = v, md_Signatures = []\<rparr>))"

lemma add_signature_keeps:
  assumes "set_metadata i val b = Ok b'" and "i < 3" and "ordered_metadata pc v b"
  shows "ordered_metadata pc v b' \<and> blk_Header b' = blk_Header b \<and> blk_Data b' = blk_Data b"
  using assms by (auto simp: set_metadata_Ok ordered_metadata_def)

lemma WriteBlock_written:
  assumes "WriteBlock su block ks val cs = Ok (b, cs')" and "blk_Metadata block = Some (replicate 4 [])"
  shows "blk_Header b = blk_Header block \<and> blk_Data b = blk_Data block \<and> ordered_metadata (su_codec su) val b \<and>
    lo_Append (su_ledger su) (ch_ledger cs) b = Ok (ch_ledger cs') \<and> ch_cutter cs' = ch_cutter cs \<and> ch_timer cs' = ch_timer cs"
proof -
  let ?pc = "su_codec su"
  let ?first = "case val of None \<Rightarrow> Ok block
    | Some v \<Rightarrow> set_metadata BlockMetadataIndex_ORDERER (en_Metadata ?pc \<lparr>md_Value = v, md_Signatures = []\<rparr>) block"
  obtain s1 b1 b2 cs1 l where c: "?first = Ok b1" and sig: "addBlockSignature su b1 = Ok b2"
    and conf: "addLastConfigSignature su b2 (cs\<lparr>ch_config := s1\<rparr>) = Ok (b, cs1)"
    and l: "lo_Append (su_ledger su) (ch_ledger cs1) b = Ok l" and cs': "cs' = cs1\<lparr>ch_ledger := l\<rparr>"
    using assms(1) by (auto simp: WriteBlock_def go_res)
  have 1: "ordered_metadata ?pc val b1 \<and> blk_Header b1 = blk_Header block \<and> blk_Data b1 = blk_Data block"
    using c assms(2) by (cases val) (auto simp: set_metadata_Ok ordered_metadata_def metadata_index_defs)
  obtain v where "set_metadata BlockMetadataIndex_SIGNATURES v b1 = Ok b2" using sig by (auto simp: addBlockSignature_def go_res)
  from add_signature_keeps [OF this _ conjunct1 [OF 1]]
  have 2: "ordered_metadata ?pc val b2 \<and> blk_Header b2 = blk_Header b1 \<and> blk_Data b2 = blk_Data b1" by (simp add: metadata_index_defs)
  obtain v where v: "set_metadata BlockMetadataIndex_LAST_CONFIG v b2 = Ok b"
    and cs1: "ch_cutter cs1 = ch_cutter cs \<and> ch_timer cs1 = ch_timer cs \<and> ch_ledger cs1 = ch_ledger cs"
    using conf by (auto simp: addLastConfigSignature_def go_res Let_def)
  from add_signature_keeps [OF v _ conjunct1 [OF 2]]
  have "ordered_metadata ?pc val b \<and> blk_Header b = blk_Header b2 \<and> blk_Data b = blk_Data b2" by (simp add: metadata_index_defs)
  with 1 2 l cs1 cs' show ?thesis by simp
qed

text \<open>The messages of the batches, and that no batch is empty.\<close>

definition sized :: "'e receiver \<Rightarrow> bool" where
  "sized r \<longleftrightarrow> (pendingBatch r = [] \<longrightarrow> pendingBatchSizeBytes r = 0)"

lemma cut_if_messages: "cut_if b r = (bs, r') \<Longrightarrow> concat (map fst bs) @ pendingBatch r' = pendingBatch r"
  by (cases b) (auto simp: cut_if_def Cut_def)

lemma cut_if_sized: "cut_if b r = (bs, r') \<Longrightarrow> sized r \<Longrightarrow> (b \<Longrightarrow> pendingBatch r \<noteq> []) \<Longrightarrow> sized r' \<and> (\<forall>x \<in> set bs. fst x \<noteq> [])"
  by (cases b) (auto simp: cut_if_def Cut_def sized_def)

lemma Ordered_messages:
  assumes "Ordered filters B s msg r = Ok (bs, ok, r')" and "sized r"
  shows "concat (map fst bs) @ pendingBatch r' = pendingBatch r @ (case RuleSet_Apply filters s msg of Ok _ \<Rightarrow> [msg] | _ \<Rightarrow> []) \<and>
    (\<forall>x \<in> set bs. fst x \<noteq> []) \<and> sized r'"
proof (cases "RuleSet_Apply filters s msg")
  case (Ok c)
  then obtain k where c: "RuleSet_Apply filters s msg = Ok (Some k)" using assms(1) by (cases c) (auto simp: Ordered_def)
  show ?thesis
  proof (cases "Isolated k \<or> messageSizeBytes msg > PreferredMaxBytes (B s)")
    case True
    obtain b1 r1 where 1: "cut_if (length (pendingBatch r) > 0) r = (b1, r1)" by force
    then have "bs = b1 @ [([msg], [k])]" "r' = r1" "pendingBatch r1 = []"
      using assms(1) c True by (auto simp: Ordered_def cut_if_def Cut_def split: if_splits)
    with cut_if_messages [OF 1] cut_if_sized [OF 1 assms(2)] c show ?thesis by auto
  next
    case False
    let ?o = "pendingBatchSizeBytes r + messageSizeBytes msg > PreferredMaxBytes (B s)"
    obtain b1 r1 where 1: "cut_if ?o r = (b1, r1)" by force
    obtain b2 r2 where 2: "cut_if (of_nat (length (pendingBatch (enqueue msg k r1))) \<ge> MaxMessageCount (B s)) (enqueue msg k r1) = (b2, r2)" by force
    have r: "bs = b1 @ b2" "r' = r2" using assms(1) c False 1 2 by (auto simp: Ordered_def Let_def)
    have o: "?o \<Longrightarrow> pendingBatch r \<noteq> []" using assms(2) False by (auto simp: sized_def)
    have e: "pendingBatch (enqueue msg k r1) = pendingBatch r1 @ [msg]" "sized (enqueue msg k r1)" by (simp_all add: enqueue_def sized_def)
    have "concat (map fst bs) @ pendingBatch r' = concat (map fst b1) @ pendingBatch r1 @ [msg]"
      using cut_if_messages [OF 2] e(1) r by simp
    also have "\<dots> = pendingBatch r @ [msg]" using cut_if_messages [OF 1] by (metis append.assoc)
    finally show ?thesis
      using c r cut_if_sized [OF 1 assms(2) o] cut_if_sized [OF 2 e(2)] e(1) by auto
  qed
qed (use assms in \<open>auto simp: Ordered_def\<close>)

section \<open>The chain that the loop writes\<close>

lemma length_le_concat: "(\<forall>x \<in> set xss. x \<noteq> []) \<Longrightarrow> length xss \<le> length (concat xss)"
proof (induction xss)
  case (Cons x xss)
  then have "1 \<le> length x" by (cases x) auto
  with Cons show ?case by (simp del: length_concat)
qed simp

context order_ledger
begin

lemma write_batch_follows:
  assumes "write_batch su batch cs = Ok cs'" and "su_ledger su = lo" and "su_sha su = sha" and "holds (ch_ledger cs) bs"
    and "Suc (length bs) < 2 ^ 63"
  shows "\<exists>b val. holds (ch_ledger cs') (bs @ [b]) \<and> follows sha bs b \<and> blk_Data b = map (en_Envelope (su_codec su)) (fst batch) \<and>
    ch_cutter cs' = ch_cutter cs \<and> ch_timer cs' = ch_timer cs \<and> AnalyzeBatchAndSchedule (su_codec su) b = Ok val \<and> ordered_metadata (su_codec su) val b"
proof -
  obtain block where block: "CreateNextBlock lo sha (su_codec su) (ch_ledger cs) (fst batch) = Ok block" "follows sha bs block"
      "blk_Data block = map (en_Envelope (su_codec su)) (fst batch)" "blk_Metadata block = Some (replicate 4 [])"
    using create_next [OF assms(4)] by blast
  obtain val b where a: "AnalyzeBatchAndSchedule (su_codec su) block = Ok val" and w: "WriteBlock su block (snd batch) val cs = Ok (b, cs')"
    using assms(1-3) block(1) by (auto simp: write_batch_def go_res)
  note written = WriteBlock_written [OF w block(4)]
  then have "follows sha bs b" using block(2) by (simp add: follows_def)
  with append_block [OF assms(4,5)] written assms(2) have "holds (ch_ledger cs') (bs @ [b])" by fastforce
  moreover have "AnalyzeBatchAndSchedule (su_codec su) b = Ok val"
    using a written by (simp add: AnalyzeBatchAndSchedule_def extractIntentsFromBlock_def cong: if_cong)
  ultimately show ?thesis using \<open>follows sha bs b\<close> written block(3) by auto
qed

lemma write_batches_follow:
  "write_batches su batches cs = Ok cs' \<Longrightarrow> su_ledger su = lo \<Longrightarrow> su_sha su = sha \<Longrightarrow> holds (ch_ledger cs) bs \<Longrightarrow> chained sha bs \<Longrightarrow>
    length bs + length batches < 2 ^ 63 \<Longrightarrow>
    \<exists>new. holds (ch_ledger cs') (bs @ new) \<and> chained sha (bs @ new) \<and>
      map blk_Data new = map (\<lambda>b. map (en_Envelope (su_codec su)) (fst b)) batches \<and> ch_cutter cs' = ch_cutter cs"
proof (induction batches arbitrary: cs bs)
  case (Cons batch batches)
  then obtain cs1 where 1: "write_batch su batch cs = Ok cs1" and 2: "write_batches su batches cs1 = Ok cs'" by (auto simp: go_res)
  from write_batch_follows [OF 1 Cons.prems(2-4)] Cons.prems(6) obtain b where b: "holds (ch_ledger cs1) (bs @ [b])" "follows sha bs b"
      "blk_Data b = map (en_Envelope (su_codec su)) (fst batch)" "ch_cutter cs1 = ch_cutter cs" by auto
  have "chained sha (bs @ [b])" using Cons.prems(5) b(2) by (rule chained.further)
  from Cons.IH [OF 2 Cons.prems(2,3) b(1) this] Cons.prems(6) obtain new where "holds (ch_ledger cs') ((bs @ [b]) @ new)"
      "chained sha ((bs @ [b]) @ new)" "map blk_Data new = map (\<lambda>b. map (en_Envelope (su_codec su)) (fst b)) batches" "ch_cutter cs' = ch_cutter cs1"
    by auto
  then show ?case using b(3,4) by (intro exI [of _ "b # new"]) simp
qed auto

text \<open>The new blocks hold the accepted messages up to the pending ones.\<close>

definition ordered_so_far :: "codec \<Rightarrow> Block list \<Rightarrow> Envelope list \<Rightarrow> ('s, 'e, 'l) channel \<Rightarrow> bool" where
  "ordered_so_far pc bs0 ms cs \<longleftrightarrow> sized (ch_cutter cs) \<and>
     (\<exists>new. holds (ch_ledger cs) (bs0 @ new) \<and> chained sha (bs0 @ new) \<and> (\<forall>b \<in> set new. blk_Data b \<noteq> []) \<and>
       concat (map blk_Data new) @ map (en_Envelope pc) (pendingBatch (ch_cutter cs)) = map (en_Envelope pc) ms)"

lemma write_batches_so_far:
  assumes "write_batches su batches (cs\<lparr>ch_cutter := r\<rparr>) = Ok cs'" and su: "su_ledger su = lo" "su_sha su = sha"
    and "ordered_so_far (su_codec su) bs0 ms cs" and "sized r" and ne: "\<forall>x \<in> set batches. fst x \<noteq> []"
    and keep: "concat (map fst batches) @ pendingBatch r = pendingBatch (ch_cutter cs) @ ms1"
    and bound: "length bs0 + length (ms @ ms1) < 2 ^ 63"
  shows "ordered_so_far (su_codec su) bs0 (ms @ ms1) cs'"
proof -
  let ?en = "en_Envelope (su_codec su)"
  obtain new where new: "holds (ch_ledger cs) (bs0 @ new)" "chained sha (bs0 @ new)" "\<forall>b \<in> set new. blk_Data b \<noteq> []"
      "concat (map blk_Data new) @ map ?en (pendingBatch (ch_cutter cs)) = map ?en ms"
    using assms(4) by (auto simp: ordered_so_far_def)
  have all: "concat (map blk_Data new) @ map ?en (concat (map fst batches) @ pendingBatch r) = map ?en (ms @ ms1)"
    using new(4) by (simp add: keep flip: append_assoc)
  have "length new \<le> length (concat (map blk_Data new))" using length_le_concat [of "map blk_Data new"] new(3) by simp
  moreover have "length batches \<le> length (concat (map fst batches))" using length_le_concat [of "map fst batches"] ne by simp
  moreover have "length (concat (map blk_Data new)) + length (concat (map fst batches)) \<le> length (ms @ ms1)"
    using arg_cong [OF all, of length] by (simp del: length_concat)
  ultimately have len: "length (bs0 @ new) + length batches < 2 ^ 63" using bound by (simp del: length_concat)
  have "holds (ch_ledger (cs\<lparr>ch_cutter := r\<rparr>)) (bs0 @ new)" using new(1) by simp
  from write_batches_follow [OF assms(1) su this new(2) len] obtain new' where new': "holds (ch_ledger cs') ((bs0 @ new) @ new')"
      "chained sha ((bs0 @ new) @ new')" "map blk_Data new' = map (\<lambda>b. map ?en (fst b)) batches" "ch_cutter cs' = r" by auto
  have "concat (map blk_Data (new @ new')) @ map ?en (pendingBatch (ch_cutter cs')) = map ?en (ms @ ms1)"
    using all new'(3,4) by (simp add: map_concat comp_def)
  moreover have "\<forall>b \<in> set (new @ new'). blk_Data b \<noteq> []"
  proof -
    have "blk_Data ` set new' = (\<lambda>b. map ?en (fst b)) ` set batches" using arg_cong [OF new'(3), of set] by simp
    with ne new(3) show ?thesis by (auto simp: image_iff set_eq_iff) (metis map_is_Nil_conv)
  qed
  ultimately show ?thesis using new'(1,2,4) assms(5) unfolding ordered_so_far_def by (intro conjI exI [of _ "new @ new'"]) auto
qed

lemma receive_so_far:
  assumes "solo_receive su msg cs = Ok cs'" and su: "su_ledger su = lo" "su_sha su = sha"
    and so_far: "ordered_so_far (su_codec su) bs0 ms cs" and "length bs0 + length (ms @ accepts su cs msg) < 2 ^ 63"
  shows "ordered_so_far (su_codec su) bs0 (ms @ accepts su cs msg) cs'"
proof -
  obtain batches ok r where o: "Ordered (su_filters su) (co_BatchSize (su_config su)) (ch_config cs) msg (ch_cutter cs) = Ok (batches, ok, r)"
    using assms(1) by (auto simp: solo_receive_def go_res)
  have "sized (ch_cutter cs)" using so_far by (simp add: ordered_so_far_def)
  note m = Ordered_messages [OF o this, folded accepts_def]
  obtain cs2 where w: "write_batches su batches (cs\<lparr>ch_cutter := r\<rparr>) = Ok cs2"
    and cs': "ordered_so_far (su_codec su) bs0 (ms @ accepts su cs msg) cs2 \<Longrightarrow> ordered_so_far (su_codec su) bs0 (ms @ accepts su cs msg) cs'"
    using assms(1) o by (cases batches) (auto simp: solo_receive_def go_res Let_def ordered_so_far_def split: if_splits)
  show ?thesis by (intro cs' write_batches_so_far [OF w su so_far]) (use m assms(5) in auto)
qed

lemma expire_so_far:
  assumes "solo_expire su cs = Ok cs'" and su: "su_ledger su = lo" "su_sha su = sha"
    and so_far: "ordered_so_far (su_codec su) bs0 ms cs" and "length bs0 + length ms < 2 ^ 63"
  shows "ordered_so_far (su_codec su) bs0 ms cs'"
proof -
  let ?r = "snd (Cut (ch_cutter cs))" and ?b = "fst (Cut (ch_cutter cs))"
  have s: "ordered_so_far (su_codec su) bs0 ms (cs\<lparr>ch_timer := False\<rparr>)" using so_far by (simp add: ordered_so_far_def)
  have cut: "sized ?r" "fst ?b @ pendingBatch ?r = pendingBatch (ch_cutter cs)" by (simp_all add: Cut_def sized_def)
  define batches where "batches = (if fst ?b = [] then [] else [?b])"
  have "write_batches su batches (cs\<lparr>ch_timer := False, ch_cutter := ?r\<rparr>) = Ok cs'"
    using assms(1) by (auto simp: batches_def solo_expire_def case_prod_beta Let_def split: if_splits)
  moreover have "\<forall>x \<in> set batches. fst x \<noteq> []" by (simp add: batches_def)
  moreover have "concat (map fst batches) @ pendingBatch ?r = pendingBatch (ch_cutter (cs\<lparr>ch_timer := False\<rparr>)) @ []"
    using cut(2) by (auto simp: batches_def)
  ultimately have "ordered_so_far (su_codec su) bs0 (ms @ []) cs'"
    by (rule write_batches_so_far [OF _ su s cut(1)]) (use assms(5) in simp)
  then show ?thesis by simp
qed

lemma run_so_far:
  assumes "solo_run su cs0 ms cs" and su: "su_ledger su = lo" "su_sha su = sha"
    and "ordered_so_far (su_codec su) bs0 [] cs0" and "length bs0 + length ms < 2 ^ 63"
  shows "ordered_so_far (su_codec su) bs0 ms cs"
  using assms(1,5)
proof induction
  case (receive ms cs msg cs')
  then have "ordered_so_far (su_codec su) bs0 ms cs" by simp
  with receive.hyps(2) show ?case by (rule receive_so_far [OF _ su _ receive.prems])
next
  case (expire ms cs cs')
  then have "ordered_so_far (su_codec su) bs0 ms cs" by simp
  with expire.hyps(3) show ?case by (rule expire_so_far [OF _ su _ expire.prems])
qed (use assms(4) in simp)

end

section \<open>When writing a batch succeeds and when it panics\<close>

text \<open>The signer works.\<close>

definition signs :: "('s, 'e, 'i, 'l, 'c) support \<Rightarrow> bool" where
  "signs su \<longleftrightarrow> (\<forall>n k. \<exists>h. su_NewSignatureHeader su n k = Ok h) \<and> (\<forall>m. \<exists>x. su_Sign su m = Ok x)"

lemma signed_metadata_total:
  assumes "signs su" and "unat (bh_Number h) < 2 ^ 63"
  shows "\<exists>x. signed_metadata su k v h = Ok x"
proof -
  obtain sh where sh: "su_NewSignatureHeader su (bh_Number h) k = Ok sh" using assms(1) unfolding signs_def by blast
  obtain hb where hb: "header_Bytes h = Ok hb" using assms(2) by (simp add: header_Bytes_def)
  obtain x where "su_Sign su (v @ en_SignatureHeader (su_codec su) sh @ hb) = Ok x" using assms(1) unfolding signs_def by blast
  then show ?thesis using sh hb by (simp add: signed_metadata_def or_panic_def Let_def)
qed

lemma commit_all_noop: "set ks \<subseteq> {NoopCommitter} \<Longrightarrow> commit_all co ks s = Ok s"
  by (induction ks) (auto simp: Commit_def)

lemma set_metadata_total: "ordered_metadata pc v b \<Longrightarrow> i < 4 \<Longrightarrow> \<exists>b'. set_metadata i val b = Ok b'"
  by (auto simp: ordered_metadata_def set_metadata_Ok)

lemma nil_on_err_not_Err: "nil_on_err r \<noteq> Err e"
  by (cases r) simp_all

lemma extract_loop_not_Err: "extract_loop pc ds \<noteq> Err e"
proof (induction ds)
  case (Cons d ds)
  moreover have "extractIntentFromEnvBytes pc d \<noteq> Err x" for x
    unfolding extractIntentFromEnvBytes_def by (rule nil_on_err_not_Err)
  ultimately show ?case by (auto simp: go_res)
qed simp

lemma extract_loop_Panic: "d \<in> set ds \<Longrightarrow> extractIntentFromEnvBytes pc d = Panic \<Longrightarrow> extract_loop pc ds = Panic"
proof (induction ds)
  case (Cons x ds)
  have "extractIntentFromEnvBytes pc x \<noteq> Err e" for e
    unfolding extractIntentFromEnvBytes_def by (rule nil_on_err_not_Err)
  with Cons show ?case by (cases "extractIntentFromEnvBytes pc x") auto
qed simp

text \<open>An endorser transaction whose header names no chaincode.\<close>

definition no_chaincode_id :: "codec \<Rightarrow> Envelope \<Rightarrow> bool" where
  "no_chaincode_id pc m \<longleftrightarrow> (\<exists>data p hdr chdr ext. env_Payload m = Some data \<and> un_Payload pc data = Inr p \<and> pl_Header p = Some hdr \<and>
     un_ChannelHeader pc (hdr_ChannelHeader hdr) = Inr chdr \<and> ch_Type chdr = HeaderType_ENDORSER_TRANSACTION \<and>
     un_ChaincodeHeaderExtension pc (ch_Extension chdr) = Inr ext \<and> che_ChaincodeId ext = None)"

lemma no_chaincode_id_panics:
  "no_chaincode_id pc m \<Longrightarrow> un_Envelope pc (en_Envelope pc m) = Inr m \<Longrightarrow> extractIntentFromEnvBytes pc (en_Envelope pc m) = Panic"
  by (auto simp: no_chaincode_id_def extractIntentFromEnvBytes_def GetEnvelopeFromBlock_def GetPayload_def UnmarshalChannelHeader_def
      GetChaincodeHeaderExtension_def slice_def)

lemma addLastConfigSignature_total:
  assumes "signs su" and "unat (block_number b) < 2 ^ 63" and "ordered_metadata pc v b"
  shows "\<exists>b' cs'. addLastConfigSignature su b cs = Ok (b', cs') \<and> blk_Header b' = blk_Header b \<and> blk_Data b' = blk_Data b \<and>
    ch_ledger cs' = ch_ledger cs"
proof -
  define cs1 where "cs1 = (if co_Sequence (su_config su) (ch_config cs) > ch_lastConfigSeq cs
    then cs\<lparr>ch_lastConfig := block_number b, ch_lastConfigSeq := co_Sequence (su_config su) (ch_config cs)\<rparr> else cs)"
  obtain w where w: "signed_metadata su 1 (en_LastConfig (su_codec su) \<lparr>lc_Index = ch_lastConfig cs1\<rparr>) (blk_Header b) = Ok w"
    using signed_metadata_total [OF assms(1,2)] by blast
  obtain b3 where b3: "set_metadata BlockMetadataIndex_LAST_CONFIG w b = Ok b3"
    using set_metadata_total [OF assms(3), of BlockMetadataIndex_LAST_CONFIG w] by (auto simp: metadata_index_defs)
  have "addLastConfigSignature su b cs = Ok (b3, cs1)"
    unfolding addLastConfigSignature_def Let_def cs1_def [symmetric] using w b3 by simp
  moreover have "ch_ledger cs1 = ch_ledger cs" by (simp add: cs1_def)
  ultimately show ?thesis using b3 by (auto simp: set_metadata_Ok)
qed

lemma WriteBlock_total:
  assumes "signs su" and "set ks \<subseteq> {NoopCommitter}" and "blk_Metadata block = Some (replicate 4 [])"
    and n: "unat (block_number block) < 2 ^ 63"
    and app: "\<And>b. blk_Header b = blk_Header block \<Longrightarrow> blk_Data b = blk_Data block \<Longrightarrow> \<exists>l. lo_Append (su_ledger su) (ch_ledger cs) b = Ok l"
  shows "\<exists>b cs'. WriteBlock su block ks val cs = Ok (b, cs')"
proof -
  let ?pc = "su_codec su"
  let ?first = "case val of None \<Rightarrow> Ok block
    | Some v \<Rightarrow> set_metadata BlockMetadataIndex_ORDERER (en_Metadata ?pc \<lparr>md_Value = v, md_Signatures = []\<rparr>) block"
  obtain b1 where 1: "?first = Ok b1" "ordered_metadata ?pc val b1" "blk_Header b1 = blk_Header block" "blk_Data b1 = blk_Data block"
    using assms(3) by (cases val) (auto simp: set_metadata_Ok ordered_metadata_def metadata_index_defs)
  obtain v where v: "signed_metadata su 0 [] (blk_Header b1) = Ok v" using signed_metadata_total [OF assms(1)] n 1(3) by metis
  obtain b2 where b2: "set_metadata BlockMetadataIndex_SIGNATURES v b1 = Ok b2"
    using set_metadata_total [OF 1(2), of BlockMetadataIndex_SIGNATURES v] by (auto simp: metadata_index_defs)
  note 2 = add_signature_keeps [OF b2 _ 1(2), simplified metadata_index_defs, simplified]
  obtain b3 cs1 where 3: "addLastConfigSignature su b2 (cs\<lparr>ch_config := ch_config cs\<rparr>) = Ok (b3, cs1)" "blk_Header b3 = blk_Header b2"
      "blk_Data b3 = blk_Data b2" "ch_ledger cs1 = ch_ledger cs"
    using addLastConfigSignature_total [OF assms(1), of b2 ?pc val "cs\<lparr>ch_config := ch_config cs\<rparr>"] 2 1(3) n by auto
  then obtain l where l: "lo_Append (su_ledger su) (ch_ledger cs) b3 = Ok l" using app 1(3,4) 2 by metis
  have "addBlockSignature su b1 = Ok b2" using v b2 by (simp add: addBlockSignature_def)
  then show ?thesis using 1(1) 3 l commit_all_noop [OF assms(2), of "su_config su" "ch_config cs"] by (simp add: WriteBlock_def or_panic_def)
qed

context order_ledger
begin

lemma write_batch_total:
  assumes "su_ledger su = lo" and "su_sha su = sha" and "holds (ch_ledger cs) bs" and "Suc (length bs) < 2 ^ 63"
    and "signs su" and "set (snd batch) \<subseteq> {NoopCommitter}"
    and "extract_loop (su_codec su) (map (en_Envelope (su_codec su)) (fst batch)) \<noteq> Panic"
  shows "\<exists>cs'. write_batch su batch cs = Ok cs'"
proof -
  obtain block where block: "CreateNextBlock lo sha (su_codec su) (ch_ledger cs) (fst batch) = Ok block" "follows sha bs block"
      "blk_Data block = map (en_Envelope (su_codec su)) (fst batch)" "blk_Metadata block = Some (replicate 4 [])"
    using create_next [OF assms(3)] by blast
  obtain intents where "extract_loop (su_codec su) (blk_Data block) = Ok intents"
    using assms(7) extract_loop_not_Err block(3) by (metis res.exhaust)
  then obtain val where a: "AnalyzeBatchAndSchedule (su_codec su) block = Ok val"
    by (cases "intents = []") (auto simp: AnalyzeBatchAndSchedule_def extractIntentsFromBlock_def Let_def)
  have "unat (block_number block) < 2 ^ 63" using block(2) assms(4) unat_small [of "length bs"] by (simp add: follows_def)
  moreover have "\<exists>l. lo_Append (su_ledger su) (ch_ledger cs) b = Ok l" if "blk_Header b = blk_Header block" "blk_Data b = blk_Data block" for b
    using append_block [OF assms(3,4), of b] block(2) that assms(1) by (auto simp: follows_def)
  ultimately obtain b cs' where "WriteBlock su block (snd batch) val cs = Ok (b, cs')"
    using WriteBlock_total [OF assms(5,6) block(4)] by blast
  then show ?thesis using a block(1) assms(1,2) by (simp add: write_batch_def)
qed

lemma expire_writes:
  assumes "su_ledger su = lo" and "su_sha su = sha" and "holds (ch_ledger cs) bs" and "Suc (length bs) < 2 ^ 63" and "signs su"
    and "set (pendingCommitters (ch_cutter cs)) \<subseteq> {NoopCommitter}" and "pendingBatch (ch_cutter cs) \<noteq> []"
    and "extract_loop (su_codec su) (map (en_Envelope (su_codec su)) (pendingBatch (ch_cutter cs))) \<noteq> Panic"
  shows "\<exists>cs' b. solo_expire su cs = Ok cs' \<and> holds (ch_ledger cs') (bs @ [b]) \<and> follows sha bs b \<and>
    blk_Data b = map (en_Envelope (su_codec su)) (pendingBatch (ch_cutter cs)) \<and> pendingBatch (ch_cutter cs') = []"
proof -
  let ?b = "fst (Cut (ch_cutter cs))" and ?cs = "cs\<lparr>ch_timer := False, ch_cutter := snd (Cut (ch_cutter cs))\<rparr>"
  have b: "fst ?b = pendingBatch (ch_cutter cs)" "snd ?b = pendingCommitters (ch_cutter cs)" by (simp_all add: Cut_def)
  have h: "holds (ch_ledger ?cs) bs" using assms(3) by simp
  obtain cs' where w: "write_batch su ?b ?cs = Ok cs'"
    using write_batch_total [OF assms(1,2) h assms(4,5), of ?b] assms(6,8) b by auto
  moreover have "solo_expire su cs = write_batch su ?b ?cs" using assms(7) b(1) by (simp add: solo_expire_def case_prod_beta Let_def)
  moreover from write_batch_follows [OF w assms(1,2) h assms(4)] obtain b where "holds (ch_ledger cs') (bs @ [b])"
    "follows sha bs b" "blk_Data b = map (en_Envelope (su_codec su)) (pendingBatch (ch_cutter cs))" "ch_cutter cs' = ch_cutter ?cs"
    using b(1) by auto
  moreover have "pendingBatch (ch_cutter ?cs) = []" by (simp add: Cut_def)
  ultimately show ?thesis by auto
qed

lemma write_batch_Panic:
  assumes "su_ledger su = lo" and "su_sha su = sha" and "holds (ch_ledger cs) bs" and "m \<in> set (fst batch)"
    and "no_chaincode_id (su_codec su) m" and "un_Envelope (su_codec su) (en_Envelope (su_codec su) m) = Inr m"
  shows "write_batch su batch cs = Panic"
proof -
  obtain block where block: "CreateNextBlock lo sha (su_codec su) (ch_ledger cs) (fst batch) = Ok block"
      "blk_Data block = map (en_Envelope (su_codec su)) (fst batch)"
    using create_next [OF assms(3)] by blast
  have "extract_loop (su_codec su) (blk_Data block) = Panic"
    by (rule extract_loop_Panic [OF _ no_chaincode_id_panics [OF assms(5,6)]]) (use assms(4) block(2) in simp)
  then show ?thesis using block(1) assms(1,2) by (simp add: write_batch_def AnalyzeBatchAndSchedule_def extractIntentsFromBlock_def)
qed

end

section \<open>Properties\<close>

text \<open>C11: The solo orderer builds a chain of exactly the accepted messages. From a channel whose ledger is a
  chain of linked blocks and whose cutter is empty, whatever messages arrive and however the timer
  expires, the ledger stays a chain that extends the old one, and the transactions of the new blocks,
  followed by the pending messages, are the messages that passed the filters, each once and in order.
\<close>

theorem solo_chain_exact:
  assumes "solo_run su cs0 ms cs" and "su_ledger su = ram_ops (su_sha su)" and "ch_cutter cs0 = NewReceiverImpl"
    and "ram_holds (ch_ledger cs0) bs0" and "chained (su_sha su) bs0" and "length bs0 + length ms < 2 ^ 63"
  shows "\<exists>new. ram_holds (ch_ledger cs) (bs0 @ new) \<and> chained (su_sha su) (bs0 @ new) \<and>
    concat (map blk_Data new) @ map (en_Envelope (su_codec su)) (pendingBatch (ch_cutter cs)) = map (en_Envelope (su_codec su)) ms"
proof -
  have "ram.ordered_so_far (su_sha su) (su_codec su) bs0 [] cs0"
    using assms(3-5) unfolding ram.ordered_so_far_def by (intro conjI exI [of _ "[]"]) (auto simp: NewReceiverImpl_def sized_def)
  from ram.run_so_far [OF assms(1,2) refl this assms(6)] show ?thesis unfolding ram.ordered_so_far_def by blast
qed


lemma idle_without_timer:
  assumes "solo_run su cs ms cs'" and "ms = []" and "\<not> ch_timer cs"
  shows "cs' = cs"
  using assms
proof induction
  case (receive ms cs1 msg cs2)
  then have "cs1 = cs" and r: "accepts su cs1 msg = []" by auto
  from r receive.hyps(2) have "solo_receive su msg cs1 = Ok cs1"
    by (auto simp: accepts_def solo_receive_def Ordered_def split: res.splits)
  with receive.hyps(2) \<open>cs1 = cs\<close> show ?case by simp
qed auto

text \<open>C38: A message can be left pending with no timer running. When a message overflows the pending batch, the
  loop writes the batch, keeps the message as the new pending batch, and stops the timer; no timeout
  will write it, and it waits until another message arrives.
\<close>

theorem overflow_stops_timer:
  assumes "solo_receive su msg cs = Ok cs'" and "RuleSet_Apply (su_filters su) (ch_config cs) msg = Ok (Some k)"
    and "\<not> Isolated k" and "messageSizeBytes msg \<le> PreferredMaxBytes (co_BatchSize (su_config su) (ch_config cs))"
    and "pendingBatchSizeBytes (ch_cutter cs) + messageSizeBytes msg > PreferredMaxBytes (co_BatchSize (su_config su) (ch_config cs))"
    and "MaxMessageCount (co_BatchSize (su_config su) (ch_config cs)) > 1"
    and "su_ledger su = ram_ops (su_sha su)" and "ram_holds (ch_ledger cs) bs" and "length bs + 2 < 2 ^ 63"
  shows "pendingBatch (ch_cutter cs') = [msg] \<and> \<not> ch_timer cs' \<and> (\<forall>cs''. solo_run su cs' [] cs'' \<longrightarrow> cs'' = cs')"
proof -
  let ?B = "co_BatchSize (su_config su)"
  let ?r = "enqueue msg k (snd (Cut (ch_cutter cs)))"
  have r: "pendingBatch ?r = [msg]" by (simp add: enqueue_def Cut_def)
  have "\<not> (1 :: uint32) \<ge> MaxMessageCount (?B (ch_config cs))" using assms(6) by (simp add: not_le)
  then have o: "Ordered (su_filters su) ?B (ch_config cs) msg (ch_cutter cs) = Ok ([fst (Cut (ch_cutter cs))], True, ?r)"
    using assms(2,3,5) leD [OF assms(4)] r by (simp add: Ordered_def cut_if_def Let_def)
  then obtain cs2 where w: "write_batch su (fst (Cut (ch_cutter cs))) (cs\<lparr>ch_cutter := ?r\<rparr>) = Ok cs2" and cs': "cs' = cs2\<lparr>ch_timer := False\<rparr>"
    using assms(1) by (auto simp: solo_receive_def go_res)
  have h: "ram_holds (ch_ledger (cs\<lparr>ch_cutter := ?r\<rparr>)) bs" using assms(8) by simp
  have "ch_cutter cs2 = ?r" using ram.write_batch_follows [OF w assms(7) refl h] assms(9) by auto
  then have "pendingBatch (ch_cutter cs') = [msg]" "\<not> ch_timer cs'" using cs' r by simp_all
  then show ?thesis using idle_without_timer by blast
qed

text \<open>C37: One signed message halts the orderer. An endorser transaction whose header extension names no
  chaincode passes the filters of a channel when it is signed by a writer and within the size limits, since
  no filter looks at the extension. The scheduler dereferences the missing name when the block is
  built, and the main loop panics.
\<close>

theorem missing_chaincode_id_halts_orderer:
  assumes "no_chaincode_id (su_codec su) m" and "un_Envelope (su_codec su) (en_Envelope (su_codec su) m) = Inr m"
    and "su_filters su = createStandardFilters (su_config su) (su_codec su) s0" and "writer_signed (su_config su) (su_codec su) ChannelWriters (ch_config cs) m"
    and "messageByteSize m \<le> AbsoluteMaxBytes (co_BatchSize (su_config su) s0)"
    and "messageByteSize m \<le> PreferredMaxBytes (co_BatchSize (su_config su) (ch_config cs))"
    and "MaxMessageCount (co_BatchSize (su_config su) (ch_config cs)) > 1"
    and "su_ledger su = ram_ops (su_sha su)" and "ram_holds (ch_ledger cs) bs" and "ch_cutter cs = NewReceiverImpl" and "\<not> ch_timer cs"
  shows "\<exists>cs'. solo_receive su m cs = Ok cs' \<and> ch_timer cs' \<and> solo_expire su cs' = Panic"
proof -
  let ?B = "co_BatchSize (su_config su)"
  have sz: "messageSizeBytes m = messageByteSize m" by (simp add: messageSizeBytes_def messageByteSize_def)
  have "config_message (su_codec su) m = None" "env_Payload m \<noteq> None"
    using assms(1) by (auto simp: no_chaincode_id_def config_message_def typed_header_def slice_def HeaderType_CONFIG_def HeaderType_ENDORSER_TRANSACTION_def)
  with assms(3-5) have f: "RuleSet_Apply (su_filters su) (ch_config cs) m = Ok (Some NoopCommitter)"
    using standard_filters_accept by simp
  let ?r = "enqueue m NoopCommitter (ch_cutter cs)"
  have r: "pendingBatch ?r = [m]" "pendingBatchSizeBytes (ch_cutter cs) = 0" using assms(10) by (simp_all add: enqueue_def NewReceiverImpl_def)
  have "\<not> (1 :: uint32) \<ge> MaxMessageCount (?B (ch_config cs))" using assms(7) by (simp add: not_le)
  then have "Ordered (su_filters su) ?B (ch_config cs) m (ch_cutter cs) = Ok ([], True, ?r)"
    using f leD [OF assms(6)] sz r by (simp add: Ordered_def cut_if_def Let_def)
  then have "solo_receive su m cs = Ok (cs\<lparr>ch_cutter := ?r, ch_timer := True\<rparr>)" using assms(11) by (simp add: solo_receive_def)
  moreover have "solo_expire su (cs\<lparr>ch_cutter := ?r, ch_timer := True\<rparr>) = Panic"
  proof -
    let ?cs = "cs\<lparr>ch_timer := False, ch_cutter := snd (Cut ?r)\<rparr>"
    have "ram_holds (ch_ledger ?cs) bs" using assms(9) by simp
    from ram.write_batch_Panic [OF assms(8) refl this _ assms(1,2), of "fst (Cut ?r)"] r(1)
    have "write_batch su (fst (Cut ?r)) ?cs = Panic" by (simp add: Cut_def)
    then show ?thesis using r(1) by (simp add: solo_expire_def Cut_def Let_def)
  qed
  ultimately show ?thesis by auto
qed


section \<open>Instances\<close>

text \<open>
  A channel with an identity for a hash, whose messages are of no type that matters, whose writers need no
  signature, and whose ledger is empty.
\<close>

definition untyped_codec :: codec where
  "untyped_codec = sample_codec\<lparr>un_ChannelHeader := (\<lambda>b. Inr \<lparr>ch_Type = 0, ch_Version = 0, ch_ChannelId = ''ch'', ch_TxId = b,
     ch_Epoch = 0, ch_Extension = []\<rparr>), un_SignatureHeader := (\<lambda>b. Inr \<lparr>sh_Creator = ''w'', sh_Nonce = []\<rparr>)\<rparr>"

definition sample_support :: "codec \<Rightarrow> (BatchSize, unit, string, ramLedger, nat) support" where
  "sample_support pc = \<lparr>su_config = open_ops, su_ledger = ram_ops (\<lambda>x. x), su_filters = createStandardFilters open_ops pc small_batches,
     su_codec = pc, su_sha = (\<lambda>x. x), su_NewSignatureHeader = (\<lambda>_ _. Ok \<lparr>sh_Creator = [], sh_Nonce = []\<rparr>), su_Sign = (\<lambda>_. Ok [])\<rparr>"

definition sample_channel :: "Envelope list \<Rightarrow> bool \<Rightarrow> (BatchSize, unit, ramLedger) channel" where
  "sample_channel ms timer = \<lparr>ch_config = small_batches, ch_ledger = ram_newChain 10, ch_cutter = \<lparr>pendingBatch = ms,
     pendingBatchSizeBytes = of_nat (batch_bytes ms), pendingCommitters = replicate (length ms) NoopCommitter\<rparr>,
     ch_lastConfig = 0, ch_lastConfigSeq = 0, ch_timer = timer\<rparr>"

lemma sample_signs: "signs (sample_support pc)"
  by (simp add: signs_def sample_support_def)

lemma sample_fields [simp]:
  "su_ledger (sample_support pc) = ram_ops (\<lambda>x. x)" "su_sha (sample_support pc) = (\<lambda>x. x)" "su_codec (sample_support pc) = pc"
  "su_config (sample_support pc) = open_ops" "su_filters (sample_support pc) = createStandardFilters open_ops pc small_batches"
  "ch_ledger (sample_channel ms t) = ram_newChain 10" "pendingBatch (ch_cutter (sample_channel ms t)) = ms" "ch_timer (sample_channel ms t) = t"
  "ch_config (sample_channel ms t) = small_batches" "pendingCommitters (ch_cutter (sample_channel ms t)) = replicate (length ms) NoopCommitter"
  "pendingBatchSizeBytes (ch_cutter (sample_channel ms t)) = of_nat (batch_bytes ms)" "co_BatchSize open_ops = id"
  by (simp_all add: sample_support_def sample_channel_def open_ops_def)

lemma untyped_extract: "extract_loop untyped_codec (map (en_Envelope untyped_codec) ms) = Ok []"
  by (induction ms) (simp_all add: untyped_codec_def sample_codec_def extractIntentFromEnvBytes_def GetEnvelopeFromBlock_def GetPayload_def
      UnmarshalChannelHeader_def HeaderType_ENDORSER_TRANSACTION_def)

lemma sample_writer:
  assumes "un_SignatureHeader pc = un_SignatureHeader untyped_codec" and "un_Payload pc = un_Payload untyped_codec"
  shows "writer_signed open_ops pc ChannelWriters s (msg_of n)"
  using assms by (auto simp: writer_signed_def Envelope_AsSignedData_def untyped_codec_def sample_codec_def open_ops_def GetPolicy_def
      has_prefix_def fqPrefix_def PathSeparator_def ChannelWriters_def ChannelPrefix_def sig_Evaluate_def msg_of_def)

lemma sample_accepts: "n \<le> 100 \<Longrightarrow> RuleSet_Apply (createStandardFilters open_ops untyped_codec small_batches) s (msg_of n) = Ok (Some NoopCommitter)"
  by (rule standard_filters_accept [OF _ _ _ sample_writer])
    (auto simp: config_message_def typed_header_def untyped_codec_def sample_codec_def HeaderType_CONFIG_def msg_of_def messageByteSize_def
      slice_def open_ops_def small_batches_def word_le_nat_alt unat_of_nat take_bit_nat_eq_self)

lemma sample_expires:
  "\<exists>cs' b. solo_expire (sample_support untyped_codec) (sample_channel [msg_of 3] True) = Ok cs' \<and> ram_holds (ch_ledger cs') [b] \<and>
    blk_Data b = [en_Envelope untyped_codec (msg_of 3)] \<and> pendingBatch (ch_cutter cs') = []"
  using ram.expire_writes [of "sample_support untyped_codec" "\<lambda>x. x" "sample_channel [msg_of 3] True" "[]"] untyped_extract [of "[msg_of 3]"]
    sample_signs [of untyped_codec] ram_new [of 10] by auto


theorem solo_chain_exact_witness:
  "\<exists>cs b. solo_run (sample_support untyped_codec) (sample_channel [] False) [msg_of 3] cs \<and> ram_holds (ch_ledger cs) [b] \<and>
    chained (\<lambda>x. x) [b] \<and> blk_Data b = [en_Envelope untyped_codec (msg_of 3)]"
proof -
  let ?su = "sample_support untyped_codec" and ?m = "msg_of 3"
  have f: "RuleSet_Apply (createStandardFilters open_ops untyped_codec small_batches) small_batches ?m = Ok (Some NoopCommitter)"
    by (rule sample_accepts) simp
  have "messageSizeBytes ?m = 3" "batch_bytes [?m] = 3" by (simp_all add: messageSizeBytes_def msg_of_def slice_def batch_bytes_def message_size_def)
  then have "Ordered (createStandardFilters open_ops untyped_codec small_batches) id small_batches ?m (ch_cutter (sample_channel [] False)) =
      Ok ([], True, ch_cutter (sample_channel [?m] True))"
    using f by (simp add: Ordered_def cut_if_def enqueue_def small_batches_def sample_channel_def batch_bytes_def Let_def word_le_nat_alt)
  then have r: "solo_receive ?su ?m (sample_channel [] False) = Ok (sample_channel [?m] True)"
    by (simp add: solo_receive_def) (simp add: sample_channel_def)
  have "accepts ?su (sample_channel [] False) ?m = [?m]" using f by (simp add: accepts_def)
  with solo_run.receive [OF solo_run.start r] have run: "solo_run ?su (sample_channel [] False) [?m] (sample_channel [?m] True)" by simp
  from sample_expires obtain cs' b where e: "solo_expire ?su (sample_channel [?m] True) = Ok cs'" "ram_holds (ch_ledger cs') [b]"
      "blk_Data b = [en_Envelope untyped_codec ?m]" by blast
  have run': "solo_run ?su (sample_channel [] False) [?m] cs'" by (rule solo_run.expire [OF run _ e(1)]) simp
  have c: "ch_cutter (sample_channel [] False) = NewReceiverImpl" by (simp add: sample_channel_def NewReceiverImpl_def batch_bytes_def)
  have h: "ram_holds (ch_ledger (sample_channel [] False)) []" by (simp add: ram_new)
  from solo_chain_exact [OF run' _ c h] chained.empty obtain new where "ram_holds (ch_ledger cs') new" "chained (\<lambda>x. x) new" by auto
  moreover have "new = [b]" using calculation(1) e(2) by (simp add: ram_holds_def)
  ultimately show ?thesis using run' e by blast
qed

theorem overflow_stops_timer_witness:
  "\<exists>cs'. solo_receive (sample_support untyped_codec) (msg_of 4) (sample_channel [msg_of 3] True) = Ok cs' \<and>
    pendingBatch (ch_cutter cs') = [msg_of 4] \<and> \<not> ch_timer cs'"
proof -
  let ?su = "sample_support untyped_codec" and ?m = "msg_of 4" and ?cs = "sample_channel [msg_of 3] True"
  have f: "RuleSet_Apply (createStandardFilters open_ops untyped_codec small_batches) small_batches ?m = Ok (Some NoopCommitter)"
    by (rule sample_accepts) simp
  have sz: "messageSizeBytes ?m = 4" "batch_bytes [msg_of 3] = 3" by (simp_all add: messageSizeBytes_def msg_of_def slice_def batch_bytes_def message_size_def)
  let ?r = "enqueue ?m NoopCommitter (snd (Cut (ch_cutter ?cs)))"
  have o: "Ordered (createStandardFilters open_ops untyped_codec small_batches) id small_batches ?m (ch_cutter ?cs) = Ok ([fst (Cut (ch_cutter ?cs))], True, ?r)"
    using f sz by (simp add: Ordered_def cut_if_def small_batches_def Let_def Cut_def) (simp add: enqueue_def word_le_nat_alt)
  obtain cs2 where "write_batch ?su (fst (Cut (ch_cutter ?cs))) (?cs\<lparr>ch_cutter := ?r\<rparr>) = Ok cs2"
    using ram.write_batch_total [of ?su "\<lambda>x. x" "?cs\<lparr>ch_cutter := ?r\<rparr>" "[]" "fst (Cut (ch_cutter ?cs))"] sample_signs [of untyped_codec] ram_new [of 10]
      untyped_extract [of "[msg_of 3]"] by (auto simp: Cut_def)
  then have "solo_receive ?su ?m ?cs = Ok (cs2\<lparr>ch_timer := False\<rparr>)" using o by (simp add: solo_receive_def)
  from overflow_stops_timer [OF this, of NoopCommitter "[]"] this f sz ram_new [of 10] show ?thesis by (simp add: small_batches_def)
qed

text \<open>A runtime that reads a header extension without a chaincode name from every message.\<close>

definition nameless_codec :: codec where
  "nameless_codec = sample_codec\<lparr>un_SignatureHeader := un_SignatureHeader untyped_codec,
     un_ChaincodeHeaderExtension := (\<lambda>b. Inr \<lparr>che_PayloadVisibility = [], che_ChaincodeId = None\<rparr>)\<rparr>"

theorem missing_chaincode_id_halts_orderer_witness:
  "\<exists>cs'. solo_receive (sample_support nameless_codec) (msg_of 3) (sample_channel [] False) = Ok cs' \<and> ch_timer cs' \<and>
    solo_expire (sample_support nameless_codec) cs' = Panic"
proof (rule missing_chaincode_id_halts_orderer [where ?s0.0 = small_batches])
  show "no_chaincode_id (su_codec (sample_support nameless_codec)) (msg_of 3)"
    by (simp add: no_chaincode_id_def nameless_codec_def sample_codec_def msg_of_def HeaderType_ENDORSER_TRANSACTION_def)
  show "writer_signed (su_config (sample_support nameless_codec)) (su_codec (sample_support nameless_codec)) ChannelWriters
      (ch_config (sample_channel [] False)) (msg_of 3)"
    using sample_writer [of nameless_codec small_batches 3] by (simp add: nameless_codec_def untyped_codec_def)
  show "ram_holds (ch_ledger (sample_channel [] False)) []" by (simp add: ram_new)
  show "ch_cutter (sample_channel [] False) = NewReceiverImpl" by (simp add: sample_channel_def NewReceiverImpl_def batch_bytes_def)
qed (simp_all add: nameless_codec_def sample_codec_def msg_of_def slice_def messageByteSize_def small_batches_def)


end
