(* ===== verification/Order_Services.thy ===== *)
theory Order_Services
  imports Order_Filter Order_Ledger "HOL-Library.Sublist"
begin

text \<open>
  The services of the orderer: \<open>orderer/common/broadcast/broadcast.go\<close>, which takes messages from clients,
  and \<open>orderer/common/deliver/deliver.go\<close>, which hands blocks to them.

  A connection is the list of what the client sends, and replies always reach the client. While blocks
  are delivered the ledger grows and the configuration changes: the loop of \<open>Handle\<close> is given what it
  observes in each of its rounds. The lemmas are proved against the contract of a ledger.
\<close>

section \<open>Broadcast\<close>

text \<open>
  A channel as broadcast sees it: its configuration, its filters, and whether it still takes messages.
  \<open>Process\<close> turns a configuration update into a message for a channel.
\<close>

record ('s, 'e) broadcast_support =
  bs_config :: 's
  bs_filters :: "('s, 'e) rule list"
  bs_running :: bool

record ('s, 'e) support_manager =
  sm_Process :: "Envelope \<Rightarrow> (string, Envelope) res"
  sm_GetChain :: "string \<Rightarrow> ('s, 'e) broadcast_support option"

text \<open>The channel header of a message, or the reply when it has none; panics of \<open>Process\<close> are passed on.\<close>

definition message_header :: "codec \<Rightarrow> Envelope \<Rightarrow> ChannelHeader option" where
  "message_header pc msg =
     (case un_Payload pc (slice (env_Payload msg)) of
        Inl _ \<Rightarrow> None
      | Inr payload \<Rightarrow>
          (case pl_Header payload of
             None \<Rightarrow> None
           | Some hdr \<Rightarrow> (case un_ChannelHeader pc (hdr_ChannelHeader hdr) of Inl _ \<Rightarrow> None | Inr chdr \<Rightarrow> Some chdr)))"

definition preprocess :: "codec \<Rightarrow> ('s, 'e) support_manager \<Rightarrow> Envelope \<Rightarrow> (Status, Envelope \<times> ChannelHeader) res" where
  "preprocess pc sm msg =
     (case message_header pc msg of
        None \<Rightarrow> Err Status_BAD_REQUEST
      | Some chdr \<Rightarrow>
          if ch_Type chdr = HeaderType_CONFIG_UPDATE
          then case sm_Process sm msg of
                 Panic \<Rightarrow> Panic
               | Err _ \<Rightarrow> Err Status_BAD_REQUEST
               | Ok msg1 \<Rightarrow>
                   (case message_header pc msg1 of
                      None \<Rightarrow> Err Status_INTERNAL_SERVER_ERROR
                    | Some chdr1 \<Rightarrow>
                        if ch_ChannelId chdr1 = [] then Err Status_INTERNAL_SERVER_ERROR else Ok (msg1, chdr1))
          else Ok (msg, chdr))"

text \<open>One round of the loop: the message that is enqueued and its channel, or the status of the refusal.\<close>

definition broadcast_round :: "codec \<Rightarrow> ('s, 'e) support_manager \<Rightarrow> Envelope \<Rightarrow> (Status, string \<times> Envelope) res" where
  "broadcast_round pc sm msg =
     rbind (preprocess pc sm msg) (\<lambda>(msg1, chdr).
     case sm_GetChain sm (ch_ChannelId chdr) of
       None \<Rightarrow> Err Status_NOT_FOUND
     | Some support \<Rightarrow>
         (case RuleSet_Apply (bs_filters support) (bs_config support) msg1 of
            Panic \<Rightarrow> Panic
          | Err _ \<Rightarrow> Err Status_BAD_REQUEST
          | Ok _ \<Rightarrow> if \<not> bs_running support then Err Status_SERVICE_UNAVAILABLE else Ok (ch_ChannelId chdr, msg1)))"

text \<open>The replies of a connection and what it enqueued, in order. The first refusal ends the connection.\<close>

fun broadcast_Handle :: "codec \<Rightarrow> ('s, 'e) support_manager \<Rightarrow> Envelope list \<Rightarrow> (string, Status list \<times> (string \<times> Envelope) list) res" where
  "broadcast_Handle pc sm [] = Ok ([], [])"
| "broadcast_Handle pc sm (msg # msgs) =
     (case broadcast_round pc sm msg of
        Panic \<Rightarrow> Panic
      | Err status \<Rightarrow> Ok ([status], [])
      | Ok enqueued \<Rightarrow>
          rbind (broadcast_Handle pc sm msgs) (\<lambda>(replies, es). Ok (Status_SUCCESS # replies, enqueued # es)))"

section \<open>Deliver\<close>

datatype SeekBehavior = SeekInfo_BLOCK_UNTIL_READY | SeekInfo_FAIL_IF_NOT_READY

record SeekInfo =
  si_Start :: "SeekPosition option"
  si_Stop :: "SeekPosition option"
  si_Behavior :: SeekBehavior

text \<open>
  What a round observes: the ledger, the configuration, and whether the consenter has failed. When the
  block is ready too, the round may take either; then \<open>ob_errored\<close> says that it takes the failure.
\<close>

record ('l, 's) observation =
  ob_ledger :: 'l
  ob_config :: 's
  ob_errored :: bool

definition may_read :: "('s, 'e, 'i) config_ops \<Rightarrow> codec \<Rightarrow> 's \<Rightarrow> Envelope \<Rightarrow> (string, bool) res" where
  "may_read co pc s envelope =
     rbind (sigFilter co pc ChannelReaders s envelope) (\<lambda>(result, _). Ok (result = Forward))"

text \<open>
  The rounds after the request has been accepted. The result is the blocks that were sent and the final
  status, or no status if the loop is still waiting when the observations end.
\<close>

fun deliver_loop :: "('l, 'c) ledger_ops \<Rightarrow> ('s, 'e, 'i) config_ops \<Rightarrow> codec \<Rightarrow> Envelope \<Rightarrow> SeekBehavior \<Rightarrow> uint64 \<Rightarrow>
    ('l, 's) observation list \<Rightarrow> 'c Iterator \<Rightarrow> uint64 \<Rightarrow> (string, Block list \<times> Status option) res" where
  "deliver_loop lo co pc envelope behavior stopNum [] cursor lastConfigSequence = Ok ([], None)"
| "deliver_loop lo co pc envelope behavior stopNum (ob # obs) cursor lastConfigSequence =
     rbind (iterator_Ready lo (ob_ledger ob) cursor) (\<lambda>ready.
     if behavior = SeekInfo_BLOCK_UNTIL_READY \<and> ob_errored ob then Ok ([], Some Status_SERVICE_UNAVAILABLE)
     else if behavior = SeekInfo_BLOCK_UNTIL_READY \<and> \<not> ready
     then deliver_loop lo co pc envelope behavior stopNum obs cursor lastConfigSequence
     else if \<not> ready then Ok ([], Some Status_NOT_FOUND)
     else
       let currentConfigSequence = co_Sequence co (ob_config ob);
           changed = currentConfigSequence > lastConfigSequence
       in rbind (if changed then may_read co pc (ob_config ob) envelope else Ok True) (\<lambda>ok.
          if \<not> ok then Ok ([], Some Status_FORBIDDEN)
          else rbind (iterator_Next lo (ob_ledger ob) cursor) (\<lambda>r.
               case r of
                 Waits \<Rightarrow> Ok ([], None)
               | Next_status status \<Rightarrow> Ok ([], Some status)
               | Next_block block c \<Rightarrow>
                   if stopNum = block_number block then Ok ([block], Some Status_SUCCESS)
                   else rbind (deliver_loop lo co pc envelope behavior stopNum obs (Cursor c)
                                (if changed then currentConfigSequence else lastConfigSequence)) (\<lambda>(blocks, status).
                        Ok (block # blocks, status)))))"

text \<open>A request on a channel: the first observation is what it finds, the others are those of the rounds.\<close>

definition deliver_request :: "('l, 'c) ledger_ops \<Rightarrow> ('s, 'e, 'i) config_ops \<Rightarrow> codec \<Rightarrow> (bytes \<Rightarrow> string + SeekInfo) \<Rightarrow> Envelope \<Rightarrow>
    ('l, 's) observation \<Rightarrow> ('l, 's) observation list \<Rightarrow> (string, Block list \<times> Status option) res" where
  "deliver_request lo co pc un_SeekInfo envelope ob obs =
     (if ob_errored ob then Ok ([], Some Status_SERVICE_UNAVAILABLE)
      else rbind (may_read co pc (ob_config ob) envelope) (\<lambda>ok.
      if \<not> ok then Ok ([], Some Status_FORBIDDEN)
      else case un_Payload pc (slice (env_Payload envelope)) of
             Inl _ \<Rightarrow> Ok ([], Some Status_BAD_REQUEST)
           | Inr payload \<Rightarrow>
               (case un_SeekInfo (pl_Data payload) of
                  Inl _ \<Rightarrow> Ok ([], Some Status_BAD_REQUEST)
                | Inr seekInfo \<Rightarrow>
                    (case (si_Start seekInfo, si_Stop seekInfo) of
                       (Some start, Some stop) \<Rightarrow>
                         rbind (lo_Iterator lo (ob_ledger ob) start) (\<lambda>(cursor, number).
                         rbind (lo_Height lo (ob_ledger ob)) (\<lambda>height.
                         let stopNum = (case stop of SeekPosition_Oldest \<Rightarrow> number | SeekPosition_Newest \<Rightarrow> height - 1
                                        | SeekPosition_Specified n \<Rightarrow> n | SeekPosition_unset \<Rightarrow> 0)
                         in if (case stop of SeekPosition_Specified n \<Rightarrow> n < number | _ \<Rightarrow> False) then Ok ([], Some Status_BAD_REQUEST)
                            else deliver_loop lo co pc envelope (si_Behavior seekInfo) stopNum obs cursor
                                   (co_Sequence co (ob_config ob))))
                     | _ \<Rightarrow> Ok ([], Some Status_BAD_REQUEST)))))"

text \<open>
  The loop over the requests of a connection; each comes with what it observes of the channel it names, or
  with nothing if there is no such channel. The connection ends with the first request that does not succeed.
\<close>

fun deliver_Handle :: "('l, 'c) ledger_ops \<Rightarrow> ('s, 'e, 'i) config_ops \<Rightarrow> codec \<Rightarrow> (bytes \<Rightarrow> string + SeekInfo) \<Rightarrow>
    (Envelope \<times> (string \<Rightarrow> (('l, 's) observation \<times> ('l, 's) observation list) option)) list \<Rightarrow>
    (string, (Block list \<times> Status option) list) res" where
  "deliver_Handle lo co pc un_SeekInfo [] = Ok []"
| "deliver_Handle lo co pc un_SeekInfo ((envelope, GetChain) # requests) =
     (case message_header pc envelope of
        None \<Rightarrow> Ok [([], Some Status_BAD_REQUEST)]
      | Some chdr \<Rightarrow>
          (case GetChain (ch_ChannelId chdr) of
             None \<Rightarrow> Ok [([], Some Status_NOT_FOUND)]
           | Some (ob, obs) \<Rightarrow>
               rbind (deliver_request lo co pc un_SeekInfo envelope ob obs) (\<lambda>r.
               if snd r \<noteq> Some Status_SUCCESS then Ok [r]
               else rbind (deliver_Handle lo co pc un_SeekInfo requests) (\<lambda>rs. Ok (r # rs)))))"

section \<open>What is delivered\<close>

text \<open>Each round observes a ledger that extends the one before, up to the chain \<open>bs\<close>.\<close>

fun observes :: "('l \<Rightarrow> Block list \<Rightarrow> bool) \<Rightarrow> Block list \<Rightarrow> ('l, 's) observation list \<Rightarrow> Block list \<Rightarrow> bool" where
  "observes holds bs0 [] bs \<longleftrightarrow> prefix bs0 bs"
| "observes holds bs0 (ob # obs) bs \<longleftrightarrow> (\<exists>bs1. holds (ob_ledger ob) bs1 \<and> prefix bs0 bs1 \<and> observes holds bs1 obs bs)"

lemma observes_prefix: "observes holds bs0 obs bs \<Longrightarrow> prefix bs0 bs"
  by (induction obs arbitrary: bs0) (auto intro: prefix_order.trans)

context order_ledger
begin

text \<open>What a round does with a cursor at block \<open>i\<close>, which is there or not.\<close>

lemma round:
  assumes "holds l bs'" and "prefix bs' bs" and "reads c i" and "i \<le> length bs'"
  shows "lo_Ready lo l c = Ok (i < length bs') \<and>
    (i < length bs' \<longrightarrow> (\<exists>c'. lo_Next lo l c = Ok (Next_block (bs ! i) c') \<and> reads c' (Suc i)))"
proof (cases "i < length bs'")
  case True
  then have "bs' ! i = bs ! i" using assms(2) by (auto simp: prefix_def nth_append)
  with read_block [OF assms(1,3) True] True show ?thesis by auto
next
  case False
  with assms(3,4) have "reads c (length bs')" by simp
  from read_waits [OF assms(1) this] False show ?thesis by simp
qed

lemma loop_consecutive:
  assumes "deliver_loop lo co pc envelope behavior stopNum obs (Cursor c) seq = Ok (sent, st)"
    and "observes holds bs0 obs bs" and "reads c i" and "i \<le> length bs0" and "numbered_chain bs"
  shows "sent = take (length sent) (drop i bs) \<and> i + length sent \<le> length bs \<and>
    (st = Some Status_SUCCESS \<longrightarrow> sent \<noteq> [] \<and> stopNum = of_nat (i + length sent - 1))"
  using assms(1-4)
proof (induction obs arbitrary: bs0 c i seq sent st)
  case Nil
  then show ?case using observes_prefix [of holds bs0 "[]" bs] by (auto dest: prefix_length_le)
next
  case (Cons ob obs)
  from Cons.prems(2) obtain bs1 where bs1: "holds (ob_ledger ob) bs1" "prefix bs0 bs1" "observes holds bs1 obs bs" by auto
  have pre: "prefix bs1 bs" and i: "i \<le> length bs1" "i \<le> length bs"
    using observes_prefix [OF bs1(3)] bs1(2) Cons.prems(4) by (auto dest!: prefix_length_le)
  note r = round [OF bs1(1) pre Cons.prems(3) i(1)]
  show ?case
  proof (cases "i < length bs1 \<and> sent \<noteq> []")
    case True
    then obtain c' where c': "lo_Next lo (ob_ledger ob) c = Ok (Next_block (bs ! i) c')" "reads c' (Suc i)" using r by blast
    have i': "i < length bs" using True pre by (auto dest: prefix_length_le)
    have num: "block_number (bs ! i) = of_nat i" using assms(5) i' by (simp add: numbered_chain_def)
    have d: "drop i bs = bs ! i # drop (Suc i) bs" using i' by (simp add: Cons_nth_drop_Suc)
    show ?thesis
    proof (cases "stopNum = block_number (bs ! i)")
      case stop: True
      then have "sent = [bs ! i] \<and> st = Some Status_SUCCESS"
        using Cons.prems(1) r c'(1) True by (auto simp: go_res Let_def split: if_splits)
      then show ?thesis using stop num d i' by simp
    next
      case False
      then obtain seq' sent' where rest: "deliver_loop lo co pc envelope behavior stopNum obs (Cursor c') seq' = Ok (sent', st)" "sent = bs ! i # sent'"
        using Cons.prems(1) r c'(1) True by (auto simp: go_res Let_def split: if_splits)
      from Cons.IH [OF rest(1) bs1(3) c'(2)] True show ?thesis using d rest(2) by auto
    qed
  next
    case False
    show ?thesis
    proof (cases "behavior = SeekInfo_BLOCK_UNTIL_READY \<and> \<not> ob_errored ob \<and> \<not> i < length bs1")
      case True
      then have "deliver_loop lo co pc envelope behavior stopNum obs (Cursor c) seq = Ok (sent, st)" using Cons.prems(1) r by simp
      from Cons.IH [OF this bs1(3) Cons.prems(3) i(1)] show ?thesis .
    next
      case wait: False
      have "sent = [] \<and> st \<noteq> Some Status_SUCCESS"
        using Cons.prems(1) r wait False by (cases "i < length bs1") (auto simp: go_res Let_def split: if_splits)
      then show ?thesis using i(2) by simp
    qed
  qed
qed

lemma loop_waits:
  assumes "holds (ob_ledger ob) bs" and "reads c (length bs)" and "\<not> ob_errored ob"
  shows "deliver_loop lo co pc envelope behavior stopNum (replicate k ob) (Cursor c) seq =
    Ok ([], if behavior = SeekInfo_BLOCK_UNTIL_READY \<or> k = 0 then None else Some Status_NOT_FOUND)"
  using read_waits [OF assms(1,2)] assms(3) by (induction k) auto

lemma loop_exact:
  assumes "holds (ob_ledger ob) bs" and "\<not> ob_errored ob"
  shows "reads c n \<Longrightarrow> n \<le> length bs \<Longrightarrow> n \<le> m \<Longrightarrow> m < 2 ^ 63 \<Longrightarrow> length bs - n < k \<Longrightarrow>
    deliver_loop lo co pc envelope behavior (of_nat m) (replicate k ob) (Cursor c) (co_Sequence co (ob_config ob)) =
    Ok (if m < length bs then (drop n (take (Suc m) bs), Some Status_SUCCESS)
        else (drop n bs, if behavior = SeekInfo_BLOCK_UNTIL_READY then None else Some Status_NOT_FOUND))"
proof (induction "length bs - n" arbitrary: n c k)
  case 0
  then have n: "n = length bs" by simp
  from loop_waits [OF assms(1) _ assms(2), of c co pc envelope behavior "of_nat m" k "co_Sequence co (ob_config ob)"] 0 show ?case by (simp add: n)
next
  case (Suc d)
  then have n: "n < length bs" by linarith
  from Suc.prems(5) obtain k' where k: "k = Suc k'" by (cases k) auto
  from read_block [OF assms(1) Suc.prems(1) n] obtain c' where
    r: "lo_Ready lo (ob_ledger ob) c = Ok True" "lo_Next lo (ob_ledger ob) c = Ok (Next_block (bs ! n) c')" "reads c' (Suc n)" by blast
  have num: "block_number (bs ! n) = of_nat n" and len: "length bs < 2 ^ 63" using holds_numbered [OF assms(1)] n by (simp_all add: numbered_chain_def)
  have stop: "(of_nat m :: uint64) = block_number (bs ! n) \<longleftrightarrow> m = n" using num of_nat_eq_small [of m n] Suc.prems(4) n len by simp
  show ?case
  proof (cases "m = n")
    case True
    then have "drop n (take (Suc m) bs) = [bs ! n]" using n by (simp add: take_Suc_conv_app_nth)
    with True n stop r assms(2) show ?thesis by (simp add: k)
  next
    case False
    have "drop n (take (Suc m) bs) = bs ! n # drop (Suc n) (take (Suc m) bs)" "drop n bs = bs ! n # drop (Suc n) bs"
      using n Suc.prems(3) by (simp_all add: drop_take Suc_diff_le flip: Cons_nth_drop_Suc)
    moreover have "deliver_loop lo co pc envelope behavior (of_nat m) (replicate k' ob) (Cursor c') (co_Sequence co (ob_config ob)) =
      Ok (if m < length bs then (drop (Suc n) (take (Suc m) bs), Some Status_SUCCESS)
        else (drop (Suc n) bs, if behavior = SeekInfo_BLOCK_UNTIL_READY then None else Some Status_NOT_FOUND))"
      using Suc.hyps(2) Suc.prems(3-5) n False k by (intro Suc.hyps(1) [OF _ r(3)]) auto
    ultimately show ?thesis using stop r assms(2) False by (simp add: k)
  qed
qed

end

section \<open>Properties\<close>

text \<open>C34: Deliver hands out exactly the requested blocks. A client that may read the channel and asks for the
  blocks \<open>n\<close> to \<open>m\<close> gets them in order and the status of success when the ledger has them all; otherwise it
  gets the ones that are there, and then the status \<open>NOT_FOUND\<close>, or it waits if it asked to.
\<close>

theorem deliver_exact:
  assumes "may_read co pc (ob_config ob) envelope = Ok True" and "un_Payload pc (slice (env_Payload envelope)) = Inr payload"
    and "un_SeekInfo (pl_Data payload) = Inr \<lparr>si_Start = Some (SeekPosition_Specified (of_nat n)),
      si_Stop = Some (SeekPosition_Specified (of_nat m)), si_Behavior = behavior\<rparr>"
    and "ram_holds (ob_ledger ob) bs" and "\<not> ob_errored ob" and "ram_first (ob_ledger ob) \<le> n" and "n \<le> length bs" and "n \<le> m"
    and "m < 2 ^ 63" and "length bs - n < k"
  shows "deliver_request (ram_ops sha) co pc un_SeekInfo envelope ob (replicate k ob) =
    Ok (if m < length bs then (drop n (take (Suc m) bs), Some Status_SUCCESS)
        else (drop n bs, if behavior = SeekInfo_BLOCK_UNTIL_READY then None else Some Status_NOT_FOUND))"
proof -
  from ram.seek_specified [OF assms(4,6,7), of sha] obtain c where
    c: "lo_Iterator (ram_ops sha) (ob_ledger ob) (SeekPosition_Specified (of_nat n)) = Ok (Cursor c, of_nat n)" "ram_reads c n" by blast
  have "length bs < 2 ^ 63" using assms(4) by (simp add: ram_holds_def numbered_chain_def)
  then have "\<not> (of_nat m :: uint64) < of_nat n" using unat_small [of m] unat_small [of n] assms(7-9) by (simp add: word_less_nat_alt)
  then show ?thesis
    using assms(1-3,5) c(1) ram.height [OF assms(4), of sha] ram.loop_exact [OF assms(4,5) c(2) assms(7-10), of sha co pc envelope behavior]
    by (simp add: deliver_request_def)
qed


lemma broadcast_round_Ok:
  assumes "broadcast_round pc sm msg = Ok (ch, m)"
  shows "\<exists>support c. sm_GetChain sm ch = Some support \<and> bs_running support \<and> RuleSet_Apply (bs_filters support) (bs_config support) m = Ok c"
proof -
  from assms obtain msg1 chdr where p: "preprocess pc sm msg = Ok (msg1, chdr)" by (auto simp: broadcast_round_def go_res)
  then obtain support where g: "sm_GetChain sm (ch_ChannelId chdr) = Some support"
    using assms by (cases "sm_GetChain sm (ch_ChannelId chdr)") (auto simp: broadcast_round_def)
  then show ?thesis using assms p
    by (cases "RuleSet_Apply (bs_filters support) (bs_config support) msg1") (auto simp: broadcast_round_def split: if_splits)
qed

lemma broadcast_round_Err:
  assumes "broadcast_round pc sm msg = Err status" shows "status \<noteq> Status_SUCCESS"
proof (cases "preprocess pc sm msg")
  case (Ok x)
  then obtain msg1 chdr where p: "preprocess pc sm msg = Ok (msg1, chdr)" by (cases x) auto
  show ?thesis
  proof (cases "sm_GetChain sm (ch_ChannelId chdr)")
    case (Some support)
    then show ?thesis using assms p
      by (cases "RuleSet_Apply (bs_filters support) (bs_config support) msg1") (auto simp: broadcast_round_def split: if_splits)
  qed (use assms p in \<open>auto simp: broadcast_round_def\<close>)
next
  case (Err e)
  then show ?thesis using assms by (auto simp: broadcast_round_def preprocess_def split: option.splits res.splits if_splits)
qed (use assms in \<open>simp add: broadcast_round_def\<close>)

text \<open>Broadcast enqueues nothing that the filters of its channel refuse, and tells the client so. The
  messages that a connection enqueues went to a running channel whose rules accepted them; the replies
  are one success for each of them, and at most one refusal, which ends the connection.
\<close>

theorem broadcast_filtered:
  assumes "broadcast_Handle pc sm msgs = Ok (replies, enqueued)"
  shows "list_all (\<lambda>(ch, m). \<exists>support c. sm_GetChain sm ch = Some support \<and> bs_running support \<and>
      RuleSet_Apply (bs_filters support) (bs_config support) m = Ok c) enqueued \<and>
    length enqueued \<le> length msgs \<and>
    (replies = replicate (length enqueued) Status_SUCCESS \<and> length enqueued = length msgs \<or>
     (\<exists>status. status \<noteq> Status_SUCCESS \<and> replies = replicate (length enqueued) Status_SUCCESS @ [status]))"
  using assms
proof (induction pc sm msgs arbitrary: replies enqueued rule: broadcast_Handle.induct)
  case (2 pc sm msg msgs)
  show ?case
  proof (cases "broadcast_round pc sm msg")
    case (Ok e)
    then obtain rs es where r: "broadcast_Handle pc sm msgs = Ok (rs, es)" "replies = Status_SUCCESS # rs" "enqueued = e # es"
      using 2(2) by (auto simp: go_res)
    have "case e of (ch, m) \<Rightarrow> \<exists>support c. sm_GetChain sm ch = Some support \<and> bs_running support \<and>
        RuleSet_Apply (bs_filters support) (bs_config support) m = Ok c"
      using Ok broadcast_round_Ok by (cases e) blast
    with 2(1) [OF Ok r(1)] r(2,3) show ?thesis by auto
  next
    case (Err status)
    from broadcast_round_Err [OF Err] Err 2(2) show ?thesis by auto
  qed (use 2(2) in simp)
qed simp

section \<open>Instances\<close>

definition sample_chain :: "Block list" where
  "sample_chain = [genesis_of [''t'']]"

definition sample_ram :: ramLedger where
  "sample_ram = ram_appendBlock (ram_newChain 10) (genesis_of [''t''])"

lemma sample_ram_holds: "ram_holds sample_ram sample_chain" "ram_first sample_ram = 0"
proof -
  have "follows (\<lambda>x. x) [] (genesis_of [''t''])" by (simp add: follows_def genesis_of_def tip_hash_def data_Hash_def data_Bytes_def)
  from ram_append [OF ram_new _ this] show "ram_holds sample_ram sample_chain" by (simp add: sample_ram_def sample_chain_def)
  show "ram_first sample_ram = 0" by (simp add: ram_first_def sample_ram_def ram_appendBlock_def ram_newChain_def Let_def)
qed

definition sample_ob :: "(ramLedger, BatchSize) observation" where
  "sample_ob = \<lparr>ob_ledger = sample_ram, ob_config = \<lparr>MaxMessageCount = 1, AbsoluteMaxBytes = 100, PreferredMaxBytes = 100\<rparr>, ob_errored = False\<rparr>"

definition sample_request :: Envelope where
  "sample_request = \<lparr>env_Payload = Some ''seek'', env_Signature = []\<rparr>"

definition seek_first :: "bytes \<Rightarrow> string + SeekInfo" where
  "seek_first b = Inr \<lparr>si_Start = Some (SeekPosition_Specified (of_nat 0)), si_Stop = Some (SeekPosition_Specified (of_nat 0)),
     si_Behavior = SeekInfo_FAIL_IF_NOT_READY\<rparr>"

lemma sample_may_read: "may_read open_ops bare_codec s m = Ok True"
proof -
  have "sigFilter open_ops bare_codec ChannelReaders s m = Ok (Forward, None)" by (rule iffD2 [OF sigFilter_Forward]) (simp add: open_signed(2))
  then show ?thesis by (simp add: may_read_def)
qed

lemma sample_payload: "un_Payload bare_codec (slice (env_Payload sample_request)) =
    Inr \<lparr>pl_Header = Some \<lparr>hdr_ChannelHeader = [], hdr_SignatureHeader = []\<rparr>, pl_Data = ''seek''\<rparr>"
  by (simp add: bare_codec_def sample_request_def slice_def)

theorem deliver_exact_witness:
  "deliver_request (ram_ops (\<lambda>x. x)) open_ops bare_codec seek_first sample_request sample_ob [sample_ob, sample_ob] =
    Ok ([genesis_of [''t'']], Some Status_SUCCESS)"
  using deliver_exact [OF sample_may_read sample_payload, of seek_first 0 0 _ sample_ob sample_chain 2 "\<lambda>x. x"] sample_ram_holds
  by (simp add: seek_first_def sample_ob_def sample_chain_def numeral_2_eq_2)


theorem broadcast_filtered_witness:
  "\<exists>replies enqueued. broadcast_Handle bare_codec \<lparr>sm_Process = (\<lambda>m. Ok m), sm_GetChain = (\<lambda>ch. if ch = ''ch''
      then Some \<lparr>bs_config = (), bs_filters = [emptyRejectRule, acceptRule :: (unit, unit) rule], bs_running = True\<rparr> else None)\<rparr>
      [sample_request, \<lparr>env_Payload = None, env_Signature = []\<rparr>] = Ok (replies, enqueued) \<and>
    replies = replicate (length enqueued) Status_SUCCESS @ [Status_BAD_REQUEST]"
proof -
  let ?sm = "\<lparr>sm_Process = (\<lambda>m. Ok m), sm_GetChain = (\<lambda>ch. if ch = ''ch''
      then Some \<lparr>bs_config = (), bs_filters = [emptyRejectRule, acceptRule :: (unit, unit) rule], bs_running = True\<rparr> else None)\<rparr>"
  have r: "broadcast_Handle bare_codec ?sm [sample_request, \<lparr>env_Payload = None, env_Signature = []\<rparr>] =
      Ok ([Status_SUCCESS, Status_BAD_REQUEST], [(''ch'', sample_request)])"
    by (simp add: broadcast_round_def preprocess_def message_header_def bare_codec_def sample_request_def HeaderType_CONFIG_UPDATE_def
        emptyRejectRule_def acceptRule_def)
  from broadcast_filtered [OF r] r show ?thesis by auto
qed

end
