(* ===== verification/Spec2Isabelle.thy ===== *)
theory Spec2Isabelle
  imports Bench_Commit Simulator History_DB Block_Chain Solo_Chain Order_Services
begin

text \<open>
  Verification of the ordering and commit path of a Hyperledger Fabric 1.0 fork whose orderer
  schedules benchmark transactions into conflict-free batches and whose committer replays them.

  \<^bold>\<open>Layers.\<close> \<open>Go_Prelude\<close>, \<open>Go_Strings\<close> and \<open>Json\<close> model what the code uses of Go;
  \<open>Protos\<close> the messages. \<open>Intent\<close>, \<open>Conflict_Graph\<close> and \<open>Schedule\<close> model the orderer's
  analysis (\<open>orderer/bench\<close>, \<open>core/bench/types.go\<close>).
\<close>

end
